(* ===== verification/Cirrus_Prelude.thy ===== *)
theory Cirrus_Prelude
  imports Main "HOL-Library.Word" "HOL-Library.AList"
begin

text \<open>
  The shared vocabulary of the development: the machine types of the C++ code, its
  exceptions and error codes (\<^verbatim>\<open>src/src/common/Exception.h\<close>), the outcome of a C++ call
  that may return, throw or run into undefined behaviour, association lists for
  \<^verbatim>\<open>std::unordered_map\<close>, and the byte order functions \<^verbatim>\<open>htonl\<close>/\<^verbatim>\<open>ntohl\<close> on the
  little-endian host the repository targets.
\<close>

section \<open>Machine types\<close>

type_synonym byte = "8 word"
type_synonym u32 = "32 word"
type_synonym u64 = "64 word"
type_synonym ObjectID = "64 word"
type_synonym TxnID = "64 word"

section \<open>Exceptions and error codes\<close>

text \<open>
  One constructor per exception class of \<^verbatim>\<open>Exception.h\<close>, carrying its message,
  \<open>runtime_error\<close> for \<^verbatim>\<open>std::runtime_error\<close>, which the servers and backends throw, and
  \<open>out_of_range\<close> and \<open>length_error\<close> for the standard containers, \<open>bad_alloc\<close> for an
  allocator that has no memory left. A
  failed \<^verbatim>\<open>assert\<close> (the build does not define \<^verbatim>\<open>NDEBUG\<close>) and \<^verbatim>\<open>exit\<close> end the process:
  they are the last two constructors, which no handler of the model catches.
\<close>

datatype exn =
    Exception string
  | ServerMemoryErrorException string
  | CacheCapacityException string
  | NoSuchIDException string
  | ConnectionException string
  | ServerReadException string
  | runtime_error string
  | out_of_range string
  | length_error string
  | bad_alloc
  | assertion_failed string
  | process_exit int

text \<open>
  The enum \<^verbatim>\<open>ErrorCodes\<close>. A value read from the wire is cast from an \<^verbatim>\<open>int64_t\<close>, so it
  may be none of the enumerators: \<open>kUnrecognized\<close> carries such a value.
\<close>

datatype ErrorCodes =
    kOk
  | kException
  | kServerMemoryErrorException
  | kNoSuchIDException
  | kUnrecognized u64

definition int_of_error_code :: "ErrorCodes \<Rightarrow> u64" where
  "int_of_error_code c =
     (case c of kOk \<Rightarrow> 0 | kException \<Rightarrow> 1 | kServerMemoryErrorException \<Rightarrow> 2
      | kNoSuchIDException \<Rightarrow> 3 | kUnrecognized w \<Rightarrow> w)"

definition error_code_of_int :: "u64 \<Rightarrow> ErrorCodes" where
  "error_code_of_int w =
     (if w = 0 then kOk else if w = 1 then kException
      else if w = 2 then kServerMemoryErrorException
      else if w = 3 then kNoSuchIDException else kUnrecognized w)"

lemma error_code_of_int_of [simp]:
  "error_code_of_int (int_of_error_code kOk) = kOk"
  "error_code_of_int (int_of_error_code kException) = kException"
  "error_code_of_int (int_of_error_code kServerMemoryErrorException) =
     kServerMemoryErrorException"
  "error_code_of_int (int_of_error_code kNoSuchIDException) = kNoSuchIDException"
  by (simp_all add: error_code_of_int_def int_of_error_code_def)

section \<open>Outcomes of a call\<close>

text \<open>
  A C++ call on a mutable object returns a value and a new state, throws and leaves the
  state it had reached, or has undefined behaviour (a dangling pointer, a read out of
  range, an iterator moved past the end): \<open>Undef\<close>, after which nothing is known.
\<close>

datatype ('a, 's) outcome = Ok 'a 's | Throw exn 's | Undef

definition bindO ::
  "('a, 's) outcome \<Rightarrow> ('a \<Rightarrow> 's \<Rightarrow> ('b, 's) outcome) \<Rightarrow> ('b, 's) outcome" where
  "bindO m f = (case m of Ok a s \<Rightarrow> f a s | Throw e s \<Rightarrow> Throw e s | Undef \<Rightarrow> Undef)"

text \<open>A call on a component, seen from the object that holds the component.\<close>

definition liftO :: "('c \<Rightarrow> 's) \<Rightarrow> ('a, 'c) outcome \<Rightarrow> ('a, 's) outcome" where
  "liftO upd m = (case m of Ok a c \<Rightarrow> Ok a (upd c) | Throw e c \<Rightarrow> Throw e (upd c) | Undef \<Rightarrow> Undef)"

lemma bindO_simps [simp]:
  "bindO (Ok a s) f = f a s"
  "bindO (Throw e s) f = Throw e s"
  "bindO Undef f = Undef"
  by (simp_all add: bindO_def)

lemma liftO_simps [simp]:
  "liftO u (Ok a c) = Ok a (u c)"
  "liftO u (Throw e c) = Throw e (u c)"
  "liftO u Undef = Undef"
  by (simp_all add: liftO_def)

lemma liftO_eq_Ok: "liftO u m = Ok a s \<longleftrightarrow> (\<exists>c. m = Ok a c \<and> s = u c)"
  by (cases m) auto

lemma bindO_assoc: "bindO (bindO m f) g = bindO m (\<lambda>a s. bindO (f a s) g)"
  by (cases m) simp_all

lemma bindO_eq_Ok:
  "bindO m f = Ok b t \<longleftrightarrow> (\<exists>a s. m = Ok a s \<and> f a s = Ok b t)"
  by (cases m) auto

lemma bindO_eq_Throw:
  "bindO m f = Throw e t \<longleftrightarrow>
     m = Throw e t \<or> (\<exists>a s. m = Ok a s \<and> f a s = Throw e t)"
  by (cases m) auto

text \<open>The state an outcome leaves behind, where there is one.\<close>

definition state_of :: "('a, 's) outcome \<Rightarrow> 's option" where
  "state_of m = (case m of Ok _ s \<Rightarrow> Some s | Throw _ s \<Rightarrow> Some s | Undef \<Rightarrow> None)"

lemma state_of_simps [simp]:
  "state_of (Ok a s) = Some s" "state_of (Throw e s) = Some s" "state_of Undef = None"
  by (simp_all add: state_of_def)

text \<open>A call that may also never return: \<open>None\<close>.\<close>

type_synonym ('a, 's) call = "('a, 's) outcome option"

definition bindW :: "('a, 's) call \<Rightarrow> ('a \<Rightarrow> 's \<Rightarrow> ('b, 's) call) \<Rightarrow> ('b, 's) call" where
  "bindW m f =
     (case m of
        None \<Rightarrow> None
      | Some (Ok a s) \<Rightarrow> f a s
      | Some (Throw e s) \<Rightarrow> Some (Throw e s)
      | Some Undef \<Rightarrow> Some Undef)"

definition liftW :: "('c \<Rightarrow> 's) \<Rightarrow> ('a, 'c) call \<Rightarrow> ('a, 's) call" where
  "liftW upd m = map_option (liftO upd) m"

text \<open>A result or an exception as the end of a call.\<close>

definition raise_or :: "exn + 'a \<Rightarrow> 's \<Rightarrow> ('a, 's) call" where
  "raise_or r s = (case r of Inl e \<Rightarrow> Some (Throw e s) | Inr a \<Rightarrow> Some (Ok a s))"

lemma bindW_simps [simp]:
  "bindW None f = None"
  "bindW (Some (Ok a s)) f = f a s"
  "bindW (Some (Throw e s)) f = Some (Throw e s)"
  "bindW (Some Undef) f = Some Undef"
  by (simp_all add: bindW_def)

lemma liftW_simps [simp]:
  "liftW u None = None"
  "liftW u (Some m) = Some (liftO u m)"
  by (simp_all add: liftW_def)

lemma raise_or_simps [simp]:
  "raise_or (Inl e) s = Some (Throw e s)"
  "raise_or (Inr a) s = Some (Ok a s)"
  by (simp_all add: raise_or_def)

lemma bindW_assoc: "bindW (bindW m f) g = bindW m (\<lambda>a s. bindW (f a s) g)"
  by (simp add: bindW_def split: option.split outcome.split)

lemma bindW_eq_Ok:
  "bindW m f = Some (Ok b t) \<longleftrightarrow> (\<exists>a s. m = Some (Ok a s) \<and> f a s = Some (Ok b t))"
  by (auto simp: bindW_def split: option.split outcome.split)

section \<open>Association lists for unordered maps\<close>

text \<open>
  \<^verbatim>\<open>std::unordered_map\<close> is an association list with distinct keys, so that its size is
  a length and its iteration order is explicit.
\<close>

definition wf_alist :: "('k \<times> 'v) list \<Rightarrow> bool" where
  "wf_alist al \<longleftrightarrow> distinct (map fst al)"

lemma wf_alist_Nil [simp]: "wf_alist []"
  by (simp add: wf_alist_def)

lemma wf_alist_update [simp]: "wf_alist al \<Longrightarrow> wf_alist (AList.update k v al)"
  by (simp add: wf_alist_def distinct_update)

lemma wf_alist_delete [simp]: "wf_alist al \<Longrightarrow> wf_alist (AList.delete k al)"
  by (simp add: wf_alist_def distinct_delete)

lemma map_of_update [simp]: "map_of (AList.update k v al) = (map_of al)(k \<mapsto> v)"
  by (simp add: update_conv')

lemma map_of_delete [simp]: "map_of (AList.delete k al) = (map_of al)(k := None)"
  by (simp add: delete_conv')

lemma length_update_new:
  "map_of al k = None \<Longrightarrow> length (AList.update k v al) = Suc (length al)"
  by (induction al) (auto split: if_splits)

lemma length_update_old:
  "map_of al k = Some w \<Longrightarrow> length (AList.update k v al) = length al"
  by (induction al) (auto split: if_splits)

lemma delete_notin [simp]: "map_of al k = None \<Longrightarrow> AList.delete k al = al"
  by (induction al) (auto split: if_splits)

lemma length_delete_old:
  "wf_alist al \<Longrightarrow> map_of al k = Some w \<Longrightarrow> Suc (length (AList.delete k al)) = length al"
proof (induction al)
  case Nil
  then show ?case by simp
next
  case (Cons p al)
  then show ?case
    by (cases "fst p = k") (auto simp: wf_alist_def map_of_eq_None_iff)
qed

lemma card_dom_alist: "wf_alist al \<Longrightarrow> card (dom (map_of al)) = length al"
  by (simp add: wf_alist_def dom_map_of_conv_image_fst distinct_card flip: set_map)

section \<open>Byte order\<close>

text \<open>
  The host stores integers little-endian; \<open>le_bytes k n\<close> are the \<open>k\<close> bytes a store of
  \<open>n\<close> writes and \<open>of_le_bytes\<close> is what a load of these bytes reads.
\<close>

fun le_bytes :: "nat \<Rightarrow> nat \<Rightarrow> byte list" where
  "le_bytes 0 n = []"
| "le_bytes (Suc k) n = word_of_nat (n mod 256) # le_bytes k (n div 256)"

fun of_le_bytes :: "byte list \<Rightarrow> nat" where
  "of_le_bytes [] = 0"
| "of_le_bytes (b # bs) = unat b + 256 * of_le_bytes bs"

definition htonl :: "u32 \<Rightarrow> u32" where
  "htonl w = word_of_nat (of_le_bytes (rev (le_bytes 4 (unat w))))"

definition ntohl :: "u32 \<Rightarrow> u32" where
  "ntohl w = word_of_nat (of_le_bytes (rev (le_bytes 4 (unat w))))"

lemma length_le_bytes [simp]: "length (le_bytes k n) = k"
  by (induction k arbitrary: n) auto

lemma of_le_bytes_less: "of_le_bytes bs < 256 ^ length bs"
proof (induction bs)
  case Nil
  then show ?case by simp
next
  case (Cons b bs)
  have "unat b < 256" using unsigned_less [of b] by simp
  with Cons show ?case by simp
qed

lemma of_le_bytes_le_bytes: "of_le_bytes (le_bytes k n) = n mod 256 ^ k"
proof (induction k arbitrary: n)
  case 0
  then show ?case by simp
next
  case (Suc k)
  have "n mod 256 + 256 * (n div 256 mod 256 ^ k) = n mod (256 * 256 ^ k)"
    by (simp add: mod_mult2_eq add.commute)
  with Suc show ?case by (simp add: unat_of_nat)
qed

lemma le_bytes_of_le_bytes: "length bs = k \<Longrightarrow> le_bytes k (of_le_bytes bs) = bs"
proof (induction bs arbitrary: k)
  case Nil
  then show ?case by simp
next
  case (Cons b bs)
  have "unat b < 256" using unsigned_less [of b] by simp
  with Cons show ?case by auto
qed

lemma le_bytes_mod: "le_bytes k (n mod 256 ^ k) = le_bytes k n"
  using le_bytes_of_le_bytes [of "le_bytes k n" k] by (simp add: of_le_bytes_le_bytes)

lemma unat_of_le_bytes4:
  "length bs = 4 \<Longrightarrow> unat (word_of_nat (of_le_bytes bs) :: u32) = of_le_bytes bs"
  using of_le_bytes_less [of bs] by (simp add: unat_of_nat)

lemma ntohl_htonl [simp]: "ntohl (htonl w) = w"
proof -
  have "unat w < 256 ^ 4" using unsigned_less [of w] by simp
  then show ?thesis
    by (simp add: ntohl_def htonl_def unat_of_le_bytes4 le_bytes_of_le_bytes of_le_bytes_le_bytes)
qed

text \<open>Stores and loads of 32 and 64 bit integers.\<close>

definition store32 :: "u32 \<Rightarrow> byte list" where
  "store32 w = le_bytes 4 (unat w)"

definition store64 :: "u64 \<Rightarrow> byte list" where
  "store64 w = le_bytes 8 (unat w)"

definition load32 :: "byte list \<Rightarrow> u32" where
  "load32 bs = word_of_nat (of_le_bytes bs)"

definition load64 :: "byte list \<Rightarrow> u64" where
  "load64 bs = word_of_nat (of_le_bytes bs)"

lemma length_store [simp]: "length (store32 w) = 4" "length (store64 v) = 8"
  by (simp_all add: store32_def store64_def)

lemma load32_store32 [simp]: "load32 (store32 w) = w"
proof -
  have "unat w < 256 ^ 4" using unsigned_less [of w] by simp
  then show ?thesis by (simp add: load32_def store32_def of_le_bytes_le_bytes)
qed

lemma load64_store64 [simp]: "load64 (store64 w) = w"
proof -
  have "unat w < 256 ^ 8" using unsigned_less [of w] by simp
  then show ?thesis by (simp add: load64_def store64_def of_le_bytes_le_bytes)
qed

section \<open>Decimal notation\<close>

text \<open>The digits of a number and the number that digits stand for, after those read so far.\<close>

definition digit :: "nat \<Rightarrow> char" where
  "digit d = char_of (48 + d)"

fun decimal :: "nat \<Rightarrow> string" where
  "decimal n = (if n < 10 then [digit n] else decimal (n div 10) @ [digit (n mod 10)])"

declare decimal.simps [simp del]

fun digits_value :: "nat \<Rightarrow> string \<Rightarrow> nat" where
  "digits_value a [] = a"
| "digits_value a (c # cs) = digits_value (10 * a + (of_char c - 48)) cs"

lemma of_char_digit: "d < 10 \<Longrightarrow> (of_char (digit d) :: nat) = 48 + d"
  by (simp add: digit_def)

lemma digits_value_append: "digits_value a (xs @ ys) = digits_value (digits_value a xs) ys"
  by (induction xs arbitrary: a) simp_all

lemma digits_value_decimal: "digits_value 0 (decimal n) = n"
proof (induction n rule: decimal.induct)
  case (1 n)
  show ?case
  proof (cases "n < 10")
    case True
    then show ?thesis by (subst decimal.simps) (simp add: of_char_digit)
  next
    case False
    then have "digits_value 0 (decimal (n div 10)) = n div 10" by (rule 1)
    with False show ?thesis
      by (subst decimal.simps) (simp add: digits_value_append of_char_digit)
  qed
qed

section \<open>Words\<close>

lemma unat_not_max: "l \<noteq> - 1 \<Longrightarrow> unat (l :: u64) < 2 ^ 64 - 1"
proof -
  assume "l \<noteq> - 1"
  then have "unat l \<noteq> unat (- 1 :: u64)" by (metis unsigned_word_eqI)
  then show ?thesis
    using unsigned_less [of l, where 'a = nat] by (simp add: unsigned_minus_1_eq_mask mask_eq_exp_minus_1)
qed

end
