(* ===== verification/Cirrus_Serializer.thy ===== *)
theory Cirrus_Serializer
  imports Cirrus_Prelude
begin

text \<open>
  \<^verbatim>\<open>src/src/common/Serializer.h\<close>: the serializer interface a user of the store
  implements, the write unit of a single object and the length-prefixed layout of a bulk
  write. A serializer writes into a buffer the caller has sized, so every write is a
  bounds-checked \<open>poke\<close>: one past the end of the buffer is undefined behaviour.
\<close>

section \<open>Buffers\<close>

text \<open>\<^verbatim>\<open>memcpy\<close> of \<open>bs\<close> to offset \<open>p\<close> of a buffer; \<open>None\<close> past its end.\<close>

definition poke :: "byte list \<Rightarrow> nat \<Rightarrow> byte list \<Rightarrow> byte list option" where
  "poke buf p bs =
     (if p + length bs \<le> length buf
      then Some (take p buf @ bs @ drop (p + length bs) buf) else None)"

text \<open>The \<open>n\<close> bytes at offset \<open>p\<close>; \<open>None\<close> when they are not all in the buffer.\<close>

definition peek :: "byte list \<Rightarrow> nat \<Rightarrow> nat \<Rightarrow> byte list option" where
  "peek buf p n = (if p + n \<le> length buf then Some (take n (drop p buf)) else None)"

text \<open>Memory that was allocated and not written holds whatever \<open>uninit\<close> says.\<close>

definition uninit_buffer :: "(nat \<Rightarrow> byte) \<Rightarrow> nat \<Rightarrow> byte list" where
  "uninit_buffer uninit n = map uninit [0..<n]"

lemma length_uninit_buffer [simp]: "length (uninit_buffer u n) = n"
  by (simp add: uninit_buffer_def)

lemma length_poke: "poke buf p bs = Some buf' \<Longrightarrow> length buf' = length buf"
  by (auto simp: poke_def split: if_splits)

text \<open>
  A buffer that is written from left to right: after the prefix \<open>done\<close>, a write of
  \<open>bs\<close> at the cursor extends the prefix.
\<close>

lemma poke_cursor:
  "length bs \<le> length rest \<Longrightarrow>
   poke (pre @ rest) (length pre) bs = Some ((pre @ bs) @ drop (length bs) rest)"
  by (simp add: poke_def)

lemma peek_cursor [simp]:
  "peek (pre @ bs @ rest) (length pre) (length bs) = Some bs"
  by (simp add: peek_def)

section \<open>Serializer and write units\<close>

text \<open>
  \<^verbatim>\<open>Serializer<T>\<close>: \<open>ser_size\<close> is the size it announces, \<open>ser_bytes\<close> what
  \<^verbatim>\<open>serialize\<close> writes. \<open>deserializer\<close> is the function the store is constructed with.
\<close>

record 't serializer =
  ser_size :: "'t \<Rightarrow> u64"
  ser_bytes :: "'t \<Rightarrow> byte list"

type_synonym 't deserializer = "byte list \<Rightarrow> ('t, unit) outcome"

text \<open>\<^verbatim>\<open>WriteUnit\<close> and \<^verbatim>\<open>WriteUnits\<close>: a size and a \<^verbatim>\<open>serialize\<close> into a buffer.\<close>

record write_unit =
  wu_size :: u64
  wu_serialize :: "byte list \<Rightarrow> byte list option"

definition WriteUnitTemplate :: "'t serializer \<Rightarrow> 't \<Rightarrow> write_unit" where
  "WriteUnitTemplate s ob =
     \<lparr>wu_size = ser_size s ob, wu_serialize = (\<lambda>mem. poke mem 0 (ser_bytes s ob))\<rparr>"

text \<open>
  The loop of \<^verbatim>\<open>WriteUnitsTemplate::serialize\<close>: \<^verbatim>\<open>htonl\<close> takes the size modulo
  \<open>2 ^ 32\<close> and its result is stored as a 64 bit integer.
\<close>

definition bulk_header :: "u64 \<Rightarrow> byte list" where
  "bulk_header sz = store64 (ucast (htonl (ucast sz)))"

fun write_units_serialize ::
  "'t serializer \<Rightarrow> 't list \<Rightarrow> nat \<Rightarrow> byte list \<Rightarrow> byte list option" where
  "write_units_serialize s [] ptr mem = Some mem"
| "write_units_serialize s (ob # obs) ptr mem =
     (case poke mem ptr (bulk_header (ser_size s ob)) of
        None \<Rightarrow> None
      | Some mem1 \<Rightarrow>
          (case poke mem1 (ptr + 8) (ser_bytes s ob) of
             None \<Rightarrow> None
           | Some mem2 \<Rightarrow>
               write_units_serialize s obs (ptr + 8 + unat (ser_size s ob)) mem2))"

fun write_units_size :: "'t serializer \<Rightarrow> 't list \<Rightarrow> u64 \<Rightarrow> u64" where
  "write_units_size s [] total_size = total_size"
| "write_units_size s (ob # obs) total_size =
     write_units_size s obs (total_size + (ser_size s ob + 8))"

definition WriteUnitsTemplate :: "'t serializer \<Rightarrow> 't list \<Rightarrow> write_unit" where
  "WriteUnitsTemplate s obs =
     \<lparr>wu_size = write_units_size s obs 0,
      wu_serialize = write_units_serialize s obs 0\<rparr>"

text \<open>
  What every caller of a write unit does: allocate \<open>size()\<close> bytes without initialising
  them and serialize into them.
\<close>

definition serialized :: "(nat \<Rightarrow> byte) \<Rightarrow> write_unit \<Rightarrow> byte list option" where
  "serialized uninit w = wu_serialize w (uninit_buffer uninit (unat (wu_size w)))"

text \<open>The record a bulk write holds for one object.\<close>

definition unit_bytes :: "'t serializer \<Rightarrow> 't \<Rightarrow> byte list" where
  "unit_bytes s ob = bulk_header (ser_size s ob) @ ser_bytes s ob"

section \<open>The serializer contract\<close>

text \<open>
  What the store relies on for the objects it is given: the announced size is the number
  of bytes written and fits the 32 bit length fields and a flatbuffer, and the deserializer reads the
  object back from exactly these bytes.
\<close>

locale object_serializer =
  fixes s :: "'t serializer"
    and deser :: "'t deserializer"
    and valid :: "'t \<Rightarrow> bool"
  assumes size_bytes: "valid ob \<Longrightarrow> length (ser_bytes s ob) = unat (ser_size s ob)"
    and size_bound: "valid ob \<Longrightarrow> unat (ser_size s ob) < 2 ^ 30"
    and deser_bytes: "valid ob \<Longrightarrow> deser (ser_bytes s ob) = Ok ob ()"
begin

lemma write_unit_bytes:
  assumes "valid ob"
  shows "serialized uninit (WriteUnitTemplate s ob) = Some (ser_bytes s ob)"
  using size_bytes [OF assms]
  by (simp add: serialized_def WriteUnitTemplate_def poke_def)

lemma length_unit_bytes:
  "valid ob \<Longrightarrow> length (unit_bytes s ob) = 8 + unat (ser_size s ob)"
  by (simp add: unit_bytes_def bulk_header_def size_bytes)

lemma write_units_serialize_concat:
  assumes "\<And>ob. ob \<in> set obs \<Longrightarrow> valid ob"
    and "length rest = length (concat (map (unit_bytes s) obs))"
  shows "write_units_serialize s obs (length pre) (pre @ rest) =
         Some (pre @ concat (map (unit_bytes s) obs))"
  using assms
proof (induction obs arbitrary: pre rest)
  case Nil
  then show ?case by simp
next
  case (Cons ob obs)
  let ?h = "bulk_header (ser_size s ob)" and ?b = "ser_bytes s ob"
  have len: "length ?h = 8" "length ?b = unat (ser_size s ob)"
    using Cons.prems(1) [of ob] by (simp_all add: bulk_header_def size_bytes)
  have rest: "length rest = 8 + length ?b + length (concat (map (unit_bytes s) obs))"
    using Cons.prems length_unit_bytes [of ob] len by simp
  have 1: "poke (pre @ rest) (length pre) ?h = Some ((pre @ ?h) @ drop 8 rest)"
    using poke_cursor [of ?h rest pre] rest len by simp
  have "length ?b \<le> length (drop 8 rest)" using rest by simp
  from poke_cursor [OF this, of "pre @ ?h"]
  have 2: "poke ((pre @ ?h) @ drop 8 rest) (length pre + 8) ?b =
      Some ((pre @ ?h @ ?b) @ drop (length ?b) (drop 8 rest))"
    by (simp add: len)
  have "write_units_serialize s obs (length (pre @ ?h @ ?b))
          ((pre @ ?h @ ?b) @ drop (length ?b) (drop 8 rest)) =
        Some ((pre @ ?h @ ?b) @ concat (map (unit_bytes s) obs))"
    using Cons.prems(1) rest by (intro Cons.IH) auto
  then show ?case
    using 1 2 by (simp add: len unit_bytes_def [of s ob] add.assoc)
qed

lemma write_units_size_sum:
  assumes "\<And>ob. ob \<in> set obs \<Longrightarrow> valid ob"
    and "unat acc + length (concat (map (unit_bytes s) obs)) < 2 ^ 64"
  shows "unat (write_units_size s obs acc) = unat acc + length (concat (map (unit_bytes s) obs))"
  using assms
proof (induction obs arbitrary: acc)
  case Nil
  then show ?case by simp
next
  case (Cons ob obs)
  have v: "valid ob" using Cons.prems(1) by simp
  have le: "unat acc + (unat (ser_size s ob) + 8) < 2 ^ 64"
    using Cons.prems(2) length_unit_bytes [OF v] by simp
  then have "unat (acc + (ser_size s ob + 8)) = unat acc + (unat (ser_size s ob) + 8)"
    by (simp add: unat_word_ariths)
  with Cons.IH [of "acc + (ser_size s ob + 8)"] Cons.prems v
  show ?case by (simp add: length_unit_bytes)
qed

text \<open>
  The bytes of a bulk write: the concatenation of the length-prefixed objects.
\<close>

lemma write_units_bytes:
  assumes "\<And>ob. ob \<in> set obs \<Longrightarrow> valid ob"
    and "length (concat (map (unit_bytes s) obs)) < 2 ^ 64"
  shows "serialized uninit (WriteUnitsTemplate s obs) = Some (concat (map (unit_bytes s) obs))"
proof -
  have "unat (write_units_size s obs 0) = length (concat (map (unit_bytes s) obs))"
    using write_units_size_sum [of obs 0] assms by simp
  then show ?thesis
    using write_units_serialize_concat [of obs "uninit_buffer uninit (unat (write_units_size s obs 0))" "[]"]
      assms(1)
    by (simp add: serialized_def WriteUnitsTemplate_def)
qed

end

text \<open>
  The size field of a bulk write as the server reads it: \<^verbatim>\<open>ntohl\<close> of the 64 bit load.
\<close>

definition read_bulk_header :: "byte list \<Rightarrow> u64" where
  "read_bulk_header bs = ucast (ntohl (ucast (load64 bs)))"

lemma ucast_32_64_32 [simp]: "ucast (ucast (w :: u32) :: u64) = w"
  by (rule bit_word_eqI) (simp add: bit_unsigned_iff)

lemma ucast_64_32_64: "unat (sz :: u64) < 2 ^ 32 \<Longrightarrow> ucast (ucast sz :: u32) = sz"
  by (simp add: word_unat_eq_iff unsigned_ucast_eq take_bit_eq_mod unat_mod_distrib)

lemma read_bulk_header: "read_bulk_header (bulk_header sz) = ucast (ucast sz :: u32)"
  by (simp add: read_bulk_header_def bulk_header_def)

end
