(* ===== verification/Storage_Backend.thy ===== *)
theory Storage_Backend
  imports Cirrus_Prelude
begin

text \<open>
  The storage side of the server: \<^verbatim>\<open>src/src/server/MemSlice.h\<close>, the abstract class of
  \<^verbatim>\<open>StorageBackend.h\<close> as a record of its virtual functions, and its two
  implementations, \<^verbatim>\<open>MemoryBackend\<close> (an in-memory map) and \<^verbatim>\<open>NVStorageBackend\<close> (RocksDB,
  which is not part of the repository and is a parameter). The locale \<open>kv_backend\<close> is
  what the server relies on; \<^verbatim>\<open>MemoryBackend\<close> interprets it, and \<^verbatim>\<open>NVStorageBackend\<close>
  satisfies it over any database that behaves as RocksDB documents.
\<close>

section \<open>MemSlice\<close>

text \<open>
  A slice refers to the bytes of a \<^verbatim>\<open>std::vector\<close>, of a flatbuffer vector or of the
  range \<open>[begin, end)\<close>; at most one of the pointers is set. A slice is read before the
  memory it points to changes, so it holds the bytes themselves.
\<close>

record mem_slice =
  dataStdVector :: "byte list option"
  dataFbVector :: "byte list option"
  begin_end :: "byte list option"
  fromString :: bool

definition MemSlice_string :: "byte list \<Rightarrow> mem_slice" where
  "MemSlice_string data =
     \<lparr>dataStdVector = Some data, dataFbVector = None, begin_end = None, fromString = True\<rparr>"

definition MemSlice_vector :: "byte list \<Rightarrow> mem_slice" where
  "MemSlice_vector data =
     \<lparr>dataStdVector = Some data, dataFbVector = None, begin_end = None, fromString = False\<rparr>"

definition MemSlice_fb :: "byte list \<Rightarrow> mem_slice" where
  "MemSlice_fb data =
     \<lparr>dataStdVector = None, dataFbVector = Some data, begin_end = None, fromString = False\<rparr>"

definition MemSlice_range :: "byte list \<Rightarrow> mem_slice" where
  "MemSlice_range data =
     \<lparr>dataStdVector = None, dataFbVector = None, begin_end = Some data, fromString = False\<rparr>"

definition slice_size :: "mem_slice \<Rightarrow> exn + u64" where
  "slice_size m =
     (case dataStdVector m of
        Some v \<Rightarrow> Inr (word_of_nat (length v))
      | None \<Rightarrow>
          (case dataFbVector m of
             Some v \<Rightarrow> Inr (word_of_nat (length v))
           | None \<Rightarrow>
               (case begin_end m of
                  Some v \<Rightarrow> Inr (word_of_nat (length v))
                | None \<Rightarrow> Inl (runtime_error ''Error in size()''))))"

definition slice_toString :: "mem_slice \<Rightarrow> exn + byte list" where
  "slice_toString m =
     (case slice_size m of
        Inl e \<Rightarrow> Inl e
      | Inr s_size \<Rightarrow>
          (case dataStdVector m of
             Some v \<Rightarrow> Inr (take (unat s_size) v)
           | None \<Rightarrow>
               (case dataFbVector m of
                  Some v \<Rightarrow> Inr (take (unat s_size) v)
                | None \<Rightarrow>
                    (case begin_end m of
                       Some v \<Rightarrow> Inr (take (unat s_size) v)
                     | None \<Rightarrow> Inl (runtime_error ''Error in toString()'')))))"

definition slice_get :: "mem_slice \<Rightarrow> exn + byte list" where
  "slice_get m =
     (case dataStdVector m of
        Some v \<Rightarrow> Inr v
      | None \<Rightarrow>
          (case dataFbVector m of
             Some v \<Rightarrow> Inr v
           | None \<Rightarrow>
               (case begin_end m of
                  Some v \<Rightarrow> Inr v
                | None \<Rightarrow> Inl (runtime_error ''Error in get()''))))"

lemma slice_get_simps [simp]:
  "slice_get (MemSlice_string d) = Inr d" "slice_get (MemSlice_vector d) = Inr d"
  "slice_get (MemSlice_fb d) = Inr d" "slice_get (MemSlice_range d) = Inr d"
  by (simp_all add: slice_get_def MemSlice_string_def MemSlice_vector_def MemSlice_fb_def
      MemSlice_range_def)

lemma slice_get_size: "slice_get m = Inr d \<Longrightarrow> slice_size m = Inr (word_of_nat (length d))"
  by (auto simp: slice_get_def slice_size_def split: option.splits)

text \<open>An object that exists in memory has fewer than \<open>2 ^ 64\<close> bytes.\<close>

definition fits_memory :: "byte list \<Rightarrow> bool" where
  "fits_memory d \<longleftrightarrow> length d < 2 ^ 64"

lemma slice_get_toString:
  "slice_get m = Inr d \<Longrightarrow> fits_memory d \<Longrightarrow> slice_toString m = Inr d"
  by (auto simp: slice_get_def slice_size_def slice_toString_def fits_memory_def unat_of_nat
      split: option.splits)

section \<open>The virtual functions of StorageBackend\<close>

record 'b storage_backend =
  sb_put :: "ObjectID \<Rightarrow> mem_slice \<Rightarrow> 'b \<Rightarrow> (bool, 'b) outcome"
  sb_exists :: "ObjectID \<Rightarrow> 'b \<Rightarrow> bool"
  sb_get :: "ObjectID \<Rightarrow> 'b \<Rightarrow> (mem_slice, 'b) outcome"
  sb_delet :: "ObjectID \<Rightarrow> 'b \<Rightarrow> (bool, 'b) outcome"
  sb_size :: "ObjectID \<Rightarrow> 'b \<Rightarrow> (u64, 'b) outcome"

text \<open>
  The contract: a backend state abstracts to a finite map from ids to objects, which
  \<open>put\<close> and \<open>delet\<close> update and \<open>exists\<close>, \<open>get\<close> and \<open>size\<close> read.
\<close>

locale kv_backend =
  fixes vt :: "'b storage_backend"
    and kv :: "'b \<Rightarrow> (ObjectID \<rightharpoonup> byte list)"
    and invar :: "'b \<Rightarrow> bool"
  assumes kv_finite: "invar b \<Longrightarrow> finite (dom (kv b))"
    and kv_fits: "invar b \<Longrightarrow> kv b oid = Some d \<Longrightarrow> fits_memory d"
    and kv_exists: "invar b \<Longrightarrow> sb_exists vt oid b \<longleftrightarrow> kv b oid \<noteq> None"
    and kv_size: "invar b \<Longrightarrow> kv b oid = Some d \<Longrightarrow>
      sb_size vt oid b = Ok (word_of_nat (length d)) b"
    and kv_get: "invar b \<Longrightarrow> kv b oid = Some d \<Longrightarrow>
      \<exists>sl. sb_get vt oid b = Ok sl b \<and> slice_get sl = Inr d"
    and kv_put: "invar b \<Longrightarrow> slice_get sl = Inr d \<Longrightarrow> fits_memory d \<Longrightarrow>
      \<exists>b'. sb_put vt oid sl b = Ok True b' \<and> invar b' \<and> kv b' = (kv b)(oid \<mapsto> d)"
    and kv_delet: "invar b \<Longrightarrow> kv b oid = Some d \<Longrightarrow>
      \<exists>b'. sb_delet vt oid b = Ok True b' \<and> invar b' \<and> kv b' = (kv b)(oid := None)"
begin

text \<open>Reading back: the other objects are untouched, the written one is what was put.\<close>

lemma get_after_put:
  assumes "invar b" "slice_get sl = Inr d" "fits_memory d" "sb_put vt oid sl b = Ok r b'"
  shows "\<exists>sl'. sb_get vt oid b' = Ok sl' b' \<and> slice_get sl' = Inr d"
  using kv_put [OF assms(1-3), of oid] assms(4) kv_get [of b' oid d] by auto

lemma get_other_after_put:
  assumes "invar b" "slice_get sl = Inr d" "fits_memory d" "sb_put vt oid sl b = Ok r b'"
    and "oid' \<noteq> oid" "kv b oid' = Some d'"
  shows "\<exists>sl'. sb_get vt oid' b' = Ok sl' b' \<and> slice_get sl' = Inr d'"
  using kv_put [OF assms(1-3), of oid] assms(4-6) kv_get [of b' oid' d'] by auto

lemma exists_after_delet:
  assumes "invar b" "sb_exists vt oid b" "sb_delet vt oid b = Ok r b'"
  shows "\<not> sb_exists vt oid b'"
  using kv_delet [OF assms(1), of oid] assms kv_exists [of b oid] kv_exists [of b' oid] by auto

end

section \<open>MemoryBackend\<close>

record memory_backend =
  store :: "(ObjectID \<times> byte list) list"
  remove_counter :: u64
  remove_increment :: u64

definition MemoryBackend :: "u64 \<Rightarrow> memory_backend" where
  "MemoryBackend bytes = \<lparr>store = [], remove_counter = 0, remove_increment = bytes\<rparr>"

definition memory_put ::
  "ObjectID \<Rightarrow> mem_slice \<Rightarrow> memory_backend \<Rightarrow> (bool, memory_backend) outcome" where
  "memory_put oid data b =
     (case slice_get data of
        Inl e \<Rightarrow> Throw e b
      | Inr d \<Rightarrow> Ok True (b\<lparr>store := AList.update oid d (store b)\<rparr>))"

definition memory_exists :: "ObjectID \<Rightarrow> memory_backend \<Rightarrow> bool" where
  "memory_exists oid b \<longleftrightarrow> map_of (store b) oid \<noteq> None"

definition memory_get ::
  "ObjectID \<Rightarrow> memory_backend \<Rightarrow> (mem_slice, memory_backend) outcome" where
  "memory_get oid b =
     (case map_of (store b) oid of
        None \<Rightarrow> Throw (runtime_error ''MemoryBackend get() called on nonexistent id'') b
      | Some d \<Rightarrow> Ok (MemSlice_vector d) b)"

text \<open>
  \<^verbatim>\<open>delet\<close>: \<^verbatim>\<open>store[oid]\<close> of a missing id creates an empty object, which is erased again;
  \<^verbatim>\<open>malloc_trim\<close> only gives memory back to the system. The remainder by a zero
  \<^verbatim>\<open>remove_increment\<close> is undefined.
\<close>

definition memory_delet ::
  "ObjectID \<Rightarrow> memory_backend \<Rightarrow> (bool, memory_backend) outcome" where
  "memory_delet oid b =
     (let d = (case map_of (store b) oid of Some d \<Rightarrow> d | None \<Rightarrow> []);
          counter = remove_counter b + word_of_nat (length d);
          st = AList.delete oid (store b)
      in if counter \<ge> remove_increment b
         then if remove_increment b = 0 then Undef
              else Ok True (b\<lparr>store := st, remove_counter := counter mod remove_increment b\<rparr>)
         else Ok True (b\<lparr>store := st, remove_counter := counter\<rparr>))"

definition memory_size ::
  "ObjectID \<Rightarrow> memory_backend \<Rightarrow> (u64, memory_backend) outcome" where
  "memory_size oid b =
     (case map_of (store b) oid of
        None \<Rightarrow> Ok 0 b
      | Some d \<Rightarrow> Ok (word_of_nat (length d)) b)"

definition memory_vt :: "memory_backend storage_backend" where
  "memory_vt = \<lparr>sb_put = memory_put, sb_exists = memory_exists, sb_get = memory_get,
     sb_delet = memory_delet, sb_size = memory_size\<rparr>"

definition memory_kv :: "memory_backend \<Rightarrow> (ObjectID \<rightharpoonup> byte list)" where
  "memory_kv b = map_of (store b)"

definition memory_inv :: "memory_backend \<Rightarrow> bool" where
  "memory_inv b \<longleftrightarrow> wf_alist (store b) \<and> remove_increment b \<noteq> 0
     \<and> (\<forall>oid d. map_of (store b) oid = Some d \<longrightarrow> fits_memory d)"

lemmas memory_defs = memory_vt_def memory_kv_def memory_inv_def memory_put_def
  memory_exists_def memory_get_def memory_size_def

interpretation mb: kv_backend memory_vt memory_kv memory_inv
proof
  fix b oid d
  assume b: "memory_inv b" and d: "memory_kv b oid = Some d"
  show "\<exists>b'. sb_delet memory_vt oid b = Ok True b' \<and> memory_inv b'
      \<and> memory_kv b' = (memory_kv b)(oid := None)"
    using b by (auto simp: memory_defs memory_delet_def Let_def)
qed (auto simp: memory_defs finite_dom_map_of)

lemma memory_inv_init: "bytes \<noteq> 0 \<Longrightarrow> memory_inv (MemoryBackend bytes)"
  by (simp add: memory_inv_def MemoryBackend_def)

section \<open>NVStorageBackend\<close>

text \<open>\<^verbatim>\<open>std::to_string\<close> of an unsigned integer: its decimal digits.\<close>

definition std_to_string :: "u64 \<Rightarrow> string" where
  "std_to_string oid = decimal (unat oid)"

lemma std_to_string_inject [simp]: "std_to_string a = std_to_string b \<longleftrightarrow> a = b"
  using digits_value_decimal [of "unat a"] digits_value_decimal [of "unat b"]
  by (metis std_to_string_def word_unat_eq_iff)

text \<open>
  RocksDB as the code uses it: the status of a call, and the three operations on a
  database handle. \<^verbatim>\<open>DB::Open\<close> yields a status and a handle.
\<close>

datatype rocksdb_status = StatusOk | StatusNotFound | StatusError

record 'db rocksdb =
  DB_Open :: "string \<Rightarrow> rocksdb_status \<times> 'db"
  DB_Put :: "string \<Rightarrow> byte list \<Rightarrow> 'db \<Rightarrow> rocksdb_status \<times> 'db"
  DB_Get :: "string \<Rightarrow> 'db \<Rightarrow> rocksdb_status \<times> byte list"
  DB_Delete :: "string \<Rightarrow> 'db \<Rightarrow> rocksdb_status \<times> 'db"

definition nv_init :: "'db rocksdb \<Rightarrow> string \<Rightarrow> (unit, 'db) outcome" where
  "nv_init api path =
     (case DB_Open api path of
        (st, db) \<Rightarrow>
          if st = StatusOk then Ok () db else Throw (runtime_error ''Error opening rocksdb'') db)"

definition nv_put ::
  "'db rocksdb \<Rightarrow> ObjectID \<Rightarrow> mem_slice \<Rightarrow> 'db \<Rightarrow> (bool, 'db) outcome" where
  "nv_put api oid data db =
     (case slice_toString data of
        Inl e \<Rightarrow> Throw e db
      | Inr v \<Rightarrow>
          (case DB_Put api (std_to_string oid) v db of
             (st, db') \<Rightarrow>
               if st = StatusOk then Ok True db'
               else Throw (runtime_error ''Error in put in rocksdb'') db'))"

definition nv_exists :: "'db rocksdb \<Rightarrow> ObjectID \<Rightarrow> 'db \<Rightarrow> bool" where
  "nv_exists api oid db \<longleftrightarrow> fst (DB_Get api (std_to_string oid) db) \<noteq> StatusNotFound"

definition nv_get :: "'db rocksdb \<Rightarrow> ObjectID \<Rightarrow> 'db \<Rightarrow> (mem_slice, 'db) outcome" where
  "nv_get api oid db =
     (case DB_Get api (std_to_string oid) db of
        (st, value) \<Rightarrow>
          if st \<noteq> StatusOk \<or> st = StatusNotFound
          then Throw (runtime_error ''Error in get in rocksdb'') db
          else Ok (MemSlice_string value) db)"

definition nv_delet :: "'db rocksdb \<Rightarrow> ObjectID \<Rightarrow> 'db \<Rightarrow> (bool, 'db) outcome" where
  "nv_delet api oid db = Ok True (snd (DB_Delete api (std_to_string oid) db))"

definition nv_size :: "'db rocksdb \<Rightarrow> ObjectID \<Rightarrow> 'db \<Rightarrow> (u64, 'db) outcome" where
  "nv_size api oid db =
     bindO (nv_get api oid db)
       (\<lambda>obj db'. case slice_size obj of Inl e \<Rightarrow> Throw e db' | Inr n \<Rightarrow> Ok n db')"

definition nv_vt :: "'db rocksdb \<Rightarrow> 'db storage_backend" where
  "nv_vt api = \<lparr>sb_put = nv_put api, sb_exists = nv_exists api, sb_get = nv_get api,
     sb_delet = nv_delet api, sb_size = nv_size api\<rparr>"

text \<open>
  What RocksDB documents of these calls, on databases that raise no I/O error
  (\<open>healthy\<close>): \<open>contents\<close> is the finite map of live keys, \<^verbatim>\<open>Get\<close> reads it, \<^verbatim>\<open>Put\<close> and
  \<^verbatim>\<open>Delete\<close> update one key.
\<close>

definition rocksdb_documented ::
  "'db rocksdb \<Rightarrow> ('db \<Rightarrow> (string \<rightharpoonup> byte list)) \<Rightarrow> ('db \<Rightarrow> bool) \<Rightarrow> bool" where
  "rocksdb_documented api contents healthy \<longleftrightarrow>
     (\<forall>db. healthy db \<longrightarrow> finite (dom (contents db)))
   \<and> (\<forall>db k v. healthy db \<longrightarrow> contents db k = Some v \<longrightarrow>
        fits_memory v \<and> DB_Get api k db = (StatusOk, v))
   \<and> (\<forall>db k. healthy db \<longrightarrow> contents db k = None \<longrightarrow> fst (DB_Get api k db) = StatusNotFound)
   \<and> (\<forall>db k v. healthy db \<longrightarrow> fits_memory v \<longrightarrow>
        (\<exists>db'. DB_Put api k v db = (StatusOk, db') \<and> healthy db'
               \<and> contents db' = (contents db)(k \<mapsto> v)))
   \<and> (\<forall>db k. healthy db \<longrightarrow>
        (\<exists>db'. DB_Delete api k db = (StatusOk, db') \<and> healthy db'
               \<and> contents db' = (contents db)(k := None)))"

definition nv_kv :: "('db \<Rightarrow> (string \<rightharpoonup> byte list)) \<Rightarrow> 'db \<Rightarrow> (ObjectID \<rightharpoonup> byte list)" where
  "nv_kv contents db = (\<lambda>oid. contents db (std_to_string oid))"

lemma finite_nv_kv: "finite (dom (contents db)) \<Longrightarrow> finite (dom (nv_kv contents db))"
proof -
  assume "finite (dom (contents db))"
  moreover have "dom (nv_kv contents db) = std_to_string -` dom (contents db)"
    by (auto simp: nv_kv_def)
  moreover have "inj std_to_string" by (simp add: inj_on_def)
  ultimately show ?thesis by (simp add: finite_vimageI)
qed

lemmas nv_defs = nv_vt_def nv_kv_def nv_put_def nv_exists_def nv_get_def nv_delet_def
  nv_size_def

text \<open>
  C15. Over a RocksDB that behaves as documented, \<^verbatim>\<open>NVStorageBackend\<close> meets the contract
  the server relies on: the decimal key encoding keeps ids apart, objects survive the
  detour through \<^verbatim>\<open>std::string\<close>, and \<open>exists\<close>, \<open>get\<close> and \<open>size\<close> agree with the
  stored map after every \<open>put\<close> and \<open>delet\<close>.
\<close>

theorem nv_backend_refines:
  assumes "rocksdb_documented api contents healthy"
  shows "kv_backend (nv_vt api) (nv_kv contents) healthy"
proof
  fix b oid d sl
  assume b: "healthy b" and "slice_get sl = Inr d" and d: "fits_memory d"
  then have sl: "slice_toString sl = Inr d" by (simp add: slice_get_toString)
  obtain b' where "DB_Put api (std_to_string oid) d b = (StatusOk, b')" "healthy b'"
      "contents b' = (contents b)(std_to_string oid \<mapsto> d)"
    using assms b d unfolding rocksdb_documented_def by blast
  then show "\<exists>b'. sb_put (nv_vt api) oid sl b = Ok True b' \<and> healthy b'
      \<and> nv_kv contents b' = (nv_kv contents b)(oid \<mapsto> d)"
    by (auto simp: nv_defs sl)
next
  fix b oid d
  assume b: "healthy b"
  obtain b' where "DB_Delete api (std_to_string oid) b = (StatusOk, b')" "healthy b'"
      "contents b' = (contents b)(std_to_string oid := None)"
    using assms b unfolding rocksdb_documented_def by blast
  then show "\<exists>b'. sb_delet (nv_vt api) oid b = Ok True b' \<and> healthy b'
      \<and> nv_kv contents b' = (nv_kv contents b)(oid := None)"
    by (auto simp: nv_defs)
next
  fix b oid
  assume "healthy b"
  then show "sb_exists (nv_vt api) oid b \<longleftrightarrow> nv_kv contents b oid \<noteq> None"
    using assms by (cases "contents b (std_to_string oid)")
      (auto simp: rocksdb_documented_def nv_defs)
qed (use assms in \<open>auto simp: rocksdb_documented_def nv_defs slice_size_def
    MemSlice_string_def slice_get_def finite_nv_kv [unfolded nv_kv_def]\<close>)

text \<open>An in-memory database with the documented behaviour, for the witness.\<close>

definition assoc_rocksdb :: "(string \<times> byte list) list rocksdb" where
  "assoc_rocksdb =
     \<lparr>DB_Open = (\<lambda>path. (StatusOk, [])),
      DB_Put = (\<lambda>k v db. (StatusOk, AList.update k v db)),
      DB_Get = (\<lambda>k db. case map_of db k of Some v \<Rightarrow> (StatusOk, v) | None \<Rightarrow> (StatusNotFound, [])),
      DB_Delete = (\<lambda>k db. (StatusOk, AList.delete k db))\<rparr>"

definition assoc_healthy :: "(string \<times> byte list) list \<Rightarrow> bool" where
  "assoc_healthy db \<longleftrightarrow> (\<forall>v \<in> ran (map_of db). fits_memory v)"

lemma ran_upd_subset: "ran (m(k \<mapsto> v)) \<subseteq> insert v (ran m)" "ran (m(k := None)) \<subseteq> ran m"
  by (auto simp: ran_def split: if_splits)

lemma assoc_rocksdb_documented: "rocksdb_documented assoc_rocksdb map_of assoc_healthy"
  using ran_upd_subset
  by (fastforce simp: rocksdb_documented_def assoc_rocksdb_def assoc_healthy_def
      finite_dom_map_of ranI)

theorem nv_backend_refines_witness:
  "rocksdb_documented assoc_rocksdb map_of assoc_healthy
   \<and> kv_backend (nv_vt assoc_rocksdb) (nv_kv map_of) assoc_healthy"
  using assoc_rocksdb_documented nv_backend_refines [OF assoc_rocksdb_documented] by blast

end
