(* ===== verification/TCP_Server.thy ===== *)
theory TCP_Server
  imports Cirrus_Serializer Storage_Backend
begin

text \<open>
  The messages of \<^verbatim>\<open>src/src/common/schemas/TCPBladeMessage.fbs\<close> and the message handling
  of \<^verbatim>\<open>src/src/server/TCPServer.cpp\<close>: one definition per case of the switch in
  \<^verbatim>\<open>TCPServer::process\<close>, over the virtual functions of a storage backend. The abstract
  server works on a map from ids to objects; the locale lemmas show that the handlers
  implement it over every backend that meets the contract of \<open>kv_backend\<close>.
\<close>

section \<open>Messages\<close>

datatype tcp_message =
    Write ObjectID "byte list"
  | WriteAck ObjectID byte
  | WriteBulk u64 "ObjectID list" "byte list"
  | WriteBulkAck byte
  | Read ObjectID
  | ReadAck ObjectID byte "byte list"
  | ReadBulk u64 "ObjectID list"
  | ReadBulkAck byte "byte list"
  | Remove ObjectID
  | RemoveAck ObjectID byte

record TCPBladeMessage =
  txnid :: TxnID
  error_code :: u64
  message :: tcp_message

section \<open>Server state\<close>

record pollfd =
  fd :: int
  events :: int
  revents :: int

record 'b tcp_server =
  server_sock :: int
  pool_size :: u64
  curr_size :: u64
  max_fds :: u64
  curr_index :: u64
  fds :: "pollfd list"
  mem :: 'b

definition on_mem ::
  "('b \<Rightarrow> ('a, 'b) outcome) \<Rightarrow> 'b tcp_server \<Rightarrow> ('a, 'b tcp_server) outcome" where
  "on_mem f sv = liftO (\<lambda>b. sv\<lparr>mem := b\<rparr>) (f (mem sv))"

section \<open>The handlers of TCPServer::process\<close>

text \<open>
  \<^verbatim>\<open>if (mem->exists(oid)) curr_size -= mem->size(oid)\<close>: the first step of a write, taken
  before the capacity check.
\<close>

definition forget_size ::
  "'b storage_backend \<Rightarrow> ObjectID \<Rightarrow> 'b tcp_server \<Rightarrow> (unit, 'b tcp_server) outcome" where
  "forget_size vt oid sv =
     (if sb_exists vt oid (mem sv)
      then bindO (on_mem (sb_size vt oid) sv)
             (\<lambda>n sv'. Ok () (sv'\<lparr>curr_size := curr_size sv' - n\<rparr>))
      else Ok () sv)"

definition handle_write ::
  "'b storage_backend \<Rightarrow> ObjectID \<Rightarrow> byte list \<Rightarrow> 'b tcp_server
    \<Rightarrow> (ErrorCodes \<times> tcp_message, 'b tcp_server) outcome" where
  "handle_write vt oid data_fb sv =
     bindO (forget_size vt oid sv) (\<lambda>_ sv1.
       if curr_size sv1 + word_of_nat (length data_fb) > pool_size sv1
       then Ok (kServerMemoryErrorException, WriteAck oid 0) sv1
       else bindO (on_mem (sb_put vt oid (MemSlice_fb data_fb)) sv1) (\<lambda>_ sv2.
              Ok (kOk, WriteAck oid 1)
                (sv2\<lparr>curr_size := curr_size sv2 + word_of_nat (length data_fb)\<rparr>)))"

text \<open>
  The loop of a bulk write; \<open>data_ptr\<close> is the cursor into the flatbuffer vector, and a
  read past its end is undefined.
\<close>

fun write_bulk_loop ::
  "'b storage_backend \<Rightarrow> byte list \<Rightarrow> ObjectID list \<Rightarrow> nat \<Rightarrow> 'b tcp_server
    \<Rightarrow> (ErrorCodes \<times> bool, 'b tcp_server) outcome" where
  "write_bulk_loop vt data_fb [] data_ptr sv = Ok (kOk, True) sv"
| "write_bulk_loop vt data_fb (oid # oids) data_ptr sv =
     bindO (forget_size vt oid sv) (\<lambda>_ sv1.
       case peek data_fb data_ptr 8 of
         None \<Rightarrow> Undef
       | Some hdr \<Rightarrow>
           (let obj_size = read_bulk_header hdr in
            if curr_size sv1 + obj_size > pool_size sv1
            then Ok (kServerMemoryErrorException, False) sv1
            else case peek data_fb (data_ptr + 8) (unat obj_size) of
                   None \<Rightarrow> Undef
                 | Some d \<Rightarrow>
                     bindO (on_mem (sb_put vt oid (MemSlice_range d)) sv1) (\<lambda>_ sv2.
                       write_bulk_loop vt data_fb oids (data_ptr + 8 + unat obj_size)
                         (sv2\<lparr>curr_size := curr_size sv2 + obj_size\<rparr>))))"

text \<open>
  \<^verbatim>\<open>assert(num_oids = oids->size())\<close> assigns: it fails exactly on an empty id vector.
\<close>

definition handle_write_bulk ::
  "'b storage_backend \<Rightarrow> u64 \<Rightarrow> ObjectID list \<Rightarrow> byte list \<Rightarrow> 'b tcp_server
    \<Rightarrow> (ErrorCodes \<times> tcp_message, 'b tcp_server) outcome" where
  "handle_write_bulk vt num_oids oids data_fb sv =
     (if oids = [] then Throw (assertion_failed ''num_oids = oids->size()'') sv
      else bindO (write_bulk_loop vt data_fb oids 0 sv)
             (\<lambda>(code, success) sv'. Ok (code, WriteBulkAck (of_bool success)) sv'))"

text \<open>\<^verbatim>\<open>mem->get(oid).get()\<close>\<close>

definition get_object ::
  "'b storage_backend \<Rightarrow> ObjectID \<Rightarrow> 'b tcp_server \<Rightarrow> (byte list, 'b tcp_server) outcome" where
  "get_object vt oid sv =
     bindO (on_mem (sb_get vt oid) sv)
       (\<lambda>sl sv'. case slice_get sl of Inl e \<Rightarrow> Throw e sv' | Inr d \<Rightarrow> Ok d sv')"

definition handle_read ::
  "'b storage_backend \<Rightarrow> ObjectID \<Rightarrow> 'b tcp_server
    \<Rightarrow> (ErrorCodes \<times> tcp_message, 'b tcp_server) outcome" where
  "handle_read vt oid sv =
     (if \<not> sb_exists vt oid (mem sv)
      then Ok (kNoSuchIDException, ReadAck oid 0 []) sv
      else bindO (get_object vt oid sv) (\<lambda>d sv'. Ok (kOk, ReadAck oid 1 d) sv'))"

text \<open>
  The first loop of a bulk read: the size of the answer, in 32 bits; \<open>None\<close> when an id
  does not exist.
\<close>

fun read_bulk_size ::
  "'b storage_backend \<Rightarrow> ObjectID list \<Rightarrow> u32 \<Rightarrow> 'b tcp_server
    \<Rightarrow> (u32 option, 'b tcp_server) outcome" where
  "read_bulk_size vt [] data_size sv = Ok (Some data_size) sv"
| "read_bulk_size vt (oid # oids) data_size sv =
     (if \<not> sb_exists vt oid (mem sv) then Ok None sv
      else bindO (on_mem (sb_size vt oid) sv)
             (\<lambda>n sv'. read_bulk_size vt oids (data_size + 4 + ucast n) sv'))"

text \<open>The second loop: sizes in network order and objects, copied into the answer.\<close>

fun read_bulk_copy ::
  "'b storage_backend \<Rightarrow> ObjectID list \<Rightarrow> nat \<Rightarrow> nat \<Rightarrow> nat \<Rightarrow> byte list \<Rightarrow> 'b tcp_server
    \<Rightarrow> (byte list, 'b tcp_server) outcome" where
  "read_bulk_copy vt oids 0 i raw_mem buf sv = Ok buf sv"
| "read_bulk_copy vt oids (Suc n) i raw_mem buf sv =
     (if i \<ge> length oids then Undef
      else bindO (get_object vt (oids ! i) sv) (\<lambda>oid_data sv'.
             let sz = (word_of_nat (length oid_data) :: u32) in
             case poke buf raw_mem (store32 (htonl sz)) of
               None \<Rightarrow> Undef
             | Some buf1 \<Rightarrow>
                 (case poke buf1 (raw_mem + 4) (take (unat sz) oid_data) of
                    None \<Rightarrow> Undef
                  | Some buf2 \<Rightarrow>
                      read_bulk_copy vt oids n (Suc i) (raw_mem + 4 + unat sz) buf2 sv')))"

definition handle_read_bulk ::
  "'b storage_backend \<Rightarrow> (nat \<Rightarrow> byte) \<Rightarrow> u64 \<Rightarrow> ObjectID list \<Rightarrow> 'b tcp_server
    \<Rightarrow> (ErrorCodes \<times> tcp_message, 'b tcp_server) outcome" where
  "handle_read_bulk vt uninit n oids sv =
     (let num_oids = (ucast n :: u32) in
      bindO (read_bulk_size vt oids 4 sv) (\<lambda>r sv1.
        case r of
          None \<Rightarrow> Ok (kNoSuchIDException, ReadBulkAck 0 []) sv1
        | Some data_size \<Rightarrow>
            (case poke (uninit_buffer uninit (unat data_size)) 0 (store32 num_oids) of
               None \<Rightarrow> Undef
             | Some buf \<Rightarrow>
                 bindO (read_bulk_copy vt oids (unat num_oids) 0 4 buf sv1)
                   (\<lambda>buf' sv2. Ok (kOk, ReadBulkAck 1 buf') sv2))))"

text \<open>
  \<^verbatim>\<open>Remove\<close> builds a \<^verbatim>\<open>WriteAck\<close> table and tags it \<^verbatim>\<open>RemoveAck\<close>; the two tables have the
  same fields, so the client reads a \<^verbatim>\<open>RemoveAck\<close>. A missing id is reported by
  \<^verbatim>\<open>success\<close> alone, the error code stays \<^verbatim>\<open>kOk\<close>.
\<close>

definition handle_remove ::
  "'b storage_backend \<Rightarrow> ObjectID \<Rightarrow> 'b tcp_server
    \<Rightarrow> (ErrorCodes \<times> tcp_message, 'b tcp_server) outcome" where
  "handle_remove vt oid sv =
     (if sb_exists vt oid (mem sv)
      then bindO (on_mem (sb_size vt oid) sv) (\<lambda>n sv1.
             bindO (on_mem (sb_delet vt oid) (sv1\<lparr>curr_size := curr_size sv1 - n\<rparr>)) (\<lambda>_ sv2.
               Ok (kOk, RemoveAck oid 1) sv2))
      else Ok (kOk, RemoveAck oid 0) sv)"

text \<open>The switch: acknowledgements are not requests and end in the default case.\<close>

definition process_message ::
  "'b storage_backend \<Rightarrow> (nat \<Rightarrow> byte) \<Rightarrow> TCPBladeMessage \<Rightarrow> 'b tcp_server
    \<Rightarrow> (TCPBladeMessage, 'b tcp_server) outcome" where
  "process_message vt uninit msg sv =
     bindO
       (case message msg of
          Write oid data_fb \<Rightarrow> handle_write vt oid data_fb sv
        | WriteBulk num_oids oids data_fb \<Rightarrow> handle_write_bulk vt num_oids oids data_fb sv
        | Read oid \<Rightarrow> handle_read vt oid sv
        | ReadBulk num_oids oids \<Rightarrow> handle_read_bulk vt uninit num_oids oids sv
        | Remove oid \<Rightarrow> handle_remove vt oid sv
        | _ \<Rightarrow> Throw (Exception ''Unknown message type received from client.'') sv)
       (\<lambda>(code, ack) sv'.
          Ok \<lparr>txnid = txnid msg, error_code = int_of_error_code code, message = ack\<rparr> sv')"

section \<open>The abstract server\<close>

text \<open>
  What the requests mean, on a map from ids to objects with the accounted size and the
  capacity of the pool. A write is accepted or rejected as a whole; a bulk write is a
  sequence of writes that stops at the first one that is rejected.
\<close>

record abs_server =
  ab_kv :: "ObjectID \<rightharpoonup> byte list"
  ab_size :: u64
  ab_pool :: u64

definition size_without :: "ObjectID \<Rightarrow> abs_server \<Rightarrow> u64" where
  "size_without oid a =
     (case ab_kv a oid of None \<Rightarrow> ab_size a | Some d \<Rightarrow> ab_size a - word_of_nat (length d))"

definition accepts :: "ObjectID \<Rightarrow> byte list \<Rightarrow> abs_server \<Rightarrow> bool" where
  "accepts oid d a \<longleftrightarrow> size_without oid a + word_of_nat (length d) \<le> ab_pool a"

definition spec_write :: "ObjectID \<Rightarrow> byte list \<Rightarrow> abs_server \<Rightarrow> abs_server" where
  "spec_write oid d a =
     (if accepts oid d a
      then a\<lparr>ab_kv := (ab_kv a)(oid \<mapsto> d), ab_size := size_without oid a + word_of_nat (length d)\<rparr>
      else a\<lparr>ab_size := size_without oid a\<rparr>)"

fun spec_write_all :: "(ObjectID \<times> byte list) list \<Rightarrow> abs_server \<Rightarrow> bool \<times> abs_server" where
  "spec_write_all [] a = (True, a)"
| "spec_write_all ((oid, d) # ws) a =
     (if accepts oid d a then spec_write_all ws (spec_write oid d a)
      else (False, spec_write oid d a))"

text \<open>The objects a bulk write carries: \<open>n\<close> length-prefixed records.\<close>

fun split_units :: "nat \<Rightarrow> byte list \<Rightarrow> byte list list option" where
  "split_units 0 data = Some []"
| "split_units (Suc n) data =
     (if length data < 8 then None
      else let sz = unat (read_bulk_header (take 8 data)) in
           if length data < 8 + sz then None
           else map_option (\<lambda>ds. take sz (drop 8 data) # ds) (split_units n (drop (8 + sz) data)))"

text \<open>The answer to a bulk read: the number of objects, then each with its length.\<close>

definition read_unit :: "byte list \<Rightarrow> byte list" where
  "read_unit d = store32 (htonl (word_of_nat (length d))) @ d"

definition bulk_answer :: "byte list list \<Rightarrow> byte list" where
  "bulk_answer ds = store32 (word_of_nat (length ds)) @ concat (map read_unit ds)"

definition spec_message :: "tcp_message \<Rightarrow> abs_server \<Rightarrow> (ErrorCodes \<times> tcp_message) \<times> abs_server" where
  "spec_message m a =
     (case m of
        Write oid d \<Rightarrow>
          ((if accepts oid d a then (kOk, WriteAck oid 1)
            else (kServerMemoryErrorException, WriteAck oid 0)), spec_write oid d a)
      | WriteBulk n oids data \<Rightarrow>
          (case spec_write_all (zip oids (the (split_units (length oids) data))) a of
             (ok, a') \<Rightarrow>
               ((if ok then (kOk, WriteBulkAck 1)
                 else (kServerMemoryErrorException, WriteBulkAck 0)), a'))
      | Read oid \<Rightarrow>
          ((case ab_kv a oid of None \<Rightarrow> (kNoSuchIDException, ReadAck oid 0 [])
            | Some d \<Rightarrow> (kOk, ReadAck oid 1 d)), a)
      | ReadBulk n oids \<Rightarrow>
          ((if set oids \<subseteq> dom (ab_kv a)
            then (kOk, ReadBulkAck 1 (bulk_answer (map (\<lambda>oid. the (ab_kv a oid)) oids)))
            else (kNoSuchIDException, ReadBulkAck 0 [])), a)
      | Remove oid \<Rightarrow>
          (case ab_kv a oid of
             None \<Rightarrow> ((kOk, RemoveAck oid 0), a)
           | Some d \<Rightarrow>
               ((kOk, RemoveAck oid 1),
                a\<lparr>ab_kv := (ab_kv a)(oid := None), ab_size := size_without oid a\<rparr>))
      | _ \<Rightarrow> ((kException, m), a))"

text \<open>
  The requests a client of this repository sends: objects that fit a flatbuffer, a bulk
  write with as many well-formed records as ids, a bulk read that counts its ids and whose
  answer fits 32 bits.
\<close>

definition request_ok :: "tcp_message \<Rightarrow> abs_server \<Rightarrow> bool" where
  "request_ok m a =
     (case m of
        Write oid d \<Rightarrow> length d < 2 ^ 32
      | WriteBulk n oids data \<Rightarrow>
          oids \<noteq> [] \<and> length data < 2 ^ 32 \<and> split_units (length oids) data \<noteq> None
      | ReadBulk n oids \<Rightarrow>
          unat n = length oids \<and>
          (set oids \<subseteq> dom (ab_kv a) \<longrightarrow>
             length (bulk_answer (map (\<lambda>oid. the (ab_kv a oid)) oids)) < 2 ^ 32)
      | Read oid \<Rightarrow> True
      | Remove oid \<Rightarrow> True
      | _ \<Rightarrow> False)"

definition abs_of :: "('b \<Rightarrow> (ObjectID \<rightharpoonup> byte list)) \<Rightarrow> 'b tcp_server \<Rightarrow> abs_server" where
  "abs_of kv sv = \<lparr>ab_kv = kv (mem sv), ab_size = curr_size sv, ab_pool = pool_size sv\<rparr>"

lemma abs_of_simps [simp]:
  "ab_kv (abs_of kv sv) = kv (mem sv)"
  "ab_size (abs_of kv sv) = curr_size sv"
  "ab_pool (abs_of kv sv) = pool_size sv"
  by (simp_all add: abs_of_def)

lemma abs_of_eqD:
  "abs_of kv sv = a \<Longrightarrow> kv (mem sv) = ab_kv a \<and> curr_size sv = ab_size a \<and> pool_size sv = ab_pool a"
  by auto

text \<open>The part of the server a message handler does not touch.\<close>

definition same_frame :: "'b tcp_server \<Rightarrow> 'b tcp_server \<Rightarrow> bool" where
  "same_frame sv sv' \<longleftrightarrow>
     server_sock sv' = server_sock sv \<and> pool_size sv' = pool_size sv \<and> max_fds sv' = max_fds sv
     \<and> curr_index sv' = curr_index sv \<and> fds sv' = fds sv"

lemma same_frame_trans: "same_frame a b \<Longrightarrow> same_frame b c \<Longrightarrow> same_frame a c"
  by (simp add: same_frame_def)

lemma fits_memory_32: "length d < 2 ^ 32 \<Longrightarrow> fits_memory d"
  by (simp add: fits_memory_def)

section \<open>The handlers implement the abstract server\<close>

text \<open>
  \<open>refines kv invar sv out r a'\<close>: the handler returned, with answer \<open>r\<close>, in a state that
  abstracts to \<open>a'\<close> and keeps the backend invariant and the connection table.
\<close>

definition refines ::
  "('b \<Rightarrow> (ObjectID \<rightharpoonup> byte list)) \<Rightarrow> ('b \<Rightarrow> bool) \<Rightarrow> 'b tcp_server
    \<Rightarrow> ('a, 'b tcp_server) outcome \<Rightarrow> 'a \<Rightarrow> abs_server \<Rightarrow> bool" where
  "refines kv invar sv out r a' \<longleftrightarrow>
     (\<exists>sv'. out = Ok r sv' \<and> invar (mem sv') \<and> abs_of kv sv' = a' \<and> same_frame sv sv')"

lemma refinesI:
  "out = Ok r sv' \<Longrightarrow> invar (mem sv') \<Longrightarrow> abs_of kv sv' = a' \<Longrightarrow> same_frame sv sv'
    \<Longrightarrow> refines kv invar sv out r a'"
  by (auto simp: refines_def)

lemma refines_bindO:
  assumes "refines kv invar sv m x a1"
    and "\<And>sv1. invar (mem sv1) \<Longrightarrow> abs_of kv sv1 = a1 \<Longrightarrow> same_frame sv sv1
          \<Longrightarrow> refines kv invar sv1 (f x sv1) r a2"
  shows "refines kv invar sv (bindO m f) r a2"
  using assms by (fastforce simp: refines_def intro: same_frame_trans)

context kv_backend
begin

abbreviation "absv \<equiv> abs_of kv"

lemma forget_size_refines:
  assumes "invar (mem sv)"
  shows "refines kv invar sv (forget_size vt oid sv) ()
           ((absv sv)\<lparr>ab_size := size_without oid (absv sv)\<rparr>)"
proof (cases "kv (mem sv) oid")
  case None
  then show ?thesis
    using assms by (intro refinesI [where sv' = sv])
      (auto simp: forget_size_def kv_exists size_without_def same_frame_def abs_of_def)
next
  case (Some d)
  then show ?thesis
    using assms
    by (intro refinesI [where sv' = "sv\<lparr>curr_size := curr_size sv - word_of_nat (length d)\<rparr>"])
      (auto simp: forget_size_def kv_exists kv_size size_without_def same_frame_def abs_of_def
        on_mem_def)
qed

lemma handle_write_refines:
  assumes "invar (mem sv)" "length d < 2 ^ 32"
  shows "refines kv invar sv (handle_write vt oid d sv)
           (fst (spec_message (Write oid d) (absv sv))) (snd (spec_message (Write oid d) (absv sv)))"
  unfolding handle_write_def
proof (rule refines_bindO [OF forget_size_refines [OF assms(1)]])
  fix sv1
  assume inv1: "invar (mem sv1)" and "same_frame sv sv1"
    and "absv sv1 = (absv sv)\<lparr>ab_size := size_without oid (absv sv)\<rparr>"
  then have a1: "kv (mem sv1) = kv (mem sv)" "curr_size sv1 = size_without oid (absv sv)"
      "pool_size sv1 = pool_size sv"
    by (auto dest: abs_of_eqD)
  let ?out = "if pool_size sv1 < curr_size sv1 + word_of_nat (length d)
      then Ok (kServerMemoryErrorException, WriteAck oid 0) sv1
      else bindO (on_mem (sb_put vt oid (MemSlice_fb d)) sv1) (\<lambda>_ sv2.
             Ok (kOk, WriteAck oid 1) (sv2\<lparr>curr_size := curr_size sv2 + word_of_nat (length d)\<rparr>))"
  show "refines kv invar sv1 ?out
      (fst (spec_message (Write oid d) (absv sv))) (snd (spec_message (Write oid d) (absv sv)))"
  proof (cases "accepts oid d (absv sv)")
    case False
    then show ?thesis
      using inv1 a1 by (intro refinesI [where sv' = sv1])
        (auto simp: spec_message_def accepts_def spec_write_def abs_of_def same_frame_def)
  next
    case True
    have fit: "fits_memory d" using assms(2) by (rule fits_memory_32)
    obtain b' where "sb_put vt oid (MemSlice_fb d) (mem sv1) = Ok True b'" "invar b'"
        "kv b' = (kv (mem sv1))(oid \<mapsto> d)"
      using kv_put [OF inv1 slice_get_simps(3) fit] by blast
    with True a1 show ?thesis
      by (intro refinesI [where sv' = "sv1\<lparr>mem := b', curr_size := curr_size sv1 + word_of_nat (length d)\<rparr>"])
        (auto simp: spec_message_def accepts_def spec_write_def abs_of_def same_frame_def on_mem_def
          not_less)
  qed
qed

lemma get_object_Some:
  "invar (mem sv) \<Longrightarrow> kv (mem sv) oid = Some d \<Longrightarrow> get_object vt oid sv = Ok d sv"
  using kv_get [of "mem sv" oid d] by (auto simp: get_object_def on_mem_def)

lemma handle_read_refines:
  assumes "invar (mem sv)"
  shows "refines kv invar sv (handle_read vt oid sv)
           (fst (spec_message (Read oid) (absv sv))) (snd (spec_message (Read oid) (absv sv)))"
  using assms
  by (intro refinesI [where sv' = sv])
    (auto simp: handle_read_def kv_exists spec_message_def same_frame_def get_object_Some
      split: option.splits)

lemma handle_remove_refines:
  assumes "invar (mem sv)"
  shows "refines kv invar sv (handle_remove vt oid sv)
           (fst (spec_message (Remove oid) (absv sv))) (snd (spec_message (Remove oid) (absv sv)))"
proof (cases "kv (mem sv) oid")
  case None
  then show ?thesis
    using assms by (intro refinesI [where sv' = sv])
      (auto simp: handle_remove_def kv_exists spec_message_def same_frame_def)
next
  case (Some d)
  obtain b' where "sb_delet vt oid (mem sv) = Ok True b'" "invar b'"
      "kv b' = (kv (mem sv))(oid := None)"
    using kv_delet [OF assms Some] by blast
  with Some assms show ?thesis
    by (intro refinesI [where sv' = "sv\<lparr>mem := b', curr_size := curr_size sv - word_of_nat (length d)\<rparr>"])
      (auto simp: handle_remove_def kv_exists kv_size spec_message_def same_frame_def on_mem_def
        size_without_def abs_of_def)
qed

lemma write_bulk_loop_refines:
  assumes "invar (mem sv)" "length data < 2 ^ 32" "ptr \<le> length data"
    and "split_units (length oids) (drop ptr data) = Some ds"
    and "spec_write_all (zip oids ds) (absv sv) = (ok, a')"
  shows "refines kv invar sv (write_bulk_loop vt data oids ptr sv)
           (if ok then kOk else kServerMemoryErrorException, ok) a'"
  using assms
proof (induction oids arbitrary: ptr ds sv)
  case Nil
  then show ?case
    by (intro refinesI [where sv' = sv]) (auto simp: same_frame_def)
next
  case (Cons oid oids)
  let ?hdr = "take 8 (drop ptr data)"
  let ?n = "read_bulk_header ?hdr"
  let ?d = "take (unat ?n) (drop (ptr + 8) data)"
  have len8: "ptr + 8 \<le> length data" and lend: "ptr + 8 + unat ?n \<le> length data"
    using Cons.prems(3,4) by (auto simp: Let_def split: if_splits)
  obtain ds' where ds: "ds = ?d # ds'"
      and ds': "split_units (length oids) (drop (ptr + 8 + unat ?n) data) = Some ds'"
    using Cons.prems(4) by (auto simp: Let_def ac_simps split: if_splits)
  have lenD: "length ?d = unat ?n" using lend by simp
  have fit: "fits_memory ?d"
    using Cons.prems(2) lend lenD by (simp add: fits_memory_def)
  have pk: "peek data ptr 8 = Some ?hdr" "peek data (ptr + 8) (unat ?n) = Some ?d"
    using len8 lend by (auto simp: peek_def)
  show ?case
    unfolding write_bulk_loop.simps
  proof (rule refines_bindO [OF forget_size_refines [OF Cons.prems(1)]])
    fix sv1
    assume inv1: "invar (mem sv1)"
      and abs1: "absv sv1 = (absv sv)\<lparr>ab_size := size_without oid (absv sv)\<rparr>"
    then have a1: "kv (mem sv1) = kv (mem sv)" "curr_size sv1 = size_without oid (absv sv)"
        "pool_size sv1 = pool_size sv"
      by (auto dest: abs_of_eqD)
    let ?a1 = "spec_write oid ?d (absv sv)"
    show "refines kv invar sv1 (case peek data ptr 8 of None \<Rightarrow> Undef | Some hdr \<Rightarrow>
        let obj_size = read_bulk_header hdr in
        if pool_size sv1 < curr_size sv1 + obj_size then Ok (kServerMemoryErrorException, False) sv1
        else case peek data (ptr + 8) (unat obj_size) of None \<Rightarrow> Undef
             | Some d \<Rightarrow> bindO (on_mem (sb_put vt oid (MemSlice_range d)) sv1) (\<lambda>_ sv2.
                 write_bulk_loop vt data oids (ptr + 8 + unat obj_size)
                   (sv2\<lparr>curr_size := curr_size sv2 + obj_size\<rparr>)))
        (if ok then kOk else kServerMemoryErrorException, ok) a'"
    proof (cases "accepts oid ?d (absv sv)")
      case False
      then have over: "pool_size sv1 < curr_size sv1 + ?n" and res: "ok = False" "a' = ?a1"
        using a1 lenD Cons.prems(5) by (auto simp: accepts_def ds)
      with inv1 a1 False show ?thesis
        by (intro refinesI [where sv' = sv1])
          (auto simp: pk spec_write_def abs_of_def same_frame_def)
    next
      case True
      obtain b' where b': "sb_put vt oid (MemSlice_range ?d) (mem sv1) = Ok True b'" "invar b'"
          "kv b' = (kv (mem sv1))(oid \<mapsto> ?d)"
        using kv_put [OF inv1 slice_get_simps(4) fit] by blast
      let ?sv2 = "sv1\<lparr>mem := b', curr_size := curr_size sv1 + ?n\<rparr>"
      have abs2: "absv ?sv2 = ?a1"
        using True a1 b' lenD by (auto simp: spec_write_def abs_of_def)
      have "refines kv invar ?sv2 (write_bulk_loop vt data oids (ptr + 8 + unat ?n) ?sv2)
              (if ok then kOk else kServerMemoryErrorException, ok) a'"
        using b' Cons.prems(2,5) lend ds' True abs2 by (intro Cons.IH) (auto simp: ds)
      moreover have "same_frame sv1 ?sv2" by (simp add: same_frame_def)
      moreover have "\<not> pool_size sv1 < curr_size sv1 + ?n"
        using True a1 lenD by (auto simp: accepts_def not_less)
      ultimately show ?thesis
        using b' by (auto simp: pk on_mem_def refines_def intro: same_frame_trans)
    qed
  qed
qed

lemma handle_write_bulk_refines:
  assumes "invar (mem sv)" "request_ok (WriteBulk n oids data) (absv sv)"
  shows "refines kv invar sv (handle_write_bulk vt n oids data sv)
           (fst (spec_message (WriteBulk n oids data) (absv sv)))
           (snd (spec_message (WriteBulk n oids data) (absv sv)))"
proof -
  obtain ds where ds: "split_units (length oids) data = Some ds"
    using assms(2) by (auto simp: request_ok_def)
  obtain ok a' where w: "spec_write_all (zip oids ds) (absv sv) = (ok, a')"
    by (cases "spec_write_all (zip oids ds) (absv sv)")
  have "refines kv invar sv (write_bulk_loop vt data oids 0 sv)
          (if ok then kOk else kServerMemoryErrorException, ok) a'"
    using assms ds w by (intro write_bulk_loop_refines [where ds = ds]) (auto simp: request_ok_def)
  then show ?thesis
    using assms(2) ds w
    by (auto simp: handle_write_bulk_def request_ok_def spec_message_def refines_def)
qed

text \<open>Bulk reads.\<close>

lemma read_bulk_size_all:
  assumes "invar (mem sv)" "set oids \<subseteq> dom (kv (mem sv))"
  shows "read_bulk_size vt oids acc sv =
    Ok (Some (acc + word_of_nat (length (concat (map (\<lambda>oid. read_unit (the (kv (mem sv) oid))) oids))))) sv"
  using assms(2)
proof (induction oids arbitrary: acc)
  case Nil
  then show ?case by simp
next
  case (Cons oid oids)
  then obtain d where d: "kv (mem sv) oid = Some d" by auto
  have "length d < 2 ^ 64" using kv_fits [OF assms(1) d] by (simp add: fits_memory_def)
  then have "(ucast (word_of_nat (length d) :: u64) :: u32) = word_of_nat (length d)"
    by (simp add: unsigned_of_nat take_bit_nat_eq_self)
  with Cons d assms(1) show ?case
    by (simp add: kv_exists kv_size on_mem_def read_unit_def add.assoc)
qed

lemma read_bulk_size_missing:
  assumes "invar (mem sv)" "\<not> set oids \<subseteq> dom (kv (mem sv))"
  shows "read_bulk_size vt oids acc sv = Ok None sv"
  using assms(2)
proof (induction oids arbitrary: acc)
  case Nil
  then show ?case by simp
next
  case (Cons oid oids)
  then show ?case
    using assms(1) by (cases "kv (mem sv) oid") (auto simp: kv_exists kv_size on_mem_def)
qed

lemma read_bulk_copy_all:
  assumes "invar (mem sv)" "set oids \<subseteq> dom (kv (mem sv))"
    and "n = length oids - i" "i \<le> length oids"
    and "rest_ds = map (\<lambda>oid. the (kv (mem sv) oid)) (drop i oids)"
    and "length rest = length (concat (map read_unit rest_ds))"
    and "length rest < 2 ^ 32"
  shows "read_bulk_copy vt oids n i (length pre) (pre @ rest) sv =
         Ok (pre @ concat (map read_unit rest_ds)) sv"
  using assms(3-)
proof (induction n arbitrary: i pre rest rest_ds)
  case 0
  then show ?case by simp
next
  case (Suc n)
  then have i: "i < length oids" by simp
  let ?oid = "oids ! i"
  obtain d where d: "kv (mem sv) ?oid = Some d"
    using assms(2) i nth_mem by blast
  obtain ds' where ds: "rest_ds = d # ds'"
      and ds': "ds' = map (\<lambda>oid. the (kv (mem sv) oid)) (drop (Suc i) oids)"
    using Suc.prems(3) i d by (simp flip: Cons_nth_drop_Suc)
  let ?h = "store32 (htonl (word_of_nat (length d)))"
  have len: "length rest = 4 + length d + length (concat (map read_unit ds'))"
    using Suc.prems(4) by (simp add: ds read_unit_def [of d])
  have un: "unat (word_of_nat (length d) :: u32) = length d"
    using len Suc.prems(5) by (simp add: unat_of_nat)
  have 1: "poke (pre @ rest) (length pre) ?h = Some ((pre @ ?h) @ drop 4 rest)"
    using poke_cursor [of ?h rest pre] len by simp
  have 2: "poke ((pre @ ?h) @ drop 4 rest) (length pre + 4) d =
      Some ((pre @ ?h @ d) @ drop (length d) (drop 4 rest))"
    using poke_cursor [of d "drop 4 rest" "pre @ ?h"] len by simp
  have "read_bulk_copy vt oids n (Suc i) (length (pre @ ?h @ d))
          ((pre @ ?h @ d) @ drop (length d) (drop 4 rest)) sv =
        Ok ((pre @ ?h @ d) @ concat (map read_unit ds')) sv"
    using Suc.prems len ds' i by (intro Suc.IH) auto
  with 1 2 i assms(1) d show ?case
    by (simp add: get_object_Some ds read_unit_def [of d] un add.assoc)
qed

lemma handle_read_bulk_refines:
  assumes "invar (mem sv)" "request_ok (ReadBulk n oids) (absv sv)"
  shows "refines kv invar sv (handle_read_bulk vt uninit n oids sv)
           (fst (spec_message (ReadBulk n oids) (absv sv)))
           (snd (spec_message (ReadBulk n oids) (absv sv)))"
proof (cases "set oids \<subseteq> dom (kv (mem sv))")
  case False
  then show ?thesis
    using assms read_bulk_size_missing [OF assms(1) False, of 4]
    by (intro refinesI [where sv' = sv])
      (auto simp: handle_read_bulk_def spec_message_def same_frame_def)
next
  case True
  let ?ds = "map (\<lambda>oid. the (kv (mem sv) oid)) oids"
  let ?body = "concat (map read_unit ?ds)"
  have n: "unat n = length oids" and small: "4 + length ?body < 2 ^ 32"
    using assms(2) True by (auto simp: request_ok_def bulk_answer_def)
  have "length oids \<le> length ?body"
    by (induction oids) (auto simp: read_unit_def)
  then have "unat n < 2 ^ 32" using n small by simp
  then have n32: "unat (ucast n :: u32) = length oids" "(ucast n :: u32) = word_of_nat (length oids)"
    using n by (simp_all add: word_unat_eq_iff unat_of_nat unsigned_ucast_eq take_bit_eq_mod
        unat_mod_distrib)
  have sz: "unat (4 + word_of_nat (length ?body) :: u32) = 4 + length ?body"
    using small by (simp add: unat_word_ariths unat_of_nat)
  let ?hdr = "store32 (ucast n)"
  let ?buf = "uninit_buffer uninit (4 + length ?body)"
  have p: "poke ?buf 0 ?hdr = Some (?hdr @ drop 4 ?buf)"
    using poke_cursor [of ?hdr ?buf "[]"] by simp
  have "read_bulk_copy vt oids (length oids) 0 (length ?hdr) (?hdr @ drop 4 ?buf) sv =
        Ok (?hdr @ concat (map read_unit ?ds)) sv"
    using assms(1) True small by (intro read_bulk_copy_all) auto
  with p have "handle_read_bulk vt uninit n oids sv = Ok (kOk, ReadBulkAck 1 (bulk_answer ?ds)) sv"
    using read_bulk_size_all [OF assms(1) True, of 4] sz n32
    by (simp add: handle_read_bulk_def bulk_answer_def comp_def)
  then show ?thesis
    using assms(1) True
    by (intro refinesI [where sv' = sv]) (auto simp: spec_message_def same_frame_def)
qed

text \<open>The whole switch.\<close>

lemma process_message_refines:
  assumes "invar (mem sv)" "request_ok (message msg) (absv sv)"
    and "spec_message (message msg) (absv sv) = ((code, ack), a')"
  shows "refines kv invar sv (process_message vt uninit msg sv)
           \<lparr>txnid = txnid msg, error_code = int_of_error_code code, message = ack\<rparr> a'"
proof -
  have "refines kv invar sv
      (case message msg of
          Write oid data_fb \<Rightarrow> handle_write vt oid data_fb sv
        | WriteBulk num_oids oids data_fb \<Rightarrow> handle_write_bulk vt num_oids oids data_fb sv
        | Read oid \<Rightarrow> handle_read vt oid sv
        | ReadBulk num_oids oids \<Rightarrow> handle_read_bulk vt uninit num_oids oids sv
        | Remove oid \<Rightarrow> handle_remove vt oid sv
        | _ \<Rightarrow> Throw (Exception ''Unknown message type received from client.'') sv)
      (fst (spec_message (message msg) (absv sv))) (snd (spec_message (message msg) (absv sv)))"
    using assms(1,2) handle_write_refines handle_write_bulk_refines handle_read_refines
      handle_read_bulk_refines handle_remove_refines
    by (cases "message msg") (simp_all add: request_ok_def)
  then show ?thesis
    using assms(3) by (auto simp: process_message_def refines_def)
qed

end

text \<open>
  C5. The message handler of the server implements the abstract server over every storage
  backend that meets the contract: it returns (no exception, no undefined behaviour) for
  every well-formed request, answers with the transaction id of the request and with the
  error code and acknowledgement of the abstract server, moves to a state that abstracts
  to the abstract successor, keeps the backend invariant and leaves the connection table
  alone.
\<close>

theorem server_refines_spec:
  assumes "kv_backend vt kv invar" and "invar (mem sv)"
    and "request_ok (message msg) (abs_of kv sv)"
    and "spec_message (message msg) (abs_of kv sv) = ((code, ack), a')"
  shows "\<exists>sv'. process_message vt uninit msg sv =
               Ok \<lparr>txnid = txnid msg, error_code = int_of_error_code code, message = ack\<rparr> sv'
           \<and> invar (mem sv') \<and> abs_of kv sv' = a' \<and> same_frame sv sv'"
  using kv_backend.process_message_refines [OF assms] unfolding refines_def .

section \<open>Capacity accounting\<close>

definition total_bytes :: "(ObjectID \<rightharpoonup> byte list) \<Rightarrow> nat" where
  "total_bytes m = (\<Sum>oid \<in> dom m. length (the (m oid)))"

text \<open>
  The server counts what it stores and never stores more than the pool holds. The last
  conjunct keeps \<^verbatim>\<open>curr_size + size > pool_size\<close> from wrapping around.
\<close>

definition acct_ok :: "abs_server \<Rightarrow> bool" where
  "acct_ok a \<longleftrightarrow>
     finite (dom (ab_kv a)) \<and> unat (ab_size a) = total_bytes (ab_kv a)
     \<and> total_bytes (ab_kv a) \<le> unat (ab_pool a) \<and> unat (ab_pool a) + 2 ^ 32 \<le> 2 ^ 64"

lemma total_bytes_remove:
  assumes "finite (dom m)" "m oid = Some d"
  shows "total_bytes m = total_bytes (m(oid := None)) + length d"
proof -
  have "total_bytes m = length d + (\<Sum>x \<in> dom m - {oid}. length (the (m x)))"
    using assms sum.remove [of "dom m" oid "\<lambda>x. length (the (m x))"] by (auto simp: total_bytes_def)
  moreover have "total_bytes (m(oid := None)) = (\<Sum>x \<in> dom m - {oid}. length (the (m x)))"
    unfolding total_bytes_def by (rule sum.cong) auto
  ultimately show ?thesis by simp
qed

lemma total_bytes_update:
  assumes "finite (dom m)"
  shows "total_bytes (m(oid \<mapsto> d)) = total_bytes (m(oid := None)) + length d"
  using total_bytes_remove [of "m(oid \<mapsto> d)" oid d] assms by simp

lemma total_bytes_remove_le: "finite (dom m) \<Longrightarrow> total_bytes (m(oid := None)) \<le> total_bytes m"
  using total_bytes_remove [of m oid] by (cases "m oid") (auto simp: fun_upd_idem)

lemma size_without_acct:
  assumes "acct_ok a"
  shows "unat (size_without oid a) = total_bytes ((ab_kv a)(oid := None))"
proof (cases "ab_kv a oid")
  case None
  then have "(ab_kv a)(oid := None) = ab_kv a" by (simp add: fun_upd_idem)
  with None assms show ?thesis by (simp add: size_without_def acct_ok_def)
next
  case (Some d)
  have tot: "unat (ab_size a) = total_bytes ((ab_kv a)(oid := None)) + length d"
    using assms total_bytes_remove [of "ab_kv a" oid d] Some by (simp add: acct_ok_def)
  then have "length d < 2 ^ 64" using unsigned_less [of "ab_size a", where 'a = nat] by simp
  then have un: "unat (word_of_nat (length d) :: u64) = length d" by (simp add: unat_of_nat)
  then have "word_of_nat (length d) \<le> ab_size a" using tot by (simp add: word_le_nat_alt)
  with Some tot un show ?thesis
    by (simp add: size_without_def unat_sub)
qed

lemma unat_size_plus:
  assumes "acct_ok a" "length d < 2 ^ 32"
  shows "unat (size_without oid a + word_of_nat (length d)) =
         total_bytes ((ab_kv a)(oid := None)) + length d"
proof -
  have "total_bytes ((ab_kv a)(oid := None)) \<le> unat (ab_pool a)" "unat (ab_pool a) + 2 ^ 32 \<le> 2 ^ 64"
    using assms(1) total_bytes_remove_le [of "ab_kv a" oid] by (auto simp: acct_ok_def)
  with assms show ?thesis
    by (simp add: unat_word_ariths unat_of_nat size_without_acct)
qed

lemma spec_write_acct:
  assumes "acct_ok a" "length d < 2 ^ 32" "accepts oid d a"
  shows "acct_ok (spec_write oid d a)"
proof -
  have "total_bytes ((ab_kv a)(oid := None)) + length d \<le> unat (ab_pool a)"
    using assms unat_size_plus [of a d oid] by (simp add: accepts_def word_le_nat_alt)
  with assms show ?thesis
    by (auto simp: spec_write_def acct_ok_def unat_size_plus total_bytes_update)
qed

lemma spec_write_all_acct:
  assumes "acct_ok a" "\<And>oid d. (oid, d) \<in> set ws \<Longrightarrow> length d < 2 ^ 32"
    and "spec_write_all ws a = (True, a')"
  shows "acct_ok a'"
  using assms
proof (induction ws arbitrary: a)
  case Nil
  then show ?case by simp
next
  case (Cons w ws)
  obtain oid d where w: "w = (oid, d)" by (cases w)
  from Cons.prems(3) have acc: "accepts oid d a" and rest: "spec_write_all ws (spec_write oid d a) = (True, a')"
    by (auto simp: w split: if_splits)
  have "acct_ok (spec_write oid d a)"
    using Cons.prems(1,2) acc by (intro spec_write_acct) (auto simp: w)
  from Cons.IH [OF this _ rest] Cons.prems(2) show ?case by auto
qed

lemma split_units_lengths:
  "split_units n data = Some ds \<Longrightarrow> d \<in> set ds \<Longrightarrow> length d \<le> length data"
proof (induction n arbitrary: data ds)
  case 0
  then show ?case by simp
next
  case (Suc n)
  then show ?case
    by (fastforce simp: Let_def split: if_splits dest: le_trans)
qed

lemma spec_message_acct:
  assumes "acct_ok a" "request_ok m a" "spec_message m a = ((code, ack), a')"
    and "code \<noteq> kServerMemoryErrorException"
  shows "acct_ok a'"
proof (cases m)
  case (Write oid d)
  with assms show ?thesis
    by (auto simp: spec_message_def request_ok_def intro: spec_write_acct split: if_splits)
next
  case (WriteBulk n oids data)
  then obtain ds where ds: "split_units (length oids) data = Some ds" and len: "length data < 2 ^ 32"
    using assms(2) by (auto simp: request_ok_def)
  have "spec_write_all (zip oids ds) a = (True, a')"
    using assms(3,4) WriteBulk ds by (auto simp: spec_message_def split: prod.splits if_splits)
  moreover have "length d < 2 ^ 32" if "(oid, d) \<in> set (zip oids ds)" for oid d
    using split_units_lengths [OF ds] set_zip_rightD [OF that] len by fastforce
  ultimately show ?thesis using spec_write_all_acct [OF assms(1)] by blast
next
  case (Remove oid)
  with assms show ?thesis
    using size_without_acct [OF assms(1), of oid] total_bytes_remove_le [of "ab_kv a" oid]
    by (auto simp: spec_message_def acct_ok_def split: option.splits)
qed (use assms in \<open>auto simp: spec_message_def request_ok_def split: option.splits if_splits\<close>)

text \<open>
  C8. The capacity invariant of the server with the in-memory backend: as long as a
  well-formed request is not refused for lack of space, the accounted size stays the
  number of bytes stored, and the stored objects never exceed the pool.
\<close>

theorem server_accounting_invariant:
  assumes "memory_inv (mem sv)" and "acct_ok (abs_of memory_kv sv)"
    and "request_ok (message msg) (abs_of memory_kv sv)"
    and "process_message memory_vt uninit msg sv = Ok r sv'"
    and "error_code r \<noteq> int_of_error_code kServerMemoryErrorException"
  shows "acct_ok (abs_of memory_kv sv') \<and> memory_inv (mem sv')
         \<and> total_bytes (memory_kv (mem sv')) \<le> unat (pool_size sv')"
proof -
  obtain code ack a' where s: "spec_message (message msg) (abs_of memory_kv sv) = ((code, ack), a')"
    by (metis surj_pair)
  obtain sv'' where p: "process_message memory_vt uninit msg sv =
        Ok \<lparr>txnid = txnid msg, error_code = int_of_error_code code, message = ack\<rparr> sv''"
      "memory_inv (mem sv'')" "abs_of memory_kv sv'' = a'"
    using mb.process_message_refines [OF assms(1,3) s] unfolding refines_def by blast
  then have "code \<noteq> kServerMemoryErrorException" "sv'' = sv'" using assms(4,5) by auto
  with p s spec_message_acct [OF assms(2,3) s] show ?thesis
    by (auto simp: acct_ok_def)
qed

text \<open>
  C25. A refused overwrite is not accounted for: the object stays stored, but its size has
  already been taken off \<^verbatim>\<open>curr_size\<close>.
\<close>

theorem rejected_overwrite_leaks:
  assumes "memory_inv (mem sv)" and "acct_ok (abs_of memory_kv sv)"
    and "memory_kv (mem sv) oid = Some old" and "length d < 2 ^ 32"
    and "handle_write memory_vt oid d sv = Ok (kServerMemoryErrorException, ack) sv'"
  shows "memory_kv (mem sv') = memory_kv (mem sv)
         \<and> unat (curr_size sv') + length old = total_bytes (memory_kv (mem sv'))"
proof -
  let ?a = "abs_of memory_kv sv"
  from mb.handle_write_refines [OF assms(1,4), of oid] assms(5)
  have r: "\<not> accepts oid d ?a" "abs_of memory_kv sv' = spec_write oid d ?a"
    by (auto simp: refines_def spec_message_def split: if_splits)
  then have "memory_kv (mem sv') = memory_kv (mem sv)" "curr_size sv' = size_without oid ?a"
    by (auto simp: spec_write_def dest: abs_of_eqD)
  moreover have "total_bytes (memory_kv (mem sv)) =
      total_bytes ((memory_kv (mem sv))(oid := None)) + length old"
    using assms(2,3) by (intro total_bytes_remove) (auto simp: acct_ok_def)
  ultimately show ?thesis using size_without_acct [OF assms(2), of oid] by simp
qed

section \<open>Witnesses\<close>

definition demo_server :: "memory_backend tcp_server" where
  "demo_server = \<lparr>server_sock = 3, pool_size = 10, curr_size = 0, max_fds = 3, curr_index = 2,
     fds = [\<lparr>fd = 3, events = 1, revents = 0\<rparr>, \<lparr>fd = 4, events = 1, revents = 0\<rparr>,
            \<lparr>fd = 0, events = 0, revents = 0\<rparr>],
     mem = MemoryBackend 100000000\<rparr>"

definition demo_write :: "TxnID \<Rightarrow> ObjectID \<Rightarrow> byte list \<Rightarrow> TCPBladeMessage" where
  "demo_write t oid d = \<lparr>txnid = t, error_code = 0, message = Write oid d\<rparr>"

lemmas demo_defs = demo_server_def demo_write_def memory_kv_def MemoryBackend_def

lemma demo_server_ok [simp]:
  "memory_inv (mem demo_server)"
  "abs_of memory_kv demo_server = \<lparr>ab_kv = Map.empty, ab_size = 0, ab_pool = 10\<rparr>"
  "acct_ok \<lparr>ab_kv = Map.empty, ab_size = 0, ab_pool = 10\<rparr>"
  "length d < 2 ^ 32 \<Longrightarrow> request_ok (Write oid d) a"
  "txnid (demo_write t oid d) = t" "message (demo_write t oid d) = Write oid d"
  by (simp_all add: demo_defs memory_inv_init [unfolded MemoryBackend_def] abs_of_def acct_ok_def
      total_bytes_def request_ok_def)

theorem server_refines_spec_witness:
  "kv_backend memory_vt memory_kv memory_inv \<and> memory_inv (mem demo_server)
   \<and> request_ok (Write 7 [1, 2, 3]) (abs_of memory_kv demo_server)
   \<and> (\<exists>sv'. process_message memory_vt (\<lambda>_. 0) (demo_write 1 7 [1, 2, 3]) demo_server =
              Ok \<lparr>txnid = 1, error_code = 0, message = WriteAck 7 1\<rparr> sv'
          \<and> memory_kv (mem sv') = [7 \<mapsto> [1, 2, 3]])"
  using server_refines_spec [OF mb.kv_backend_axioms, of demo_server "demo_write 1 7 [1, 2, 3]" kOk
      "WriteAck 7 1" "\<lparr>ab_kv = [7 \<mapsto> [1, 2, 3]], ab_size = 3, ab_pool = 10\<rparr>" "\<lambda>_. 0"]
  by (auto simp: mb.kv_backend_axioms spec_message_def spec_write_def accepts_def size_without_def
      request_ok_def int_of_error_code_def dest: abs_of_eqD)

theorem server_accounting_invariant_witness:
  "\<exists>r sv'. process_message memory_vt (\<lambda>_. 0) (demo_write 1 7 [1, 2, 3]) demo_server = Ok r sv'
     \<and> error_code r \<noteq> int_of_error_code kServerMemoryErrorException
     \<and> acct_ok (abs_of memory_kv sv') \<and> total_bytes (memory_kv (mem sv')) \<le> unat (pool_size sv')"
proof -
  let ?m = "process_message memory_vt (\<lambda>_. 0) (demo_write 1 7 [1, 2, 3]) demo_server"
  have "case ?m of Ok r _ \<Rightarrow> error_code r = 0 | _ \<Rightarrow> False" by code_simp
  then obtain r sv' where m: "?m = Ok r sv'" "error_code r = 0" by (auto split: outcome.splits)
  with server_accounting_invariant [OF _ _ _ m(1)] show ?thesis
    by (auto simp: int_of_error_code_def)
qed

text \<open>The server after an accepted write of 8 bytes.\<close>

definition demo_full :: "memory_backend tcp_server" where
  "demo_full = demo_server\<lparr>curr_size := 8, mem := (mem demo_server)\<lparr>store := [(7, replicate 8 1)]\<rparr>\<rparr>"

theorem rejected_overwrite_leaks_witness:
  "memory_inv (mem demo_full) \<and> acct_ok (abs_of memory_kv demo_full)
   \<and> (\<exists>ack sv'. handle_write memory_vt 7 (replicate 12 1) demo_full =
          Ok (kServerMemoryErrorException, ack) sv'
        \<and> memory_kv (mem sv') = [7 \<mapsto> replicate 8 1] \<and> curr_size sv' = 0)"
proof -
  have inv: "memory_inv (mem demo_full)" "acct_ok (abs_of memory_kv demo_full)"
    "memory_kv (mem demo_full) = [7 \<mapsto> replicate 8 1]"
    by (auto simp: demo_full_def demo_defs memory_inv_def abs_of_def acct_ok_def total_bytes_def
        fits_memory_def wf_alist_def)
  let ?m = "handle_write memory_vt 7 (replicate 12 1) demo_full"
  have "case ?m of Ok (c, _) _ \<Rightarrow> c = kServerMemoryErrorException | _ \<Rightarrow> False" by code_simp
  then obtain ack sv' where m: "?m = Ok (kServerMemoryErrorException, ack) sv'"
    by (auto split: outcome.splits)
  with rejected_overwrite_leaks [OF inv(1,2) _ _ m] inv show ?thesis
    by (auto simp: total_bytes_def unat_eq_zero)
qed

definition run_writes ::
  "(ObjectID \<times> byte list) list \<Rightarrow> memory_backend tcp_server \<Rightarrow> u64 list \<times> memory_backend tcp_server" where
  "run_writes ws sv =
     foldl (\<lambda>(codes, sv) (oid, d).
         case process_message memory_vt (\<lambda>_. 0) (demo_write 0 oid d) sv of
           Ok r sv' \<Rightarrow> (codes @ [error_code r], sv') | _ \<Rightarrow> (codes, sv)) ([], sv) ws"


end
