(* ===== verification/Socket_IO.thy ===== *)
theory Socket_IO
  imports TCP_Server
begin

text \<open>
  Stream sockets as the servers and the client use them: what successive \<^verbatim>\<open>read\<close> and
  \<^verbatim>\<open>send\<close> calls of the operating system return, the loops \<^verbatim>\<open>read_all\<close> and \<^verbatim>\<open>send_all\<close>
  that \<^verbatim>\<open>src/src/server/TCPServer.cpp\<close> and \<^verbatim>\<open>src/src/client/TCPClient.cpp\<close> build on them,
  the 4-byte length frames, and what the two programs rely on of the generated flatbuffers
  code.
\<close>

section \<open>What the operating system returns\<close>

text \<open>
  The incoming side of a socket is the list of what the coming calls of \<^verbatim>\<open>read\<close> find: a
  segment of bytes, of which a call takes as many as it asked for, or an error. After the
  last one the peer has closed the connection and every \<^verbatim>\<open>read\<close> returns 0.
\<close>

datatype chunk = Segment "byte list" | ReadError

type_synonym stream = "chunk list"

fun sock_read :: "nat \<Rightarrow> stream \<Rightarrow> byte list option \<times> stream" where
  "sock_read n [] = (Some [], [])"
| "sock_read n (ReadError # cs) = (None, cs)"
| "sock_read n (Segment b # cs) =
     (Some (take n b), if length b \<le> n then cs else Segment (drop n b) # cs)"

fun chunk_bytes :: "chunk \<Rightarrow> byte list" where
  "chunk_bytes (Segment b) = b"
| "chunk_bytes ReadError = []"

definition stream_bytes :: "stream \<Rightarrow> byte list" where
  "stream_bytes cs = concat (map chunk_bytes cs)"

text \<open>A stream without errors; \<^verbatim>\<open>read\<close> returns no empty segment on an open connection.\<close>

definition healthy_stream :: "stream \<Rightarrow> bool" where
  "healthy_stream cs = list_all (\<lambda>c. case c of Segment b \<Rightarrow> b \<noteq> [] | ReadError \<Rightarrow> False) cs"

lemma stream_bytes_simps [simp]:
  "stream_bytes [] = []"
  "stream_bytes (c # cs) = chunk_bytes c @ stream_bytes cs"
  by (simp_all add: stream_bytes_def)

lemma healthy_stream_simps [simp]:
  "healthy_stream []"
  "healthy_stream (Segment b # cs) \<longleftrightarrow> b \<noteq> [] \<and> healthy_stream cs"
  "\<not> healthy_stream (ReadError # cs)"
  by (simp_all add: healthy_stream_def)

text \<open>One \<^verbatim>\<open>read\<close> on a healthy stream takes a prefix, empty only at the end of the stream.\<close>

lemma sock_read_healthy:
  assumes "healthy_stream cs" "0 < n"
  obtains b cs' where "sock_read n cs = (Some b, cs')" "healthy_stream cs'"
    "stream_bytes cs = b @ stream_bytes cs'" "length b \<le> n" "b = [] \<longleftrightarrow> cs = []"
proof (cases cs)
  case Nil
  with that [of "[]" "[]"] show ?thesis by simp
next
  case (Cons c cs')
  with assms(1) obtain b where c: "c = Segment b" "b \<noteq> []" "healthy_stream cs'" by (cases c) auto
  show ?thesis
    using that [of "take n b" "if length b \<le> n then cs' else Segment (drop n b) # cs'"] assms(2) c Cons
    by auto
qed

section \<open>Reading a number of bytes\<close>

text \<open>
  The loop \<^verbatim>\<open>while (bytes_read < len) read(...)\<close>: \<open>got\<close> is the filled part of the buffer,
  the first component of the result is \<open>None\<close> when \<^verbatim>\<open>read\<close> failed. At the end of the stream
  \<^verbatim>\<open>read\<close> returns 0 forever, so the loop may not end.
\<close>

partial_function (option) recv_loop ::
  "nat \<Rightarrow> byte list \<Rightarrow> stream \<Rightarrow> (byte list option \<times> stream) option" where
  "recv_loop len got cs =
     (if length got < len
      then (case sock_read (len - length got) cs of
              (None, cs') \<Rightarrow> Some (None, cs')
            | (Some b, cs') \<Rightarrow> recv_loop len (got @ b) cs')
      else Some (Some got, cs))"

lemma recv_loop_done: "length got = len \<Longrightarrow> recv_loop len got cs = Some (Some got, cs)"
  by (subst recv_loop.simps) simp

lemma recv_loop_enough:
  assumes "healthy_stream cs" "length got \<le> len" "len - length got \<le> length (stream_bytes cs)"
  shows "\<exists>cs'. recv_loop len got cs =
           Some (Some (got @ take (len - length got) (stream_bytes cs)), cs')
         \<and> healthy_stream cs' \<and> stream_bytes cs' = drop (len - length got) (stream_bytes cs)"
  using assms
proof (induction "len - length got" arbitrary: got cs rule: less_induct)
  case less
  show ?case
  proof (cases "length got = len")
    case True
    with less.prems show ?thesis by (simp add: recv_loop_done)
  next
    case False
    with less.prems(2) have lt: "length got < len" by simp
    obtain b cs' where rd: "sock_read (len - length got) cs = (Some b, cs')" "healthy_stream cs'"
        "stream_bytes cs = b @ stream_bytes cs'" "length b \<le> len - length got" "b = [] \<longleftrightarrow> cs = []"
      using sock_read_healthy [OF less.prems(1), of "len - length got"] lt by auto
    then have b: "b \<noteq> []" using less.prems(3) lt by auto
    then have "len - length (got @ b) < len - length got" using lt by (simp add: diff_less_mono2)
    moreover have "length (got @ b) \<le> len" "len - length (got @ b) \<le> length (stream_bytes cs')"
      using lt less.prems(3) rd(3,4) by auto
    ultimately obtain cs'' where "recv_loop len (got @ b) cs' =
          Some (Some (got @ b @ take (len - length got - length b) (stream_bytes cs')), cs'')"
        "healthy_stream cs''" "stream_bytes cs'' = drop (len - length got - length b) (stream_bytes cs')"
      using less.hyps [of "got @ b" cs'] rd(2) by (auto simp: diff_diff_left)
    moreover have "recv_loop len got cs = recv_loop len (got @ b) cs'"
      using lt rd(1) by (subst recv_loop.simps) simp
    ultimately show ?thesis using rd(3,4) by (intro exI [of _ cs'']) simp
  qed
qed

lemma recv_loop_short:
  assumes "healthy_stream cs" "length got + length (stream_bytes cs) < len"
  shows "recv_loop len got cs = None"
proof -
  have "\<not> (healthy_stream cs \<and> length got + length (stream_bytes cs) < len)"
    if "recv_loop len got cs = Some r" for r
  proof (rule recv_loop.raw_induct [where P = "\<lambda>len got cs r.
        \<not> (healthy_stream cs \<and> length got + length (stream_bytes cs) < len)", OF _ that])
    fix rec :: "nat \<Rightarrow> byte list \<Rightarrow> stream \<Rightarrow> (byte list option \<times> stream) option" and len got cs r
    assume ih: "\<And>len got cs r. rec len got cs = Some r \<Longrightarrow>
        \<not> (healthy_stream cs \<and> length got + length (stream_bytes cs) < len)"
      and body: "(if length got < len
        then case sock_read (len - length got) cs of
            (None, cs') \<Rightarrow> Some (None, cs')
          | (Some b, cs') \<Rightarrow> rec len (got @ b) cs'
        else Some (Some got, cs)) = Some r"
    show "\<not> (healthy_stream cs \<and> length got + length (stream_bytes cs) < len)"
    proof
      assume a: "healthy_stream cs \<and> length got + length (stream_bytes cs) < len"
      obtain b cs' where "sock_read (len - length got) cs = (Some b, cs')" "healthy_stream cs'"
          "stream_bytes cs = b @ stream_bytes cs'"
        by (rule sock_read_healthy [of cs "len - length got"]) (use a in auto)
      with a body ih [of len "got @ b" cs' r] show False by simp
    qed
  qed
  with assms show ?thesis by (cases "recv_loop len got cs") auto
qed

section \<open>Sending a buffer\<close>

text \<open>
  What the coming calls of \<^verbatim>\<open>send\<close> do: accept at most so many bytes, or fail (\<open>None\<close>);
  after the last of them every call takes the whole rest. \<open>send_loop\<close> is the loop
  \<^verbatim>\<open>while (to_send != total_sent) send(...)\<close>: it returns the bytes that reached the wire
  and whether all of them did.
\<close>

type_synonym send_verdicts = "nat option list"

fun send_loop :: "send_verdicts \<Rightarrow> byte list \<Rightarrow> byte list \<times> bool \<times> send_verdicts" where
  "send_loop [] data = (data, True, [])"
| "send_loop (v # vs) data =
     (if data = [] then ([], True, v # vs)
      else case v of
             None \<Rightarrow> ([], False, vs)
           | Some k \<Rightarrow>
               (case send_loop vs (drop k data) of
                  (out, ok, vs') \<Rightarrow> (take k data @ out, ok, vs')))"

lemma send_loop_prefix:
  "send_loop vs data = (out, ok, vs') \<Longrightarrow> \<exists>rest. data = out @ rest \<and> (ok \<longrightarrow> rest = [])"
proof (induction vs arbitrary: data out ok vs')
  case Nil
  then show ?case by simp
next
  case (Cons v vs)
  show ?case
  proof (cases "data = [] \<or> v = None")
    case True
    with Cons.prems show ?thesis by (auto split: if_splits)
  next
    case False
    then obtain k where k: "v = Some k" by auto
    obtain o1 ok1 vs1 where s: "send_loop vs (drop k data) = (o1, ok1, vs1)" by (metis surj_pair)
    from Cons.IH [OF s] obtain rest where "drop k data = o1 @ rest" "ok1 \<longrightarrow> rest = []" by auto
    with Cons.prems False k s show ?thesis
      by (metis (no_types, lifting) append.assoc append_take_drop_id option.simps(5) prod.inject
          send_loop.simps(2) split_conv)
  qed
qed

lemma send_loop_reliable:
  assumes "None \<notin> set vs"
  shows "\<exists>vs'. send_loop vs data = (data, True, vs') \<and> set vs' \<subseteq> set vs"
  using assms
proof (induction vs arbitrary: data)
  case Nil
  then show ?case by simp
next
  case (Cons v vs)
  then obtain k where k: "v = Some k" by (cases v) auto
  from Cons.IH [of "drop k data"] Cons.prems
  obtain vs' where "send_loop vs (drop k data) = (drop k data, True, vs')" "set vs' \<subseteq> set vs" by auto
  with k show ?case by auto
qed

section \<open>Frames\<close>

text \<open>
  A message on the wire: its length in network byte order, then the flatbuffer. Both sides
  write it with two calls of \<^verbatim>\<open>send_all\<close> and read it with two loops.
\<close>

definition frame :: "byte list \<Rightarrow> byte list" where
  "frame b = store32 (htonl (word_of_nat (length b))) @ b"

lemma length_frame: "length (frame b) = 4 + length b"
  by (simp add: frame_def)

lemma frame_size:
  "length b < 2 ^ 32 \<Longrightarrow> unat (ntohl (load32 (take 4 (frame b @ rest)))) = length b"
  by (simp add: frame_def unat_of_nat)

section \<open>The generated flatbuffers code\<close>

text \<open>
  \<^verbatim>\<open>TCPBladeMessage_generated.h\<close> is generated by \<^verbatim>\<open>flatc\<close>: building and finishing a
  message is a function \<open>enc\<close> to bytes, \<^verbatim>\<open>GetTCPBladeMessage\<close> on a received buffer is a
  partial function \<open>dec\<close> (no verifier is run: a malformed buffer is read out of bounds).
  Flatbuffers documents that a reader gets back what was built, and that a buffer is
  smaller than 2 GB; the bound on the payload leaves room for the tables.
\<close>

definition payload_size :: "tcp_message \<Rightarrow> nat" where
  "payload_size m =
     (case m of
        Write _ d \<Rightarrow> length d
      | WriteBulk _ oids d \<Rightarrow> 8 * length oids + length d
      | ReadAck _ _ d \<Rightarrow> length d
      | ReadBulk _ oids \<Rightarrow> 8 * length oids
      | ReadBulkAck _ d \<Rightarrow> length d
      | _ \<Rightarrow> 0)"

definition msg_fits :: "TCPBladeMessage \<Rightarrow> bool" where
  "msg_fits m \<longleftrightarrow> payload_size (message m) < 2 ^ 30"

definition flatbuffers_documented ::
  "(TCPBladeMessage \<Rightarrow> byte list) \<Rightarrow> (byte list \<Rightarrow> TCPBladeMessage option) \<Rightarrow> bool" where
  "flatbuffers_documented enc dec \<longleftrightarrow>
     (\<forall>m. msg_fits m \<longrightarrow> length (enc m) < 2 ^ 31 \<and> dec (enc m) = Some m)"

text \<open>A plain encoding with these properties, for the witnesses.\<close>

fun wire_body :: "tcp_message \<Rightarrow> byte list" where
  "wire_body (Write oid d) = 0 # store64 oid @ d"
| "wire_body (WriteAck oid b) = 1 # store64 oid @ [b]"
| "wire_body (WriteBulk n oids d) =
     2 # store64 n @ store32 (word_of_nat (length oids)) @ concat (map store64 oids) @ d"
| "wire_body (WriteBulkAck b) = [3, b]"
| "wire_body (Read oid) = 4 # store64 oid"
| "wire_body (ReadAck oid b d) = 5 # store64 oid @ b # d"
| "wire_body (ReadBulk n oids) =
     6 # store64 n @ store32 (word_of_nat (length oids)) @ concat (map store64 oids)"
| "wire_body (ReadBulkAck b d) = 7 # b # d"
| "wire_body (Remove oid) = 8 # store64 oid"
| "wire_body (RemoveAck oid b) = 9 # store64 oid @ [b]"

definition wire_encode :: "TCPBladeMessage \<Rightarrow> byte list" where
  "wire_encode m = store64 (txnid m) @ store64 (error_code m) @ wire_body (message m)"

fun load64s :: "nat \<Rightarrow> byte list \<Rightarrow> u64 list" where
  "load64s 0 bs = []"
| "load64s (Suc n) bs = load64 (take 8 bs) # load64s n (drop 8 bs)"

definition wire_message :: "byte \<Rightarrow> byte list \<Rightarrow> tcp_message option" where
  "wire_message tag bs =
     (let w = load64 (take 8 bs); r = drop 8 bs;
          n = unat (load32 (take 4 r)); oids = load64s n (drop 4 r); d = drop (4 + 8 * n) r
      in if tag = 0 then Some (Write w r)
         else if tag = 1 then Some (WriteAck w (hd r))
         else if tag = 2 then Some (WriteBulk w oids d)
         else if tag = 3 then Some (WriteBulkAck (hd bs))
         else if tag = 4 then Some (Read w)
         else if tag = 5 then Some (ReadAck w (hd r) (tl r))
         else if tag = 6 then Some (ReadBulk w oids)
         else if tag = 7 then Some (ReadBulkAck (hd bs) (tl bs))
         else if tag = 8 then Some (Remove w)
         else if tag = 9 then Some (RemoveAck w (hd r))
         else None)"

definition wire_decode :: "byte list \<Rightarrow> TCPBladeMessage option" where
  "wire_decode bs =
     (if length bs < 17 then None
      else map_option (\<lambda>m. \<lparr>txnid = load64 (take 8 bs), error_code = load64 (take 8 (drop 8 bs)),
                            message = m\<rparr>)
             (wire_message (bs ! 16) (drop 17 bs)))"

lemma load64s_concat: "load64s (length ws) (concat (map store64 ws) @ d) = ws"
  by (induction ws) simp_all

lemma length_concat_store64 [simp]: "length (concat (map store64 ws)) = 8 * length ws"
  by (induction ws) simp_all

lemma wire_message_body:
  assumes "payload_size m < 2 ^ 30"
  shows "wire_message (hd (wire_body m)) (tl (wire_body m)) = Some m"
    and "wire_body m \<noteq> []" and "length (wire_body m) < 2 ^ 30 + 100"
  using assms load64s_concat [of _ "[]"]
  by (cases m; simp add: wire_message_def payload_size_def Let_def unat_of_nat load64s_concat)+

lemma wire_documented: "flatbuffers_documented wire_encode wire_decode"
  unfolding flatbuffers_documented_def
proof (intro allI impI conjI)
  fix m
  assume "msg_fits m"
  then have f: "payload_size (message m) < 2 ^ 30" by (simp add: msg_fits_def)
  note wire_message_body [OF f]
  then show "length (wire_encode m) < 2 ^ 31" by (simp add: wire_encode_def)
  obtain tag body where b: "wire_body (message m) = tag # body"
    using wire_message_body(2) [OF f] by (cases "wire_body (message m)") auto
  then have "wire_message tag body = Some (message m)" using wire_message_body(1) [OF f] by simp
  then show "wire_decode (wire_encode m) = Some m"
    by (simp add: wire_decode_def wire_encode_def b nth_append)
qed

end
