(* ===== verification/TCP_Server_Loop.thy ===== *)
theory TCP_Server_Loop
  imports Socket_IO
begin

text \<open>
  The connection handling of \<^verbatim>\<open>src/src/server/TCPServer.cpp\<close>: the constructor, \<^verbatim>\<open>init\<close>,
  \<^verbatim>\<open>process\<close> (read a frame, handle the message, send the answer), \<^verbatim>\<open>testRemove\<close> and the
  body of the poll loop, and the argument handling of \<^verbatim>\<open>src/src/server/TCPServerMain.cpp\<close>.
\<close>

section \<open>Connections\<close>

record conn =
  inb :: stream
  outb :: "byte list"
  verdicts :: send_verdicts
  closed :: bool

section \<open>Reading and sending\<close>

definition server_read_all :: "nat \<Rightarrow> conn \<Rightarrow> (byte list, conn) outcome option" where
  "server_read_all len c =
     map_option (\<lambda>(r, cs). case r of
         None \<Rightarrow> Throw (Exception ''Error reading from client'') (c\<lparr>inb := cs\<rparr>)
       | Some b \<Rightarrow> Ok b (c\<lparr>inb := cs\<rparr>))
       (recv_loop len [] (inb c))"

definition server_send_all :: "byte list \<Rightarrow> conn \<Rightarrow> int \<times> conn" where
  "server_send_all data c =
     (case send_loop (verdicts c) data of
        (out, ok, vs) \<Rightarrow>
          (if ok then int (length data) else -1, c\<lparr>outb := outb c @ out, verdicts := vs\<rparr>))"

text \<open>
  The header of a message; the value is \<open>None\<close> when the first \<^verbatim>\<open>read\<close> returns 0 and the
  socket is closed.
\<close>

definition read_from_client :: "conn \<Rightarrow> (byte list option, conn) outcome option" where
  "read_from_client c =
     (case sock_read 4 (inb c) of
        (None, cs) \<Rightarrow>
          Some (Throw (Exception ''Server issue in reading socket during size read.'')
            (c\<lparr>inb := cs\<rparr>))
      | (Some b, cs) \<Rightarrow>
          if b = [] then Some (Ok None (c\<lparr>inb := cs, closed := True\<rparr>))
          else map_option (\<lambda>(r, cs'). case r of
                   None \<Rightarrow> Throw (Exception ''Server issue in reading socket during size read.'')
                             (c\<lparr>inb := cs'\<rparr>)
                 | Some hdr \<Rightarrow> Ok (Some hdr) (c\<lparr>inb := cs'\<rparr>))
                 (recv_loop 4 b cs))"

section \<open>TCPServer::process\<close>

text \<open>
  The answer: its size, then the message; a failed \<^verbatim>\<open>send\<close> makes \<^verbatim>\<open>process\<close> return false.
\<close>

definition send_reply :: "byte list \<Rightarrow> conn \<Rightarrow> bool \<times> conn" where
  "send_reply b c =
     (let (r1, c1) = server_send_all (store32 (htonl (word_of_nat (length b)))) c in
      if r1 = -1 then (False, c1)
      else let (r2, c2) = server_send_all b c1 in (r2 = int (length b), c2))"

definition process ::
  "'b storage_backend \<Rightarrow> (TCPBladeMessage \<Rightarrow> byte list) \<Rightarrow> (byte list \<Rightarrow> TCPBladeMessage option)
    \<Rightarrow> (nat \<Rightarrow> byte) \<Rightarrow> conn \<times> 'b tcp_server \<Rightarrow> (bool, conn \<times> 'b tcp_server) outcome option" where
  "process vt enc dec uninit cs =
     (let (c, sv) = cs in
      case read_from_client c of
        None \<Rightarrow> None
      | Some (Throw e c1) \<Rightarrow> Some (Throw e (c1, sv))
      | Some Undef \<Rightarrow> Some Undef
      | Some (Ok None c1) \<Rightarrow> Some (Ok False (c1, sv))
      | Some (Ok (Some hdr) c1) \<Rightarrow>
          (case server_read_all (unat (ntohl (load32 hdr))) c1 of
             None \<Rightarrow> None
           | Some (Throw e c2) \<Rightarrow> Some (Throw e (c2, sv))
           | Some Undef \<Rightarrow> Some Undef
           | Some (Ok buffer c2) \<Rightarrow>
               (case dec buffer of
                  None \<Rightarrow> Some Undef
                | Some msg \<Rightarrow>
                    Some (bindO (liftO (\<lambda>sv'. (c2, sv')) (process_message vt uninit msg sv))
                      (\<lambda>reply (c3, sv'). case send_reply (enc reply) c3 of
                         (ok, c4) \<Rightarrow> Ok ok (c4, sv'))))))"

lemma read_from_client_frame:
  assumes "healthy_stream (inb c)" "4 \<le> length (stream_bytes (inb c))"
  obtains cs where "read_from_client c = Some (Ok (Some (take 4 (stream_bytes (inb c)))) (c\<lparr>inb := cs\<rparr>))"
    "healthy_stream cs" "stream_bytes cs = drop 4 (stream_bytes (inb c))"
proof -
  obtain b cs1 where rd: "sock_read 4 (inb c) = (Some b, cs1)" "healthy_stream cs1"
      "stream_bytes (inb c) = b @ stream_bytes cs1" "length b \<le> 4" "b = [] \<longleftrightarrow> inb c = []"
    by (rule sock_read_healthy [of "inb c" 4]) (use assms in auto)
  then have "b \<noteq> []" using assms(2) by auto
  moreover have "4 - length b \<le> length (stream_bytes cs1)" using assms(2) rd(3) by auto
  then obtain cs where "recv_loop 4 b cs1 = Some (Some (b @ take (4 - length b) (stream_bytes cs1)), cs)"
      "healthy_stream cs" "stream_bytes cs = drop (4 - length b) (stream_bytes cs1)"
    using recv_loop_enough [OF rd(2,4)] by blast
  ultimately show ?thesis
    using rd that [of cs] by (simp add: read_from_client_def)
qed

lemma server_read_all_enough:
  assumes "healthy_stream (inb c)" "len \<le> length (stream_bytes (inb c))"
  obtains cs where "server_read_all len c = Some (Ok (take len (stream_bytes (inb c))) (c\<lparr>inb := cs\<rparr>))"
    "healthy_stream cs" "stream_bytes cs = drop len (stream_bytes (inb c))"
  using recv_loop_enough [OF assms(1), of "[]" len] assms(2) by (auto simp: server_read_all_def)

lemma send_reply_reliable:
  assumes "None \<notin> set (verdicts c)"
  obtains vs where "send_reply b c = (True, c\<lparr>outb := outb c @ frame b, verdicts := vs\<rparr>)" "None \<notin> set vs"
proof -
  obtain vs1 where 1: "send_loop (verdicts c) (store32 (htonl (word_of_nat (length b)))) =
      (store32 (htonl (word_of_nat (length b))), True, vs1)" "None \<notin> set vs1"
    using send_loop_reliable [OF assms] assms by blast
  obtain vs2 where 2: "send_loop vs1 b = (b, True, vs2)" "None \<notin> set vs2"
    using send_loop_reliable [OF 1(2)] 1(2) by blast
  from 1 2 show ?thesis
    by (intro that [of vs2]) (simp_all add: send_reply_def server_send_all_def frame_def)
qed

text \<open>
  One request over a healthy connection, however its bytes are cut into segments and
  however many calls of \<^verbatim>\<open>send\<close> the answer takes: \<^verbatim>\<open>process\<close> consumes exactly the frame of
  the request, handles the message and appends exactly the frame of the answer.
\<close>

lemma process_frame:
  assumes "flatbuffers_documented enc dec" "msg_fits msg"
    and "healthy_stream (inb c)" "stream_bytes (inb c) = frame (enc msg) @ rest"
    and "None \<notin> set (verdicts c)"
    and "process_message vt uninit msg sv = Ok reply sv'"
  shows "\<exists>cs vs. process vt enc dec uninit (c, sv) =
             Some (Ok True (c\<lparr>inb := cs, outb := outb c @ frame (enc reply), verdicts := vs\<rparr>, sv'))
           \<and> healthy_stream cs \<and> stream_bytes cs = rest \<and> None \<notin> set vs"
proof -
  have enc: "length (enc msg) < 2 ^ 31" "dec (enc msg) = Some msg"
    using assms(1,2) by (auto simp: flatbuffers_documented_def)
  obtain cs1 where 1: "read_from_client c =
        Some (Ok (Some (take 4 (stream_bytes (inb c)))) (c\<lparr>inb := cs1\<rparr>))"
      "healthy_stream cs1" "stream_bytes cs1 = drop 4 (stream_bytes (inb c))"
    by (rule read_from_client_frame [OF assms(3)]) (use assms(4) in \<open>auto simp: length_frame\<close>)
  have hdr: "unat (ntohl (load32 (take 4 (stream_bytes (inb c))))) = length (enc msg)"
    using frame_size [of "enc msg" rest] enc(1) assms(4) by simp
  have bytes: "stream_bytes cs1 = enc msg @ rest" using 1(3) assms(4) by (simp add: frame_def)
  obtain cs2 where 2: "server_read_all (length (enc msg)) (c\<lparr>inb := cs1\<rparr>) =
        Some (Ok (enc msg) (c\<lparr>inb := cs2\<rparr>))" "healthy_stream cs2" "stream_bytes cs2 = rest"
    using server_read_all_enough [of "c\<lparr>inb := cs1\<rparr>" "length (enc msg)"] 1(2) bytes by auto
  obtain vs where 3: "send_reply (enc reply) (c\<lparr>inb := cs2\<rparr>) =
        (True, c\<lparr>inb := cs2, outb := outb c @ frame (enc reply), verdicts := vs\<rparr>)" "None \<notin> set vs"
    using send_reply_reliable [of "c\<lparr>inb := cs2\<rparr>" "enc reply"] assms(5) by auto
  show ?thesis
    using 1(1) hdr 2 3 enc(2) assms(6)
    by (intro exI [of _ cs2] exI [of _ vs]) (simp add: process_def)
qed

section \<open>The poll loop\<close>

unbundle bit_operations_syntax

definition POLLIN :: int where "POLLIN = 1"

definition POLLHUP :: int where "POLLHUP = 16"

record 'b loop_state =
  srv :: "'b tcp_server"
  conns :: "(int \<times> conn) list"

text \<open>
  What the operating system answers in one round: the result of \<^verbatim>\<open>poll\<close> with the events
  of the polled entries, and the result of \<^verbatim>\<open>accept\<close> with the new connection.
\<close>

datatype poll_result = PollError | PollTimeout | PollEvents "int list"

record poll_round =
  polled :: poll_result
  accepted :: int
  accepted_conn :: conn

definition conn_at :: "int \<Rightarrow> (int \<times> conn) list \<Rightarrow> conn" where
  "conn_at s cs =
     (case map_of cs s of Some c \<Rightarrow> c
      | None \<Rightarrow> \<lparr>inb = [ReadError], outb = [], verdicts = [], closed = True\<rparr>)"

definition close_sock :: "int \<Rightarrow> 'b loop_state \<Rightarrow> 'b loop_state" where
  "close_sock s st =
     (case map_of (conns st) s of None \<Rightarrow> st
      | Some c \<Rightarrow> st\<lparr>conns := AList.update s (c\<lparr>closed := True\<rparr>) (conns st)\<rparr>)"

text \<open>\<^verbatim>\<open>fds.at(i) = x\<close>\<close>

definition set_fd :: "nat \<Rightarrow> (pollfd \<Rightarrow> pollfd) \<Rightarrow> 'b loop_state \<Rightarrow> 'b loop_state" where
  "set_fd i f st = st\<lparr>srv := (srv st)\<lparr>fds := (fds (srv st))[i := f (fds (srv st) ! i)]\<rparr>\<rparr>"

text \<open>\<^verbatim>\<open>poll\<close> writes the events of the first \<^verbatim>\<open>curr_index\<close> entries; an ignored entry has none.\<close>

definition set_revents :: "nat \<Rightarrow> int list \<Rightarrow> pollfd list \<Rightarrow> pollfd list" where
  "set_revents n rs ps =
     map (\<lambda>(i, p). if i < n then p\<lparr>revents := (if fd p < 0 \<or> i \<ge> length rs then 0 else rs ! i)\<rparr> else p)
       (enumerate 0 ps)"

text \<open>A new connection: rejected at capacity, otherwise entered at \<^verbatim>\<open>curr_index\<close>.\<close>

definition accept_conn :: "poll_round \<Rightarrow> 'b loop_state \<Rightarrow> (unit, 'b loop_state) outcome" where
  "accept_conn ev st =
     (let sv = srv st; newsock = accepted ev in
      if newsock < 0 then Throw (runtime_error ''Error accepting socket'') st
      else
        let st1 = st\<lparr>conns := AList.update newsock (accepted_conn ev) (conns st)\<rparr> in
        if curr_index sv = max_fds sv then Ok () (close_sock newsock st1)
        else if unat (curr_index sv) \<ge> length (fds sv) then Throw (out_of_range ''vector::at'') st1
        else
          let st2 = set_fd (unat (curr_index sv)) (\<lambda>p. p\<lparr>fd := newsock, events := POLLIN\<rparr>) st1 in
          Ok () (st2\<lparr>srv := (srv st2)\<lparr>curr_index := curr_index sv + 1\<rparr>\<rparr>))"

definition process_conn ::
  "'b storage_backend \<Rightarrow> (TCPBladeMessage \<Rightarrow> byte list) \<Rightarrow> (byte list \<Rightarrow> TCPBladeMessage option)
    \<Rightarrow> (nat \<Rightarrow> byte) \<Rightarrow> int \<Rightarrow> 'b loop_state \<Rightarrow> (bool, 'b loop_state) outcome option" where
  "process_conn vt enc dec uninit s st =
     map_option (liftO (\<lambda>(c, sv). st\<lparr>srv := sv, conns := AList.update s c (conns st)\<rparr>))
       (process vt enc dec uninit (conn_at s (conns st), srv st))"

text \<open>The body of the \<^verbatim>\<open>for\<close> loop, for the entry \<open>i\<close>.\<close>

definition poll_entry ::
  "'b storage_backend \<Rightarrow> (TCPBladeMessage \<Rightarrow> byte list) \<Rightarrow> (byte list \<Rightarrow> TCPBladeMessage option)
    \<Rightarrow> (nat \<Rightarrow> byte) \<Rightarrow> poll_round \<Rightarrow> nat \<Rightarrow> 'b loop_state \<Rightarrow> (unit, 'b loop_state) outcome option" where
  "poll_entry vt enc dec uninit ev i st =
     (let p = fds (srv st) ! i; reset = set_fd i (\<lambda>p. p\<lparr>revents := 0\<rparr>);
          ignore = set_fd i (\<lambda>p. p\<lparr>fd := -1\<rparr>) in
      if fd p = -1 then Some (Ok () st)
      else if revents p \<noteq> POLLIN then
        Some (Ok () (reset (if revents p AND POLLHUP \<noteq> 0 then ignore (close_sock (fd p) st) else st)))
      else if fd p = server_sock (srv st) then
        Some (bindO (accept_conn ev st) (\<lambda>_ st1. Ok () (reset st1)))
      else map_option (\<lambda>m. bindO m (\<lambda>ok st1. Ok () (reset (if ok then st1 else ignore st1))))
             (process_conn vt enc dec uninit (fd p) st))"

text \<open>
  \<^verbatim>\<open>for (i = 0; i < curr_index; i++)\<close>: \<open>is\<close> are the indices from \<open>i\<close> on that the vector
  has; the bound is read again in every turn, since \<^verbatim>\<open>accept\<close> moves it.
\<close>

fun poll_scan ::
  "'b storage_backend \<Rightarrow> (TCPBladeMessage \<Rightarrow> byte list) \<Rightarrow> (byte list \<Rightarrow> TCPBladeMessage option)
    \<Rightarrow> (nat \<Rightarrow> byte) \<Rightarrow> poll_round \<Rightarrow> nat list \<Rightarrow> 'b loop_state
    \<Rightarrow> (unit, 'b loop_state) outcome option" where
  "poll_scan vt enc dec uninit ev [] st =
     (if length (fds (srv st)) < unat (curr_index (srv st))
      then Some (Throw (out_of_range ''vector::at'') st) else Some (Ok () st))"
| "poll_scan vt enc dec uninit ev (i # is) st =
     (if i < unat (curr_index (srv st))
      then (case poll_entry vt enc dec uninit ev i st of
              Some (Ok _ st') \<Rightarrow> poll_scan vt enc dec uninit ev is st'
            | r \<Rightarrow> r)
      else Some (Ok () st))"

section \<open>Purging the table\<close>

definition testRemove :: "pollfd \<Rightarrow> 'b tcp_server \<Rightarrow> bool \<times> 'b tcp_server" where
  "testRemove x sv =
     (fd x = -1, if fd x = -1 then sv\<lparr>curr_index := curr_index sv - 1\<rparr> else sv)"

text \<open>\<^verbatim>\<open>std::remove_if\<close>: the elements it keeps, in order; the predicate has a state.\<close>

fun remove_if :: "('x \<Rightarrow> 's \<Rightarrow> bool \<times> 's) \<Rightarrow> 'x list \<Rightarrow> 's \<Rightarrow> 'x list \<times> 's" where
  "remove_if p [] s = ([], s)"
| "remove_if p (x # xs) s =
     (let (drops, s') = p x s; (ys, s'') = remove_if p xs s' in (if drops then ys else x # ys, s''))"

text \<open>
  The kept elements move to the front and nothing is erased: the entries behind them keep
  what they held.
\<close>

definition purge :: "'b tcp_server \<Rightarrow> 'b tcp_server" where
  "purge sv =
     (if curr_index sv = max_fds sv
      then let (ys, sv') = remove_if testRemove (fds sv) sv in
           sv'\<lparr>fds := ys @ drop (length ys) (fds sv)\<rparr>
      else sv)"

text \<open>One turn of \<^verbatim>\<open>while (1)\<close>, and the turns for a sequence of rounds.\<close>

definition loop_iter ::
  "'b storage_backend \<Rightarrow> (TCPBladeMessage \<Rightarrow> byte list) \<Rightarrow> (byte list \<Rightarrow> TCPBladeMessage option)
    \<Rightarrow> (nat \<Rightarrow> byte) \<Rightarrow> poll_round \<Rightarrow> 'b loop_state \<Rightarrow> (unit, 'b loop_state) outcome option" where
  "loop_iter vt enc dec uninit ev st =
     (case (case polled ev of
              PollError \<Rightarrow> Some (Throw (ConnectionException ''Server error calling poll.'') st)
            | PollTimeout \<Rightarrow> Some (Ok () st)
            | PollEvents rs \<Rightarrow>
                (let st1 = st\<lparr>srv := (srv st)\<lparr>fds :=
                             set_revents (unat (curr_index (srv st))) rs (fds (srv st))\<rparr>\<rparr> in
                 poll_scan vt enc dec uninit ev [0..<length (fds (srv st1))] st1)) of
        Some (Ok _ st2) \<Rightarrow> Some (Ok () (st2\<lparr>srv := purge (srv st2)\<rparr>))
      | r \<Rightarrow> r)"

fun server_loop ::
  "'b storage_backend \<Rightarrow> (TCPBladeMessage \<Rightarrow> byte list) \<Rightarrow> (byte list \<Rightarrow> TCPBladeMessage option)
    \<Rightarrow> (nat \<Rightarrow> byte) \<Rightarrow> poll_round list \<Rightarrow> 'b loop_state \<Rightarrow> (unit, 'b loop_state) outcome option" where
  "server_loop vt enc dec uninit [] st = Some (Ok () st)"
| "server_loop vt enc dec uninit (ev # evs) st =
     (case loop_iter vt enc dec uninit ev st of
        Some (Ok _ st') \<Rightarrow> server_loop vt enc dec uninit evs st'
      | r \<Rightarrow> r)"

section \<open>The connection table\<close>

text \<open>
  A call keeps the connection table when every state it can leave behind, by returning or
  by throwing, has the same one.
\<close>

definition keeps :: "'b tcp_server \<Rightarrow> ('a, 'b tcp_server) outcome \<Rightarrow> bool" where
  "keeps sv m \<longleftrightarrow> (\<forall>s. state_of m = Some s \<longrightarrow> same_frame sv s)"

named_theorems keeps_intros

lemma keeps_bindO [keeps_intros]:
  assumes "keeps sv m" "\<And>a s. m = Ok a s \<Longrightarrow> keeps s (f a s)"
  shows "keeps sv (bindO m f)"
  using assms by (cases m) (auto simp: keeps_def dest: same_frame_trans)

lemma keeps_simps [simp]:
  "keeps sv (Ok a sv') = same_frame sv sv'"
  "keeps sv (Throw e sv') = same_frame sv sv'"
  "keeps sv Undef"
  by (auto simp: keeps_def)

lemma same_frame_updates [simp]:
  "same_frame sv sv"
  "same_frame sv (sv\<lparr>curr_size := n\<rparr>)"
  "same_frame sv (sv\<lparr>mem := b\<rparr>)"
  by (simp_all add: same_frame_def)

lemma keeps_on_mem [keeps_intros]: "keeps sv (on_mem f sv)"
  by (cases "f (mem sv)") (simp_all add: on_mem_def)

lemma keeps_if [keeps_intros]: "(b \<Longrightarrow> keeps sv m) \<Longrightarrow> (\<not> b \<Longrightarrow> keeps sv m') \<Longrightarrow> keeps sv (if b then m else m')"
  by simp

lemma keeps_option [keeps_intros]:
  "(x = None \<Longrightarrow> keeps sv m) \<Longrightarrow> (\<And>y. x = Some y \<Longrightarrow> keeps sv (f y)) \<Longrightarrow>
   keeps sv (case x of None \<Rightarrow> m | Some y \<Rightarrow> f y)"
  by (cases x) simp_all

lemma keeps_forget_size [keeps_intros]: "keeps sv (forget_size vt oid sv)"
  unfolding forget_size_def by (intro keeps_intros) simp_all

lemma keeps_get_object [keeps_intros]: "keeps sv (get_object vt oid sv)"
  unfolding get_object_def by (intro keeps_intros) (simp split: sum.split)

lemma keeps_after: "same_frame sv s \<Longrightarrow> keeps s m \<Longrightarrow> keeps sv m"
  by (auto simp: keeps_def dest: same_frame_trans)

lemma keeps_write_bulk_loop: "keeps sv (write_bulk_loop vt data oids ptr sv)"
proof (induction oids arbitrary: ptr sv)
  case Nil
  then show ?case by simp
next
  case (Cons oid oids)
  show ?case
    unfolding write_bulk_loop.simps Let_def
    by (intro keeps_intros keeps_after [OF _ Cons.IH]) simp_all
qed

lemma keeps_read_bulk_size: "keeps sv (read_bulk_size vt oids n sv)"
proof (induction oids arbitrary: n sv)
  case Nil
  then show ?case by simp
next
  case (Cons oid oids)
  show ?case
    unfolding read_bulk_size.simps by (intro keeps_intros Cons.IH) simp_all
qed

lemma keeps_read_bulk_copy: "keeps sv (read_bulk_copy vt oids n i raw buf sv)"
proof (induction n arbitrary: i raw buf sv)
  case 0
  then show ?case by simp
next
  case (Suc n)
  show ?case
    unfolding read_bulk_copy.simps Let_def by (intro keeps_intros Suc.IH) simp_all
qed

lemma keeps_handlers:
  "keeps sv (handle_write vt oid d sv)"
  "keeps sv (handle_write_bulk vt k oids d sv)"
  "keeps sv (handle_read vt oid sv)"
  "keeps sv (handle_read_bulk vt uninit k oids sv)"
  "keeps sv (handle_remove vt oid sv)"
  unfolding handle_write_def handle_write_bulk_def handle_read_def handle_read_bulk_def
    handle_remove_def Let_def
  by ((intro keeps_intros keeps_write_bulk_loop keeps_read_bulk_size keeps_read_bulk_copy
        keeps_after [OF _ keeps_on_mem]; simp split: prod.split)+)

lemma keeps_process_message: "keeps sv (process_message vt uninit msg sv)"
  unfolding process_message_def
  by (intro keeps_bindO) (auto simp: keeps_handlers split: tcp_message.split)

lemma process_keeps:
  assumes "process vt enc dec uninit (c, sv) = Some m" "state_of m = Some (c', sv')"
  shows "same_frame sv sv'"
proof -
  have "same_frame sv s" if "state_of (process_message vt uninit msg sv) = Some s" for msg s
    using keeps_process_message that unfolding keeps_def by blast
  then show ?thesis using assms
    by (fastforce simp: process_def bindO_def liftO_def state_of_def
        split: option.splits outcome.splits prod.splits)
qed

text \<open>The vector never changes its length, and \<^verbatim>\<open>curr_index\<close> stays inside it.\<close>

definition fds_ok :: "'b tcp_server \<Rightarrow> bool" where
  "fds_ok sv \<longleftrightarrow> length (fds sv) = unat (max_fds sv) \<and> curr_index sv \<le> max_fds sv"

lemma fds_ok_frame: "same_frame sv sv' \<Longrightarrow> fds_ok sv' = fds_ok sv"
  by (simp add: same_frame_def fds_ok_def)

lemma fds_ok_set_fd [simp]: "fds_ok (srv (set_fd i f st)) = fds_ok (srv st)"
  by (simp add: set_fd_def fds_ok_def)

lemma srv_close_sock [simp]: "srv (close_sock s st) = srv st"
  by (simp add: close_sock_def split: option.split)

lemma length_set_revents [simp]: "length (set_revents n rs ps) = length ps"
  by (simp add: set_revents_def)

lemma fds_ok_set_revents: "fds_ok (sv\<lparr>fds := set_revents n rs (fds sv)\<rparr>) = fds_ok sv"
  by (simp add: fds_ok_def)

lemma set_fd_srv:
  "srv (set_fd i f st) = (srv st)\<lparr>fds := (fds (srv st))[i := f (fds (srv st) ! i)]\<rparr>"
  by (simp add: set_fd_def)

lemma word_less_suc: "(c :: u64) < m \<Longrightarrow> c + 1 \<le> m"
  by (metis inc_le)

lemma accept_conn_ok:
  assumes "fds_ok (srv st)"
  shows "accept_conn ev st \<noteq> Throw (out_of_range s) st'"
    and "state_of (accept_conn ev st) = Some st' \<Longrightarrow> fds_ok (srv st')"
proof -
  have bnd: "unat (curr_index (srv st)) < length (fds (srv st))" if "curr_index (srv st) \<noteq> max_fds (srv st)"
    using assms that by (auto simp: fds_ok_def word_le_nat_alt word_unat_eq_iff)
  then show "accept_conn ev st \<noteq> Throw (out_of_range s) st'"
    by (auto simp: accept_conn_def Let_def)
  assume "state_of (accept_conn ev st) = Some st'"
  with assms bnd show "fds_ok (srv st')"
    by (auto simp: accept_conn_def Let_def fds_ok_def set_fd_def intro!: word_less_suc
        split: if_splits)
qed

lemma process_conn_ok:
  assumes "fds_ok (srv st)" "process_conn vt enc dec uninit s st = Some m" "state_of m = Some st'"
  shows "fds_ok (srv st')"
proof -
  obtain m0 where m0: "process vt enc dec uninit (conn_at s (conns st), srv st) = Some m0"
      "m = liftO (\<lambda>(c, sv). st\<lparr>srv := sv, conns := AList.update s c (conns st)\<rparr>) m0"
    using assms(2) by (auto simp: process_conn_def)
  with assms(3) obtain c sv where "state_of m0 = Some (c, sv)" "srv st' = sv"
    by (cases m0) auto
  with process_keeps [OF m0(1)] assms(1) show ?thesis by (simp add: fds_ok_frame)
qed

lemma poll_entry_ok:
  assumes "fds_ok (srv st)" "poll_entry vt enc dec uninit ev i st = Some m" "state_of m = Some st'"
  shows "fds_ok (srv st')"
proof -
  let ?p = "fds (srv st) ! i"
  consider "fd ?p = -1" | "fd ?p \<noteq> -1" "revents ?p \<noteq> POLLIN"
    | "fd ?p \<noteq> -1" "revents ?p = POLLIN" "fd ?p = server_sock (srv st)"
    | "fd ?p \<noteq> -1" "revents ?p = POLLIN" "fd ?p \<noteq> server_sock (srv st)" by blast
  then show ?thesis
  proof cases
    case 1
    with assms show ?thesis by (auto simp: poll_entry_def)
  next
    case 2
    with assms show ?thesis by (auto simp: poll_entry_def Let_def)
  next
    case 3
    with assms accept_conn_ok(2) [OF assms(1), of ev] show ?thesis
      by (cases "accept_conn ev st") (auto simp: poll_entry_def Let_def)
  next
    case 4
    with assms(2) obtain m0 where "process_conn vt enc dec uninit (fd ?p) st = Some m0"
        "m = bindO m0 (\<lambda>ok st1. Ok () (set_fd i (\<lambda>p. p\<lparr>revents := 0\<rparr>)
               (if ok then st1 else set_fd i (\<lambda>p. p\<lparr>fd := -1\<rparr>) st1)))"
      by (auto simp: poll_entry_def Let_def)
    with assms(3) process_conn_ok [OF assms(1)] show ?thesis
      by (cases m0) auto
  qed
qed

lemma poll_scan_ok:
  assumes "fds_ok (srv st)" "poll_scan vt enc dec uninit ev is st = Some m" "state_of m = Some st'"
  shows "fds_ok (srv st')"
  using assms
proof (induction "is" arbitrary: st)
  case Nil
  then show ?case by (auto split: if_splits)
next
  case (Cons i "is")
  show ?case
  proof (cases "i < unat (curr_index (srv st))")
    case False
    with Cons.prems show ?thesis by auto
  next
    case True
    with Cons.prems obtain m0 where m0: "poll_entry vt enc dec uninit ev i st = Some m0"
      by (auto split: option.splits)
    with True Cons show ?thesis
      using poll_entry_ok [OF Cons.prems(1) m0] by (cases m0) auto
  qed
qed

section \<open>What the purge keeps\<close>

definition live :: "'b tcp_server \<Rightarrow> pollfd list" where
  "live sv = filter (\<lambda>p. fd p \<noteq> -1) (take (unat (curr_index sv)) (fds sv))"

lemma remove_if_testRemove:
  "remove_if testRemove ps sv =
     (filter (\<lambda>p. fd p \<noteq> -1) ps,
      sv\<lparr>curr_index := curr_index sv - word_of_nat (length (filter (\<lambda>p. fd p = -1) ps))\<rparr>)"
proof (induction ps arbitrary: sv)
  case Nil
  then show ?case by simp
next
  case (Cons p ps)
  then show ?case by (simp add: testRemove_def Let_def diff_diff_add)
qed

lemma purge_full:
  assumes "fds_ok sv" "curr_index sv = max_fds sv"
  shows "fds (purge sv) = live sv @ drop (length (live sv)) (fds sv)"
    and "unat (curr_index (purge sv)) = length (live sv)"
    and "live (purge sv) = live sv"
proof -
  have len: "unat (curr_index sv) = length (fds sv)" and live: "live sv = filter (\<lambda>p. fd p \<noteq> -1) (fds sv)"
    using assms by (auto simp: fds_ok_def live_def)
  have sum: "length (live sv) + length (filter (\<lambda>p. fd p = -1) (fds sv)) = length (fds sv)"
    using sum_length_filter_compl [of "\<lambda>p. fd p = -1" "fds sv"] live by simp
  show f: "fds (purge sv) = live sv @ drop (length (live sv)) (fds sv)"
    using assms(2) live by (simp add: purge_def remove_if_testRemove)
  have "unat (word_of_nat (length (filter (\<lambda>p. fd p = -1) (fds sv))) :: u64) =
      length (filter (\<lambda>p. fd p = -1) (fds sv))"
    using sum len unsigned_less [of "curr_index sv", where 'a = nat] by (simp add: unat_of_nat)
  then show c: "unat (curr_index (purge sv)) = length (live sv)"
    using assms(2) sum len
    by (simp add: purge_def remove_if_testRemove unat_sub word_le_nat_alt)
  show "live (purge sv) = live sv"
    unfolding live_def [of "purge sv"] c f by (simp add: live_def)
qed

lemma fds_ok_purge:
  assumes "fds_ok sv"
  shows "fds_ok (purge sv)"
proof (cases "curr_index sv = max_fds sv")
  case True
  have "max_fds (purge sv) = max_fds sv" "length (live sv) \<le> length (fds sv)"
    by (auto simp: purge_def remove_if_testRemove live_def intro: le_trans [OF length_filter_le])
  with purge_full [OF assms True] assms show ?thesis
    by (simp add: fds_ok_def word_le_nat_alt)
next
  case False
  with assms show ?thesis by (simp add: purge_def)
qed

lemma loop_iter_ok:
  assumes "fds_ok (srv st)" "loop_iter vt enc dec uninit ev st = Some m" "state_of m = Some st'"
  shows "fds_ok (srv st')"
proof (cases "polled ev")
  case (PollEvents rs)
  let ?st = "st\<lparr>srv := (srv st)\<lparr>fds := set_revents (unat (curr_index (srv st))) rs (fds (srv st))\<rparr>\<rparr>"
  obtain m0 where m0: "poll_scan vt enc dec uninit ev [0..<length (fds (srv st))] ?st = Some m0"
    using assms(2) PollEvents by (auto simp: loop_iter_def Let_def split: option.splits)
  have "fds_ok (srv s)" if "state_of m0 = Some s" for s
    by (rule poll_scan_ok [OF _ m0 that]) (use assms(1) in \<open>simp add: fds_ok_set_revents\<close>)
  with assms(2,3) PollEvents m0 show ?thesis
    by (cases m0) (auto simp: loop_iter_def Let_def fds_ok_purge)
qed (use assms in \<open>auto simp: loop_iter_def fds_ok_purge\<close>)

lemma server_loop_ok:
  assumes "fds_ok (srv st)" "server_loop vt enc dec uninit evs st = Some m" "state_of m = Some st'"
  shows "fds_ok (srv st')"
  using assms
proof (induction evs arbitrary: st)
  case Nil
  then show ?case by auto
next
  case (Cons ev evs)
  then obtain m0 where m0: "loop_iter vt enc dec uninit ev st = Some m0"
    by (auto split: option.splits)
  have "fds_ok (srv s)" if "m0 = Ok u s" for u s
    using loop_iter_ok [OF Cons.prems(1) m0, of s] that by simp
  moreover have "fds_ok (srv s)" if "m0 = Throw e s" for e s
    using loop_iter_ok [OF Cons.prems(1) m0, of s] that by simp
  ultimately show ?case using Cons m0 by (cases m0) auto
qed

section \<open>Constructor, init and main\<close>

text \<open>The \<^verbatim>\<open>unique_ptr\<close> to a storage backend: one of the two classes, called virtually.\<close>

datatype 'db any_backend = MemoryB memory_backend | StorageB 'db

definition any_vt :: "'db rocksdb \<Rightarrow> 'db any_backend storage_backend" where
  "any_vt api =
     \<lparr>sb_put = (\<lambda>oid sl b. case b of MemoryB m \<Rightarrow> liftO MemoryB (sb_put memory_vt oid sl m)
                | StorageB db \<Rightarrow> liftO StorageB (sb_put (nv_vt api) oid sl db)),
      sb_exists = (\<lambda>oid b. case b of MemoryB m \<Rightarrow> sb_exists memory_vt oid m
                | StorageB db \<Rightarrow> sb_exists (nv_vt api) oid db),
      sb_get = (\<lambda>oid b. case b of MemoryB m \<Rightarrow> liftO MemoryB (sb_get memory_vt oid m)
                | StorageB db \<Rightarrow> liftO StorageB (sb_get (nv_vt api) oid db)),
      sb_delet = (\<lambda>oid b. case b of MemoryB m \<Rightarrow> liftO MemoryB (sb_delet memory_vt oid m)
                | StorageB db \<Rightarrow> liftO StorageB (sb_delet (nv_vt api) oid db)),
      sb_size = (\<lambda>oid b. case b of MemoryB m \<Rightarrow> liftO MemoryB (sb_size memory_vt oid m)
                | StorageB db \<Rightarrow> liftO StorageB (sb_size (nv_vt api) oid db))\<rparr>"

fun any_kv :: "('db \<Rightarrow> (ObjectID \<rightharpoonup> byte list)) \<Rightarrow> 'db any_backend \<Rightarrow> (ObjectID \<rightharpoonup> byte list)" where
  "any_kv kv (MemoryB m) = memory_kv m"
| "any_kv kv (StorageB db) = kv db"

fun any_inv :: "('db \<Rightarrow> bool) \<Rightarrow> 'db any_backend \<Rightarrow> bool" where
  "any_inv iv (MemoryB m) = memory_inv m"
| "any_inv iv (StorageB db) = iv db"

text \<open>Dispatch keeps the contract: whichever class is behind the pointer, its laws hold.\<close>

lemma any_backend_contract:
  assumes "kv_backend (nv_vt api) kv iv"
  shows "kv_backend (any_vt api) (any_kv kv) (any_inv iv)"
proof -
  note nv = kv_backend.kv_finite [OF assms] kv_backend.kv_fits [OF assms]
    kv_backend.kv_exists [OF assms] kv_backend.kv_size [OF assms]
  note me = mb.kv_finite mb.kv_fits mb.kv_exists mb.kv_size
  show ?thesis
  proof
    fix b oid d
    assume "any_inv iv b" "any_kv kv b oid = Some d"
    then show "\<exists>sl. sb_get (any_vt api) oid b = Ok sl b \<and> slice_get sl = Inr d"
      using mb.kv_get kv_backend.kv_get [OF assms] by (cases b) (fastforce simp: any_vt_def)+
  next
    fix b oid sl d
    assume "any_inv iv b" "slice_get sl = Inr d" "fits_memory d"
    then show "\<exists>b'. sb_put (any_vt api) oid sl b = Ok True b' \<and> any_inv iv b'
        \<and> any_kv kv b' = (any_kv kv b)(oid \<mapsto> d)"
      using mb.kv_put [of _ sl d oid] kv_backend.kv_put [OF assms, of _ sl d oid]
      by (cases b) (fastforce simp: any_vt_def)+
  next
    fix b oid d
    assume "any_inv iv b" "any_kv kv b oid = Some d"
    then show "\<exists>b'. sb_delet (any_vt api) oid b = Ok True b' \<and> any_inv iv b'
        \<and> any_kv kv b' = (any_kv kv b)(oid := None)"
      using mb.kv_delet [of _ oid d] kv_backend.kv_delet [OF assms, of _ oid d]
      by (cases b) (fastforce simp: any_vt_def)+
  next
    fix b oid d
    show "any_inv iv b \<Longrightarrow> finite (dom (any_kv kv b))"
      "any_inv iv b \<Longrightarrow> any_kv kv b oid = Some d \<Longrightarrow> fits_memory d"
      "any_inv iv b \<Longrightarrow> sb_exists (any_vt api) oid b \<longleftrightarrow> any_kv kv b oid \<noteq> None"
      "any_inv iv b \<Longrightarrow> any_kv kv b oid = Some d \<Longrightarrow>
         sb_size (any_vt api) oid b = Ok (word_of_nat (length d)) b"
      by (cases b; auto simp: any_vt_def nv me)+
  qed
qed

text \<open>
  The constructor; a failure is the left value. \<^verbatim>\<open>MemoryBackend::init\<close> does nothing.
\<close>

definition TCPServer ::
  "'db rocksdb \<Rightarrow> u64 \<Rightarrow> string \<Rightarrow> string \<Rightarrow> u64 \<Rightarrow> exn + 'db any_backend tcp_server" where
  "TCPServer api pool_size' backend storage_path max_fds' =
     (let mk = (\<lambda>b. \<lparr>server_sock = 0, pool_size = pool_size', curr_size = 0, max_fds = max_fds' + 1,
                     curr_index = 0,
                     fds = replicate (unat (max_fds' + 1)) \<lparr>fd = 0, events = 0, revents = 0\<rparr>,
                     mem = b\<rparr>) in
      if max_fds' + 1 = 0 then Inl (Exception ''Max_fds value too high, overflow occurred.'')
      else if backend = ''Memory'' then Inr (mk (MemoryB (MemoryBackend 100000000)))
      else if backend = ''Storage'' then
        (case nv_init api storage_path of
           Ok _ db \<Rightarrow> Inr (mk (StorageB db))
         | Throw e _ \<Rightarrow> Inl e
         | Undef \<Rightarrow> Inl (runtime_error ''undefined behaviour''))
      else Inl (runtime_error ''Wrong backend option''))"

text \<open>What the socket calls of \<^verbatim>\<open>init\<close> return.\<close>

record socket_calls =
  socket_ret :: int
  reuseaddr_ret :: int
  nodelay_ret :: int
  reuseport_ret :: int
  bind_ret :: int
  listen_ret :: int

definition server_init :: "socket_calls \<Rightarrow> string \<Rightarrow> 'b tcp_server \<Rightarrow> (unit, 'b tcp_server) outcome" where
  "server_init os port sv =
     (let sv1 = sv\<lparr>server_sock := socket_ret os\<rparr>; i = unat (curr_index sv1) in
      if socket_ret os < 0 then Throw (ConnectionException ''Server error creating socket'') sv1
      else if reuseaddr_ret os \<noteq> 0 then Throw (ConnectionException ''Error forcing port binding'') sv1
      else if nodelay_ret os \<noteq> 0 then Throw (ConnectionException ''Error setting socket options.'') sv1
      else if reuseport_ret os \<noteq> 0 then Throw (ConnectionException ''Error forcing port binding'') sv1
      else if bind_ret os < 0 then Throw (ConnectionException (''Error binding in port '' @ port)) sv1
      else if listen_ret os = -1 then Throw (ConnectionException (''Error listening on port '' @ port)) sv1
      else if i \<ge> length (fds sv1) then Throw (out_of_range ''vector::at'') sv1
      else Ok () (sv1\<lparr>fds := (fds sv1)[i := (fds sv1 ! i)\<lparr>fd := socket_ret os, events := POLLIN\<rparr>],
                      curr_index := curr_index sv1 + 1\<rparr>))"

text \<open>
  \<^verbatim>\<open>iss >> pool_size\<close>: white space, a sign, decimal digits; extraction fails without a
  digit or out of the range of \<^verbatim>\<open>uint64_t\<close>, and a minus sign negates modulo the range.
\<close>

definition is_space :: "char \<Rightarrow> bool" where
  "is_space c \<longleftrightarrow> of_char c \<in> {9, 10, 11, 12, 13, 32 :: nat}"

definition is_digit :: "char \<Rightarrow> bool" where
  "is_digit c \<longleftrightarrow> 48 \<le> (of_char c :: nat) \<and> (of_char c :: nat) \<le> 57"

definition extract_u64 :: "string \<Rightarrow> u64 option" where
  "extract_u64 s =
     (let s1 = dropWhile is_space s;
          neg = (s1 \<noteq> [] \<and> hd s1 = CHR ''-'');
          s2 = (if s1 \<noteq> [] \<and> (hd s1 = CHR ''-'' \<or> hd s1 = CHR ''+'') then tl s1 else s1);
          ds = takeWhile is_digit s2;
          n = foldl (\<lambda>acc c. 10 * acc + (of_char c - 48)) (0 :: nat) ds in
      if ds = [] \<or> n \<ge> 2 ^ 64 then None
      else Some (if neg then - word_of_nat n else word_of_nat n))"

definition MB :: u64 where "MB = 1024 * 1024"

definition GB :: u64 where "GB = 1024 * MB"

text \<open>
  The arguments of the server program: it exits, throws, or starts a server with a pool
  size, a backend and a storage path. The cases of the \<^verbatim>\<open>switch\<close> fall through from the last
  argument to the first.
\<close>

datatype main_args = Exits int | Starts u64 string string

definition parse_pool :: "string \<Rightarrow> string \<Rightarrow> string \<Rightarrow> main_args" where
  "parse_pool arg backend path =
     (case extract_u64 arg of None \<Rightarrow> Exits (-1) | Some n \<Rightarrow> Starts (n * MB) backend path)"

fun tcpservermain :: "string list \<Rightarrow> exn + main_args" where
  "tcpservermain [prog] = Inr (Starts (10 * GB) ''Memory'' ''/tmp/cirrus_storage'')"
| "tcpservermain [prog, a1] = Inr (parse_pool a1 ''Memory'' ''/tmp/cirrus_storage'')"
| "tcpservermain [prog, a1, a2] =
     (if a2 \<noteq> ''Memory'' \<and> a2 \<noteq> ''Storage'' then Inl (runtime_error ''Wrong backend type'')
      else Inr (parse_pool a1 a2 ''/tmp/cirrus_storage''))"
| "tcpservermain [prog, a1, a2, a3] =
     (if a2 \<noteq> ''Memory'' \<and> a2 \<noteq> ''Storage'' then Inl (runtime_error ''Wrong backend type'')
      else Inr (parse_pool a1 a2 a3))"
| "tcpservermain _ = Inl (runtime_error ''Wrong number of arguments'')"

lemma TCPServer_memory:
  assumes "max_fds' + 1 \<noteq> 0"
  obtains sv where "TCPServer api pool ''Memory'' path max_fds' = Inr sv"
    "mem sv = MemoryB (MemoryBackend 100000000)" "pool_size sv = pool" "curr_size sv = 0"
    "curr_index sv = 0" "max_fds sv = max_fds' + 1" "length (fds sv) = unat (max_fds' + 1)"
  using assms by (simp add: TCPServer_def Let_def)

lemma server_init_ok:
  assumes "fds_ok sv" "curr_index sv = 0" "max_fds sv \<noteq> 0" "server_init os port sv = Ok () sv'"
  shows "fds_ok sv' \<and> curr_index sv' = 1 \<and> map fd (take 1 (fds sv')) = [server_sock sv']
         \<and> server_sock sv' = socket_ret os \<and> mem sv' = mem sv \<and> pool_size sv' = pool_size sv
         \<and> curr_size sv' = curr_size sv"
proof -
  have "fds sv \<noteq> []" using assms(1,3) by (auto simp: fds_ok_def word_unat_eq_iff)
  then obtain p ps where "fds sv = p # ps" by (cases "fds sv") auto
  with assms show ?thesis
    by (auto simp: server_init_def Let_def fds_ok_def word_le_nat_alt split: if_splits)
qed

section \<open>Properties\<close>

lemma length_filter_less_iff: "length (filter P xs) < length xs \<longleftrightarrow> (\<exists>x \<in> set xs. \<not> P x)"
  by (induction xs) (auto simp: less_Suc_eq_le)

text \<open>
  C7. One request, from the bytes of the client to the bytes of the answer: over a
  backend that meets the contract and a healthy connection, however the request is cut into
  segments and the answer into \<^verbatim>\<open>send\<close> calls, \<^verbatim>\<open>TCPServer::process\<close> returns true, consumes
  exactly one frame, appends exactly the frame of the abstract server's answer and moves to
  the abstract server's state.
\<close>

theorem process_answers_request:
  assumes "flatbuffers_documented enc dec" and "kv_backend vt kv invar" and "invar (mem sv)"
    and "msg_fits msg" and "request_ok (message msg) (abs_of kv sv)"
    and "spec_message (message msg) (abs_of kv sv) = ((code, ack), a')"
    and "healthy_stream (inb c)" and "stream_bytes (inb c) = frame (enc msg) @ rest"
    and "None \<notin> set (verdicts c)"
  shows "\<exists>c' sv'. process vt enc dec uninit (c, sv) = Some (Ok True (c', sv'))
           \<and> stream_bytes (inb c') = rest
           \<and> outb c' = outb c @ frame (enc \<lparr>txnid = txnid msg,
                                 error_code = int_of_error_code code, message = ack\<rparr>)
           \<and> invar (mem sv') \<and> abs_of kv sv' = a' \<and> same_frame sv sv'"
proof -
  obtain sv' where "process_message vt uninit msg sv =
        Ok \<lparr>txnid = txnid msg, error_code = int_of_error_code code, message = ack\<rparr> sv'"
      "invar (mem sv')" "abs_of kv sv' = a'" "same_frame sv sv'"
    using kv_backend.process_message_refines [OF assms(2,3,5,6), of uninit]
    unfolding refines_def by blast
  with process_frame [OF assms(1,4,7,8,9), of vt uninit sv] show ?thesis by fastforce
qed

definition demo_conn :: "byte list \<Rightarrow> conn" where
  "demo_conn b = \<lparr>inb = [Segment (take 3 b), Segment (drop 3 b)], outb = [],
                  verdicts = [Some 1, Some 2], closed = False\<rparr>"

lemma demo_conn_simps [simp]:
  "3 < length b \<Longrightarrow> healthy_stream (inb (demo_conn b))"
  "stream_bytes (inb (demo_conn b)) = b" "outb (demo_conn b) = []" "None \<notin> set (verdicts (demo_conn b))"
  by (auto simp: demo_conn_def)

lemma length_demo_write [simp]: "length (wire_encode (demo_write t oid d)) = 25 + length d"
  by (simp add: wire_encode_def)

theorem process_answers_request_witness:
  "flatbuffers_documented wire_encode wire_decode
   \<and> (\<exists>c' sv'. process memory_vt wire_encode wire_decode (\<lambda>_. 0)
          (demo_conn (frame (wire_encode (demo_write 1 7 [1, 2, 3]))), demo_server) =
          Some (Ok True (c', sv'))
        \<and> outb c' = frame (wire_encode \<lparr>txnid = 1, error_code = 0, message = WriteAck 7 1\<rparr>)
        \<and> memory_kv (mem sv') = [7 \<mapsto> [1, 2, 3]])"
proof -
  let ?c = "demo_conn (frame (wire_encode (demo_write 1 7 [1, 2, 3])))"
  let ?a = "\<lparr>ab_kv = [7 \<mapsto> [1, 2, 3]], ab_size = 3, ab_pool = 10\<rparr>"
  have "spec_message (message (demo_write 1 7 [1, 2, 3])) (abs_of memory_kv demo_server) =
      ((kOk, WriteAck 7 1), ?a)"
    by (simp add: spec_message_def spec_write_def accepts_def size_without_def)
  from process_answers_request [OF wire_documented mb.kv_backend_axioms _ _ _ this,
      of ?c "[]" "\<lambda>_. 0"] wire_documented
  show ?thesis
    by (auto simp: msg_fits_def payload_size_def int_of_error_code_def length_frame
        dest!: abs_of_eqD)
qed

text \<open>
  C38. A client that closes its connection in the middle of a frame stops the server: from
  the first byte of the frame on, \<^verbatim>\<open>process\<close> never returns (\<^verbatim>\<open>read\<close> keeps returning 0), so
  no other client is served either.
\<close>

theorem process_half_frame_hangs:
  assumes "healthy_stream (inb c)" and "stream_bytes (inb c) = take k (frame b)"
    and "0 < k" and "k < length (frame b)" and "length b < 2 ^ 32"
  shows "process vt enc dec uninit (c, sv) = None"
proof (cases "k < 4")
  case True
  obtain x cs where rd: "sock_read 4 (inb c) = (Some x, cs)" "healthy_stream cs"
      "stream_bytes (inb c) = x @ stream_bytes cs" "x = [] \<longleftrightarrow> inb c = []"
    by (rule sock_read_healthy [of "inb c" 4]) (use assms in auto)
  have "length (stream_bytes (inb c)) = k" using assms(2,4) by simp
  then have "x \<noteq> []" "length x + length (stream_bytes cs) < 4"
    using rd(3,4) assms(3) True by auto
  with recv_loop_short [OF rd(2)] rd(1) show ?thesis
    by (simp add: process_def read_from_client_def)
next
  case False
  then have len: "length (stream_bytes (inb c)) = k" using assms(2,4) by simp
  obtain cs where 1: "read_from_client c =
        Some (Ok (Some (take 4 (stream_bytes (inb c)))) (c\<lparr>inb := cs\<rparr>))"
      "healthy_stream cs" "stream_bytes cs = drop 4 (stream_bytes (inb c))"
    by (rule read_from_client_frame [OF assms(1)]) (use False len in auto)
  have "take 4 (stream_bytes (inb c)) = take 4 (frame b)"
    using False assms(2) by simp
  then have hdr: "unat (ntohl (load32 (take 4 (stream_bytes (inb c))))) = length b"
    using frame_size [of b "[]"] assms(5) by simp
  have "length (stream_bytes cs) < length b"
    using 1(3) len assms(4) False by (simp add: length_frame)
  then have "server_read_all (length b) (c\<lparr>inb := cs\<rparr>) = None"
    using recv_loop_short [OF 1(2), of "[]" "length b"] by (simp add: server_read_all_def)
  with 1(1) hdr show ?thesis by (simp add: process_def)
qed

theorem process_half_frame_hangs_witness:
  "process memory_vt wire_encode wire_decode (\<lambda>_. 0)
     (demo_conn (take 9 (frame (wire_encode (demo_write 1 7 [1, 2, 3])))), demo_server) = None"
  by (rule process_half_frame_hangs [where k = 9 and b = "wire_encode (demo_write 1 7 [1, 2, 3])"])
    (simp_all add: length_frame)

text \<open>
  C20. The connection table of a started server is never overrun: from the constructor and
  \<^verbatim>\<open>init\<close> through every sequence of rounds of the poll loop, whatever the sockets deliver, the
  vector keeps its length, \<^verbatim>\<open>curr_index\<close> stays within it, and no \<^verbatim>\<open>accept\<close> makes
  \<^verbatim>\<open>fds.at\<close> throw.
\<close>

theorem server_table_safe:
  assumes "TCPServer api pool backend path max_fds' = Inr sv0"
    and "server_init os port sv0 = Ok () sv"
    and "server_loop vt enc dec uninit evs \<lparr>srv = sv, conns = []\<rparr> = Some m"
    and "state_of m = Some st"
  shows "length (fds (srv st)) = unat (max_fds (srv st)) \<and> curr_index (srv st) \<le> max_fds (srv st)
         \<and> accept_conn ev st \<noteq> Throw (out_of_range s) st'"
proof -
  have sv0: "fds_ok sv0" "curr_index sv0 = 0" "max_fds sv0 \<noteq> 0"
    using assms(1) by (auto simp: TCPServer_def Let_def fds_ok_def split: if_splits outcome.splits)
  have "fds_ok (srv \<lparr>srv = sv, conns = []\<rparr>)" using server_init_ok [OF sv0 assms(2)] by simp
  from server_loop_ok [OF this assms(3,4)] accept_conn_ok(1) show ?thesis
    by (auto simp: fds_ok_def)
qed

definition demo_os :: socket_calls where
  "demo_os = \<lparr>socket_ret = 3, reuseaddr_ret = 0, nodelay_ret = 0, reuseport_ret = 0, bind_ret = 0,
     listen_ret = 0\<rparr>"

definition demo_started :: "(string \<times> byte list) list any_backend tcp_server" where
  "demo_started = \<lparr>server_sock = 3, pool_size = 10, curr_size = 0, max_fds = 2, curr_index = 1,
     fds = [\<lparr>fd = 3, events = 1, revents = 0\<rparr>, \<lparr>fd = 0, events = 0, revents = 0\<rparr>],
     mem = MemoryB (MemoryBackend 100000000)\<rparr>"

definition demo_round :: "int list \<Rightarrow> int \<Rightarrow> poll_round" where
  "demo_round rs s = \<lparr>polled = PollEvents rs, accepted = s, accepted_conn = demo_conn []\<rparr>"

lemma replicate_two: "replicate 2 x = [x, x]"
  by (simp add: numeral_2_eq_2)

theorem server_table_safe_witness:
  "\<exists>sv0 sv m st. TCPServer assoc_rocksdb 10 ''Memory'' [] 1 = Inr sv0
     \<and> server_init demo_os ''12345'' sv0 = Ok () sv
     \<and> server_loop (any_vt assoc_rocksdb) wire_encode wire_decode (\<lambda>_. 0)
           [demo_round [1] 4, demo_round [1, 0] 5] \<lparr>srv = sv, conns = []\<rparr> = Some m
     \<and> state_of m = Some st \<and> curr_index (srv st) \<le> max_fds (srv st)"
proof -
  let ?os = "server_loop (any_vt assoc_rocksdb) wire_encode wire_decode (\<lambda>_. 0)
           [demo_round [1] 4, demo_round [1, 0] 5] \<lparr>srv = demo_started, conns = []\<rparr>"
  obtain sv0 where sv0: "TCPServer assoc_rocksdb 10 ''Memory'' [] 1 = Inr sv0"
      "server_init demo_os ''12345'' sv0 = Ok () demo_started"
    by (simp add: TCPServer_def server_init_def demo_os_def demo_started_def POLLIN_def
        replicate_two)
  have "case ?os of Some (Ok _ _) \<Rightarrow> True | _ \<Rightarrow> False" by code_simp
  then obtain m st where m: "?os = Some m" "state_of m = Some st"
    by (auto split: option.splits outcome.splits)
  have "curr_index (srv st) \<le> max_fds (srv st)" using server_table_safe [OF sv0 m] by simp
  with sv0 m show ?thesis by (intro exI conjI)
qed

text \<open>
  C21. At capacity the purge drops exactly the entries of closed connections: the live ones
  stay, in order, at the front of the table, \<^verbatim>\<open>curr_index\<close> counts them, and there is room
  again exactly when some connection had been closed.
\<close>

theorem purge_keeps_live:
  assumes "fds_ok sv" and "curr_index sv = max_fds sv"
  shows "live (purge sv) = live sv \<and> unat (curr_index (purge sv)) = length (live sv)
         \<and> take (unat (curr_index (purge sv))) (fds (purge sv)) = live sv
         \<and> (curr_index (purge sv) < max_fds (purge sv) \<longleftrightarrow> (\<exists>p \<in> set (fds sv). fd p = -1))"
proof -
  have len: "length (live sv) < length (fds sv) \<longleftrightarrow> (\<exists>p \<in> set (fds sv). fd p = -1)"
    using assms length_filter_less_iff [of "\<lambda>p. fd p \<noteq> -1" "fds sv"]
    by (simp add: live_def fds_ok_def)
  have "max_fds (purge sv) = max_fds sv" by (simp add: purge_def remove_if_testRemove)
  with purge_full [OF assms] len assms show ?thesis
    by (simp add: fds_ok_def word_less_nat_alt)
qed

theorem purge_keeps_live_witness:
  "fds_ok (demo_server\<lparr>curr_index := 3, fds := (fds demo_server)[1 := \<lparr>fd = -1, events = 1, revents = 0\<rparr>]\<rparr>)
   \<and> unat (curr_index (purge (demo_server\<lparr>curr_index := 3,
        fds := (fds demo_server)[1 := \<lparr>fd = -1, events = 1, revents = 0\<rparr>]\<rparr>))) = 2"
  using purge_keeps_live [of "demo_server\<lparr>curr_index := 3,
      fds := (fds demo_server)[1 := \<lparr>fd = -1, events = 1, revents = 0\<rparr>]\<rparr>"]
  by (simp add: fds_ok_def demo_server_def live_def)

end
