(* ===== verification/Future_Sync.thy ===== *)
theory Future_Sync
  imports Cirrus_Prelude
begin

text \<open>
  The locks of \<^verbatim>\<open>src/src/common/Synchronization.h\<close> and the futures of
  \<^verbatim>\<open>src/src/client/BladeClient.cpp\<close>: the data shared by a future and the receiver thread,
  the calls \<^verbatim>\<open>get\<close>, \<^verbatim>\<open>getDataPair\<close> and \<^verbatim>\<open>try_wait\<close>, and the waiting protocol as a step
  relation between the threads that call \<^verbatim>\<open>wait\<close> and the thread that completes the future.
\<close>

section \<open>Locks\<close>

text \<open>
  \<^verbatim>\<open>SpinLock\<close> is an atomic flag that starts clear. \<^verbatim>\<open>wait\<close> repeats \<^verbatim>\<open>test_and_set\<close>:
  \<open>None\<close> is a caller that spins on.
\<close>

type_synonym SpinLock = bool

definition SpinLock_new :: SpinLock where "SpinLock_new = False"

definition test_and_set :: "SpinLock \<Rightarrow> bool \<times> SpinLock" where
  "test_and_set l = (l, True)"

definition spin_wait :: "SpinLock \<Rightarrow> SpinLock option" where
  "spin_wait l = (case test_and_set l of (old, l') \<Rightarrow> if old then None else Some l')"

definition spin_trywait :: "SpinLock \<Rightarrow> bool \<times> SpinLock" where
  "spin_trywait l = (case test_and_set l of (old, l') \<Rightarrow> (\<not> old, l'))"

definition spin_signal :: "SpinLock \<Rightarrow> SpinLock" where
  "spin_signal l = False"

definition spin_signal_count :: "int \<Rightarrow> SpinLock \<Rightarrow> (unit, SpinLock) outcome" where
  "spin_signal_count count l = Throw (runtime_error ''Not implemented'') l"

text \<open>
  \<^verbatim>\<open>PosixSemaphore\<close>: the value of the \<^verbatim>\<open>sem_t\<close>. A call of \<^verbatim>\<open>sem_wait\<close> is interrupted some
  number of times first; the loop retries it.
\<close>

type_synonym PosixSemaphore = nat

definition PosixSemaphore_new :: "nat \<Rightarrow> PosixSemaphore" where
  "PosixSemaphore_new initialCount = initialCount"

datatype sem_result = Interrupted | Acquired PosixSemaphore | Blocked

definition sem_wait :: "bool \<Rightarrow> PosixSemaphore \<Rightarrow> sem_result" where
  "sem_wait interrupted n =
     (if interrupted then Interrupted else case n of 0 \<Rightarrow> Blocked | Suc m \<Rightarrow> Acquired m)"

fun posix_wait :: "bool list \<Rightarrow> PosixSemaphore \<Rightarrow> PosixSemaphore option" where
  "posix_wait [] n = (case sem_wait False n of Acquired m \<Rightarrow> Some m | _ \<Rightarrow> None)"
| "posix_wait (i # is) n =
     (case sem_wait i n of Acquired m \<Rightarrow> Some m | Blocked \<Rightarrow> None | Interrupted \<Rightarrow> posix_wait is n)"

definition posix_signal :: "PosixSemaphore \<Rightarrow> PosixSemaphore" where
  "posix_signal n = n + 1"

function posix_signal_count :: "int \<Rightarrow> PosixSemaphore \<Rightarrow> PosixSemaphore" where
  "posix_signal_count count n =
     (if count > 0 then posix_signal_count (count - 1) (posix_signal n) else n)"
  by pat_completeness auto
termination by (relation "measure (\<lambda>(c, _). nat c)") auto

declare posix_signal_count.simps [simp del]

definition posix_trywait :: "PosixSemaphore \<Rightarrow> bool \<times> PosixSemaphore" where
  "posix_trywait n = (case n of 0 \<Rightarrow> (False, 0) | Suc m \<Rightarrow> (True, m))"

lemma posix_wait_interrupts:
  "posix_wait is n = (case n of 0 \<Rightarrow> None | Suc m \<Rightarrow> Some m)"
  by (induction "is") (auto simp: sem_wait_def split: nat.split)

lemma posix_signal_count_add: "posix_signal_count c n = n + nat c"
  by (induction c n rule: posix_signal_count.induct)
    (subst posix_signal_count.simps, simp add: posix_signal_def, arith)

section \<open>FutureData and ClientFuture\<close>

text \<open>
  \<open>fut_data\<close> is \<^verbatim>\<open>data_ptr\<close>: null, or the bytes of the receive buffer it keeps alive.
\<close>

record FutureData =
  fut_result :: bool
  result_available :: bool
  sem :: SpinLock
  fut_error :: ErrorCodes
  fut_data :: "byte list option"
  data_size :: u64

definition FutureData_new :: FutureData where
  "FutureData_new = \<lparr>fut_result = False, result_available = False, sem = SpinLock_new,
     fut_error = kOk, fut_data = None, data_size = 0\<rparr>"

text \<open>
  \<^verbatim>\<open>try_wait\<close> changes the lock.
\<close>

definition future_try_wait :: "FutureData \<Rightarrow> bool \<times> FutureData" where
  "future_try_wait f =
     (if \<not> result_available f
      then case spin_trywait (sem f) of (r, l) \<Rightarrow> (r, f\<lparr>sem := l\<rparr>)
      else (True, f))"

text \<open>\<^verbatim>\<open>get\<close> once \<^verbatim>\<open>wait\<close> has returned: the error code becomes an exception.\<close>

definition future_get :: "FutureData \<Rightarrow> exn + bool" where
  "future_get f =
     (case fut_error f of
        kOk \<Rightarrow> Inr (fut_result f)
      | kException \<Rightarrow> Inl (Exception ''Server threw generic exception.'')
      | kServerMemoryErrorException \<Rightarrow>
          Inl (ServerMemoryErrorException ''Server memory exhausted during call to put.'')
      | kNoSuchIDException \<Rightarrow>
          Inl (NoSuchIDException ''Call to get was made for id that did not exist on server.'')
      | kUnrecognized _ \<Rightarrow> Inl (Exception ''Unrecognized error code during get().''))"

text \<open>The pair of the data pointer and \<^verbatim>\<open>data_size\<close>, cut to an \<^verbatim>\<open>unsigned int\<close>.\<close>

definition future_getDataPair :: "FutureData \<Rightarrow> exn + (byte list \<times> u32)" where
  "future_getDataPair f =
     (case future_get f of
        Inl e \<Rightarrow> Inl e
      | Inr _ \<Rightarrow>
          (case fut_data f of
             None \<Rightarrow> Inl (Exception ''getData called on a non read future'')
           | Some d \<Rightarrow> Inr (d, ucast (data_size f))))"

section \<open>The waiting protocol\<close>

text \<open>
  Threads in \<^verbatim>\<open>ClientFuture::wait\<close> test \<^verbatim>\<open>result_available\<close> (\<open>AtTest\<close>), run one
  \<^verbatim>\<open>test_and_set\<close> per turn of the spin loop (\<open>AtLock\<close>) and return. The receiver fills the
  data, sets \<^verbatim>\<open>result_available\<close> and signals, in this order (\<^verbatim>\<open>process_received\<close>). Memory
  accesses interleave; the flag and the boolean are read and written one at a time.
\<close>

datatype waiter = AtTest | AtLock | Returned

datatype receiver = Filling | Publishing | Signalling | Finished

record wait_state =
  filled :: bool
  available :: bool
  flag :: SpinLock
  waiters :: "waiter list"
  rcv :: receiver

definition wait_init :: "nat \<Rightarrow> wait_state" where
  "wait_init n = \<lparr>filled = False, available = False, flag = SpinLock_new,
     waiters = replicate n AtTest, rcv = Filling\<rparr>"

inductive wait_step :: "wait_state \<Rightarrow> wait_state \<Rightarrow> bool" where
  test: "\<lbrakk>i < length (waiters s); waiters s ! i = AtTest\<rbrakk> \<Longrightarrow>
    wait_step s (s\<lparr>waiters := (waiters s)[i := if available s then Returned else AtLock]\<rparr>)"
| acquire: "\<lbrakk>i < length (waiters s); waiters s ! i = AtLock; spin_wait (flag s) = Some l\<rbrakk> \<Longrightarrow>
    wait_step s (s\<lparr>flag := l, waiters := (waiters s)[i := AtTest]\<rparr>)"
| fill: "rcv s = Filling \<Longrightarrow> wait_step s (s\<lparr>filled := True, rcv := Publishing\<rparr>)"
| publish: "rcv s = Publishing \<Longrightarrow> wait_step s (s\<lparr>available := True, rcv := Signalling\<rparr>)"
| signal: "rcv s = Signalling \<Longrightarrow> wait_step s (s\<lparr>flag := spin_signal (flag s), rcv := Finished\<rparr>)"

inductive_cases wait_stepE: "wait_step s s'"

definition wait_inv :: "wait_state \<Rightarrow> bool" where
  "wait_inv s \<longleftrightarrow>
     (available s \<longleftrightarrow> rcv s = Signalling \<or> rcv s = Finished)
   \<and> (filled s \<longleftrightarrow> rcv s \<noteq> Filling)
   \<and> (Returned \<in> set (waiters s) \<longrightarrow> available s)"

lemma set_list_update: "x \<in> set (xs[i := y]) \<Longrightarrow> x = y \<or> x \<in> set xs"
  by (metis insert_iff set_update_subset_insert subsetD)

lemma wait_inv_step: "wait_step s s' \<Longrightarrow> wait_inv s \<Longrightarrow> wait_inv s'"
  by (induction rule: wait_step.induct)
    (auto simp: wait_inv_def dest!: set_list_update split: if_splits)

lemma wait_inv_reachable: "wait_step\<^sup>*\<^sup>* (wait_init n) s \<Longrightarrow> wait_inv s"
proof (induction rule: rtranclp_induct)
  case base
  then show ?case by (auto simp: wait_inv_def wait_init_def)
next
  case (step s s')
  then show ?case by (blast intro: wait_inv_step)
qed

text \<open>
  With one waiting thread the flag is free whenever the receiver is done and the thread
  still has to take it.
\<close>

definition single_inv :: "wait_state \<Rightarrow> bool" where
  "single_inv s \<longleftrightarrow> wait_inv s \<and> length (waiters s) = 1
     \<and> (rcv s = Finished \<longrightarrow> hd (waiters s) = AtLock \<longrightarrow> \<not> flag s)"

lemma single_inv_step:
  assumes "wait_step s s'" "single_inv s"
  shows "single_inv s'"
proof -
  obtain w where w: "waiters s = [w]" using assms(2) by (auto simp: single_inv_def length_Suc_conv)
  have "wait_inv s'" using assms wait_inv_step by (simp add: single_inv_def)
  with assms(1) show ?thesis
  proof cases
    case (test i)
    with w assms(2) \<open>wait_inv s'\<close> show ?thesis by (auto simp: single_inv_def wait_inv_def)
  qed (use w assms(2) \<open>wait_inv s'\<close> in \<open>simp_all add: single_inv_def spin_signal_def\<close>)
qed

lemma single_inv_reachable: "wait_step\<^sup>*\<^sup>* (wait_init 1) s \<Longrightarrow> single_inv s"
proof (induction rule: rtranclp_induct)
  case base
  then show ?case by (auto simp: single_inv_def wait_inv_def wait_init_def)
next
  case (step s s')
  then show ?case by (blast intro: single_inv_step)
qed

text \<open>From every state the receiver can finish, whatever the waiting threads do.\<close>

lemma receiver_finishes: "\<exists>s'. wait_step\<^sup>*\<^sup>* s s' \<and> rcv s' = Finished"
proof -
  have sig: "\<exists>s'. wait_step\<^sup>*\<^sup>* s s' \<and> rcv s' = Finished" if "rcv s = Signalling" for s
    using wait_step.signal [OF that] by (intro exI conjI r_into_rtranclp) auto
  have pub: "\<exists>s'. wait_step\<^sup>*\<^sup>* s s' \<and> rcv s' = Finished" if "rcv s = Publishing" for s
    using wait_step.publish [OF that] sig [of "s\<lparr>available := True, rcv := Signalling\<rparr>"]
    by (auto intro: converse_rtranclp_into_rtranclp)
  show ?thesis
  proof (cases "rcv s")
    case Filling
    with wait_step.fill [OF this] pub [of "s\<lparr>filled := True, rcv := Publishing\<rparr>"]
    show ?thesis by (auto intro: converse_rtranclp_into_rtranclp)
  qed (use sig pub in auto)
qed

lemma single_returns:
  assumes "single_inv s" "rcv s = Finished"
  shows "\<exists>s'. wait_step\<^sup>*\<^sup>* s s' \<and> waiters s' = [Returned]"
proof -
  have test: "\<exists>s'. wait_step\<^sup>*\<^sup>* s s' \<and> waiters s' = [Returned]"
    if "waiters s = [AtTest]" "available s" for s
    using wait_step.test [of 0 s] that by (intro exI conjI r_into_rtranclp) auto
  obtain w where w: "waiters s = [w]" using assms(1) by (auto simp: single_inv_def length_Suc_conv)
  have av: "available s" using assms by (simp add: single_inv_def wait_inv_def)
  show ?thesis
  proof (cases w)
    case AtLock
    with w assms have "spin_wait (flag s) = Some True"
      by (simp add: single_inv_def spin_wait_def test_and_set_def)
    with wait_step.acquire [of 0 s True] AtLock w
    have "wait_step s (s\<lparr>flag := True, waiters := [AtTest]\<rparr>)" by simp
    with test [of "s\<lparr>flag := True, waiters := [AtTest]\<rparr>"] av show ?thesis
      by (auto intro: converse_rtranclp_into_rtranclp)
  qed (use w av test in auto)
qed

text \<open>
  C22. A thread returns from \<^verbatim>\<open>ClientFuture::wait\<close> only after the receiver has stored the
  error code, the result and the data, however many threads wait and however their steps
  interleave.
\<close>

theorem wait_returns_filled:
  assumes "wait_step\<^sup>*\<^sup>* (wait_init n) s" and "Returned \<in> set (waiters s)"
  shows "available s \<and> filled s"
  using wait_inv_reachable [OF assms(1)] assms(2) by (auto simp: wait_inv_def)

lemma wait_step_testI:
  "\<lbrakk>i < length (waiters s); waiters s ! i = AtTest;
    s' = s\<lparr>waiters := (waiters s)[i := if available s then Returned else AtLock]\<rparr>\<rbrakk> \<Longrightarrow> wait_step s s'"
  using wait_step.test by simp

lemma wait_step_acquireI:
  "\<lbrakk>i < length (waiters s); waiters s ! i = AtLock; \<not> flag s;
    s' = s\<lparr>flag := True, waiters := (waiters s)[i := AtTest]\<rparr>\<rbrakk> \<Longrightarrow> wait_step s s'"
  using wait_step.acquire by (simp add: spin_wait_def test_and_set_def)

text \<open>The completed future with one thread that has returned, the other one being in \<open>w\<close>.\<close>

definition wait_done :: "waiter list \<Rightarrow> SpinLock \<Rightarrow> wait_state" where
  "wait_done ws l = \<lparr>filled = True, available = True, flag = l, waiters = ws, rcv = Finished\<rparr>"

lemma wait_completes:
  "wait_step\<^sup>*\<^sup>* \<lparr>filled = False, available = False, flag = l, waiters = ws, rcv = Filling\<rparr>
     (wait_done ws False)"
proof -
  let ?s0 = "\<lparr>filled = False, available = False, flag = l, waiters = ws, rcv = Filling\<rparr>"
  let ?s1 = "?s0\<lparr>filled := True, rcv := Publishing\<rparr>"
  let ?s2 = "?s1\<lparr>available := True, rcv := Signalling\<rparr>"
  have "wait_step ?s0 ?s1" "wait_step ?s1 ?s2" "wait_step ?s2 (wait_done ws False)"
    using wait_step.fill [of ?s0] wait_step.publish [of ?s1] wait_step.signal [of ?s2]
    by (simp_all add: wait_done_def spin_signal_def)
  then show ?thesis by (meson converse_rtranclp_into_rtranclp r_into_rtranclp)
qed

theorem wait_returns_filled_witness:
  "\<exists>s. wait_step\<^sup>*\<^sup>* (wait_init 1) s \<and> Returned \<in> set (waiters s) \<and> available s \<and> filled s"
proof -
  have "wait_step\<^sup>*\<^sup>* (wait_init 1) (wait_done [AtTest] False)"
    using wait_completes [of False "[AtTest]"] by (simp add: wait_init_def SpinLock_new_def)
  moreover have "wait_step (wait_done [AtTest] False) (wait_done [Returned] False)"
    by (rule wait_step_testI [where i = 0]) (simp_all add: wait_done_def)
  ultimately have "wait_step\<^sup>*\<^sup>* (wait_init 1) (wait_done [Returned] False)" by simp
  with wait_returns_filled [OF this] show ?thesis by (auto simp: wait_done_def)
qed

text \<open>
  C23. No lost wake-up with one waiting thread: from every reachable state the thread can
  return, whether it tests the result before, between or after the steps of the receiver.
\<close>

theorem single_wait_returns:
  assumes "wait_step\<^sup>*\<^sup>* (wait_init 1) s"
  shows "\<exists>s'. wait_step\<^sup>*\<^sup>* s s' \<and> waiters s' = [Returned]"
proof -
  obtain s1 where s1: "wait_step\<^sup>*\<^sup>* s s1" "rcv s1 = Finished" using receiver_finishes by blast
  with assms have "single_inv s1" by (intro single_inv_reachable) (rule rtranclp_trans)
  from single_returns [OF this s1(2)] s1(1) show ?thesis by (blast intro: rtranclp_trans)
qed

theorem single_wait_returns_witness:
  "\<exists>s'. wait_step\<^sup>*\<^sup>* (wait_init 1) s' \<and> waiters s' = [Returned]"
  by (rule single_wait_returns) simp

text \<open>
  C40. Two threads that wait on copies of one future can hang: the lock is cleared once,
  the thread that takes it returns without clearing it again, and the other one spins for
  ever although the result is available.
\<close>

theorem two_waiters_hang:
  "\<exists>s. wait_step\<^sup>*\<^sup>* (wait_init 2) s \<and> available s \<and> rcv s = Finished
     \<and> waiters s = [Returned, AtLock] \<and> (\<forall>s'. \<not> wait_step s s')"
proof -
  let ?s = "\<lambda>ws l. \<lparr>filled = False, available = False, flag = l, waiters = ws, rcv = Filling\<rparr>"
  have a: "wait_step (?s [AtTest, AtTest] False) (?s [AtLock, AtTest] False)"
    by (rule wait_step_testI [where i = 0]) simp_all
  have b: "wait_step (?s [AtLock, AtTest] False) (?s [AtLock, AtLock] False)"
    by (rule wait_step_testI [where i = 1]) simp_all
  have c: "wait_step (wait_done [AtLock, AtLock] False) (wait_done [AtTest, AtLock] True)"
    by (rule wait_step_acquireI [where i = 0]) (simp_all add: wait_done_def)
  have d: "wait_step (wait_done [AtTest, AtLock] True) (wait_done [Returned, AtLock] True)"
    by (rule wait_step_testI [where i = 0]) (simp_all add: wait_done_def)
  have "wait_step\<^sup>*\<^sup>* (?s [AtTest, AtTest] False) (wait_done [Returned, AtLock] True)"
    using a b wait_completes [of False "[AtLock, AtLock]"] c d
    by (meson converse_rtranclp_into_rtranclp rtranclp.rtrancl_into_rtrancl)
  moreover have "\<not> wait_step (wait_done [Returned, AtLock] True) s'" for s'
    by (auto elim!: wait_stepE simp: wait_done_def spin_wait_def test_and_set_def less_Suc_eq)
  ultimately show ?thesis
    by (intro exI [of _ "wait_done [Returned, AtLock] True"])
      (simp add: wait_init_def SpinLock_new_def numeral_2_eq_2 wait_done_def)
qed

text \<open>
  \<^verbatim>\<open>try_wait\<close> on a future whose operation has not completed returns true the first
  time: it takes the lock, which starts free, instead of reporting the result.
\<close>

lemma try_wait_before_completion:
  "fst (future_try_wait FutureData_new) \<and> \<not> result_available (snd (future_try_wait FutureData_new))
   \<and> \<not> fst (future_try_wait (snd (future_try_wait FutureData_new)))"
  by (simp add: future_try_wait_def FutureData_new_def spin_trywait_def test_and_set_def
      SpinLock_new_def)

end
