(* ===== verification/TCP_Client.thy ===== *)
theory TCP_Client
  imports Socket_IO Future_Sync
begin

text \<open>
  The client of \<^verbatim>\<open>src/src/client/TCPClient.cpp\<close>: the calls that build a request, register a
  transaction and return a future, the body of the sender thread and the body of the
  receiver thread. The flatbuffers functions are the parameters \<open>enc\<close> and \<open>dec\<close>.
\<close>

section \<open>Client state\<close>

text \<open>
  A \<^verbatim>\<open>shared_ptr<FutureData>\<close> is an address in \<open>futures\<close>. A finished builder in the send
  queue is its buffer; of the builders kept for reuse only their number matters, since they
  are cleared.
\<close>

record tcp_client =
  curr_txn_id :: u64
  txn_map :: "(TxnID \<times> nat) list"
  send_queue :: "byte list list"
  reuse_queue :: nat
  futures :: "(nat \<times> FutureData) list"
  next_future :: nat
  has_connected :: bool
  terminate_threads :: bool

definition TCPClient_new :: tcp_client where
  "TCPClient_new = \<lparr>curr_txn_id = 0, txn_map = [], send_queue = [], reuse_queue = 0, futures = [],
     next_future = 0, has_connected = False, terminate_threads = False\<rparr>"

definition SEND_QUEUE_SIZE :: nat where "SEND_QUEUE_SIZE = 10000"

definition reuse_max :: nat where "reuse_max = 5"

text \<open>What the system calls of \<^verbatim>\<open>connect\<close> return.\<close>

record connect_calls =
  c_socket :: int
  c_nodelay :: int
  c_inet_pton :: int
  c_connect :: int

text \<open>
  \<^verbatim>\<open>has_connected\<close> is set before anything is attempted. The port is read by \<^verbatim>\<open>stoi\<close>, which
  throws on a string that is no number (\<open>None\<close>).
\<close>

definition client_connect ::
  "connect_calls \<Rightarrow> string \<Rightarrow> string \<Rightarrow> int option \<Rightarrow> tcp_client \<Rightarrow> (bool, tcp_client) outcome" where
  "client_connect os address port_string stoi_port c =
     (if has_connected c then Ok False c
      else
        let c1 = c\<lparr>has_connected := True\<rparr> in
        if c_socket os < 0 then Throw (ConnectionException ''Error when creating socket.'') c1
        else if c_nodelay os \<noteq> 0 then Throw (ConnectionException ''Error setting socket options.'') c1
        else if c_inet_pton os \<noteq> 1
        then Throw (ConnectionException
               ''Address family invalid or invalid IP address passed in'') c1
        else if stoi_port = None then Throw (runtime_error ''stoi'') c1
        else if c_connect os < 0
        then Throw (ConnectionException
               (''Client could not connect to server. Address: '' @ address @ '' port: '' @ port_string)) c1
        else Ok True c1)"

section \<open>Requests\<close>

text \<open>
  \<^verbatim>\<open>const int txn_id = curr_txn_id++\<close>: the counter is cut to an \<^verbatim>\<open>int\<close>, and the \<^verbatim>\<open>int\<close> is
  widened again to a \<^verbatim>\<open>TxnID\<close>, with its sign.
\<close>

definition txn_of :: "u64 \<Rightarrow> TxnID" where
  "txn_of n = scast (ucast n :: u32)"

text \<open>
  \<^verbatim>\<open>enqueue_message\<close>: a fresh transaction, then the builder is pushed; the value is the
  address of the future's data. The push is repeated until the queue has room
  (\<open>client_full\<close> below).
\<close>

definition enqueue_message :: "byte list \<Rightarrow> TxnID \<Rightarrow> tcp_client \<Rightarrow> nat \<times> tcp_client" where
  "enqueue_message builder txn_id c =
     (next_future c,
      c\<lparr>txn_map := AList.update txn_id (next_future c) (txn_map c),
        futures := AList.update (next_future c) FutureData_new (futures c),
        next_future := next_future c + 1,
        send_queue := send_queue c @ [builder]\<rparr>)"

definition client_full :: "tcp_client \<Rightarrow> bool" where
  "client_full c \<longleftrightarrow> length (send_queue c) \<ge> SEND_QUEUE_SIZE"

text \<open>The common tail of the request functions.\<close>

definition issue ::
  "(TCPBladeMessage \<Rightarrow> byte list) \<Rightarrow> tcp_message \<Rightarrow> tcp_client \<Rightarrow> nat \<times> tcp_client" where
  "issue enc m c =
     (let txn_id = txn_of (curr_txn_id c) in
      enqueue_message (enc \<lparr>txnid = txn_id, error_code = 0, message = m\<rparr>) txn_id
        (c\<lparr>curr_txn_id := curr_txn_id c + 1\<rparr>))"

text \<open>
  A write unit is serialized into the vector inside the builder:
  \<^verbatim>\<open>CreateUninitializedVector(size, &mem)\<close>, then \<^verbatim>\<open>w.serialize(mem)\<close>.
\<close>

definition write_async ::
  "(TCPBladeMessage \<Rightarrow> byte list) \<Rightarrow> (nat \<Rightarrow> byte) \<Rightarrow> ObjectID \<Rightarrow> write_unit \<Rightarrow> tcp_client
    \<Rightarrow> (nat, tcp_client) outcome" where
  "write_async enc uninit oid w c =
     (let c1 = (if reuse_queue c > 0 then c\<lparr>reuse_queue := reuse_queue c - 1\<rparr> else c) in
      case serialized uninit w of
        None \<Rightarrow> Undef
      | Some d \<Rightarrow> (case issue enc (Write oid d) c1 of (f, c2) \<Rightarrow> Ok f c2))"

definition read_async ::
  "(TCPBladeMessage \<Rightarrow> byte list) \<Rightarrow> ObjectID \<Rightarrow> tcp_client \<Rightarrow> (nat, tcp_client) outcome" where
  "read_async enc oid c = (case issue enc (Read oid) c of (f, c1) \<Rightarrow> Ok f c1)"

definition read_async_bulk ::
  "(TCPBladeMessage \<Rightarrow> byte list) \<Rightarrow> ObjectID list \<Rightarrow> tcp_client \<Rightarrow> (nat, tcp_client) outcome" where
  "read_async_bulk enc oids c =
     (case issue enc (ReadBulk (word_of_nat (length oids)) oids) c of (f, c1) \<Rightarrow> Ok f c1)"

definition write_async_bulk ::
  "(TCPBladeMessage \<Rightarrow> byte list) \<Rightarrow> (nat \<Rightarrow> byte) \<Rightarrow> ObjectID list \<Rightarrow> write_unit \<Rightarrow> tcp_client
    \<Rightarrow> (nat, tcp_client) outcome" where
  "write_async_bulk enc uninit oids w c =
     (case serialized uninit w of
        None \<Rightarrow> Undef
      | Some d \<Rightarrow>
          (case issue enc (WriteBulk (word_of_nat (length oids)) oids d) c of (f, c1) \<Rightarrow> Ok f c1))"

definition remove_async ::
  "(TCPBladeMessage \<Rightarrow> byte list) \<Rightarrow> ObjectID \<Rightarrow> tcp_client \<Rightarrow> (nat, tcp_client) outcome" where
  "remove_async enc oid c = (case issue enc (Remove oid) c of (f, c1) \<Rightarrow> Ok f c1)"

section \<open>The sender thread\<close>

definition client_send_all :: "byte list \<Rightarrow> send_verdicts \<Rightarrow> bool \<times> byte list \<times> send_verdicts" where
  "client_send_all data vs = (case send_loop vs data of (out, ok, vs') \<Rightarrow> (ok, out, vs'))"

fun is_write :: "tcp_message \<Rightarrow> bool" where
  "is_write (Write _ _) = True"
| "is_write _ = False"

text \<open>
  One turn of \<^verbatim>\<open>process_send\<close>: the value is what reaches the wire. The semaphore counts the
  queued builders, so the thread sleeps while the queue is empty. A builder that carried a
  \<^verbatim>\<open>Write\<close> is kept for reuse, up to \<^verbatim>\<open>reuse_max\<close> of them; its type is read from its own buffer.
\<close>

definition process_send ::
  "(byte list \<Rightarrow> TCPBladeMessage option) \<Rightarrow> send_verdicts \<Rightarrow> tcp_client
    \<Rightarrow> (byte list, tcp_client) outcome" where
  "process_send dec vs c =
     (if terminate_threads c then Ok [] c
      else case send_queue c of
        [] \<Rightarrow> Ok [] c
      | builder # q \<Rightarrow>
          (let c1 = c\<lparr>send_queue := q\<rparr> in
           case client_send_all (store32 (htonl (word_of_nat (length builder)))) vs of
             (ok1, out1, vs1) \<Rightarrow>
               if \<not> ok1 then Throw (Exception ''Server error sending data to client'') c1
               else
                 (case client_send_all builder vs1 of
                    (ok2, out2, vs2) \<Rightarrow>
                      if \<not> ok2 then Throw (Exception ''Server error sending data to client'') c1
                      else if reuse_queue c1 < reuse_max
                      then (case dec builder of
                              None \<Rightarrow> Undef
                            | Some m \<Rightarrow>
                                Ok (out1 @ out2)
                                  (if is_write (message m)
                                   then c1\<lparr>reuse_queue := reuse_queue c1 + 1\<rparr> else c1))
                      else Ok (out1 @ out2) c1)))"

section \<open>The receiver thread\<close>

definition client_read_all :: "nat \<Rightarrow> stream \<Rightarrow> (byte list, stream) outcome option" where
  "client_read_all len cs =
     map_option (\<lambda>(r, cs'). case r of
         None \<Rightarrow> Throw (Exception ''Error reading from server'') cs'
       | Some b \<Rightarrow> Ok b cs') (recv_loop len [] cs)"

text \<open>
  The switch of \<^verbatim>\<open>process_received\<close>: the error code first, then the fields the answer
  carries; the receive buffer stays alive behind \<^verbatim>\<open>data_ptr\<close>.
\<close>

definition fill_future :: "TCPBladeMessage \<Rightarrow> FutureData \<Rightarrow> (unit, FutureData) outcome" where
  "fill_future ack f =
     (let f1 = f\<lparr>fut_error := error_code_of_int (error_code ack)\<rparr> in
      case message ack of
        WriteAck _ success \<Rightarrow> Ok () (f1\<lparr>fut_result := (success \<noteq> 0)\<rparr>)
      | WriteBulkAck success \<Rightarrow> Ok () (f1\<lparr>fut_result := (success \<noteq> 0)\<rparr>)
      | ReadAck _ success d \<Rightarrow>
          Ok () (f1\<lparr>fut_result := (success \<noteq> 0), data_size := word_of_nat (length d), fut_data := Some d\<rparr>)
      | ReadBulkAck success d \<Rightarrow>
          Ok () (f1\<lparr>fut_result := (success \<noteq> 0), data_size := word_of_nat (length d), fut_data := Some d\<rparr>)
      | RemoveAck _ success \<Rightarrow> Ok () (f1\<lparr>fut_result := (success \<noteq> 0)\<rparr>)
      | _ \<Rightarrow> Throw (Exception ''Unknown message type'') f1)"

definition complete_txn :: "TCPBladeMessage \<Rightarrow> tcp_client \<Rightarrow> (unit, tcp_client) outcome" where
  "complete_txn ack c =
     (case map_of (txn_map c) (txnid ack) of
        None \<Rightarrow> Throw (Exception
          ''Client error when processing Messages. txn_id received was invalid.'') c
      | Some a \<Rightarrow>
          (case map_of (futures c) a of
             None \<Rightarrow> Undef
           | Some f \<Rightarrow>
               (let c1 = c\<lparr>txn_map := AList.delete (txnid ack) (txn_map c)\<rparr>;
                    upd = (\<lambda>f. c1\<lparr>futures := AList.update a f (futures c1)\<rparr>) in
                case fill_future ack f of
                  Ok _ f' \<Rightarrow> Ok () (upd (f'\<lparr>result_available := True, sem := spin_signal (sem f')\<rparr>))
                | Throw e f' \<Rightarrow> Throw e (upd f')
                | Undef \<Rightarrow> Undef)))"

text \<open>
  One turn of the receiver loop. \<^verbatim>\<open>int incoming_size = ntohl(...)\<close>, passed on as a
  \<^verbatim>\<open>size_t\<close>.
\<close>

definition process_received ::
  "(byte list \<Rightarrow> TCPBladeMessage option) \<Rightarrow> stream \<times> tcp_client
    \<Rightarrow> (unit, stream \<times> tcp_client) outcome option" where
  "process_received dec cc =
     (let (cs, c) = cc in
      case recv_loop 4 [] cs of
        None \<Rightarrow> None
      | Some (None, cs1) \<Rightarrow>
          Some (Throw (Exception
            ''Issue in reading socket. Full size not read. Socket may have been closed.'') (cs1, c))
      | Some (Some hdr, cs1) \<Rightarrow>
          (case client_read_all (unat (scast (ntohl (load32 hdr)) :: u64)) cs1 of
             None \<Rightarrow> None
           | Some (Throw e cs2) \<Rightarrow> Some (Throw e (cs2, c))
           | Some Undef \<Rightarrow> Some Undef
           | Some (Ok buffer cs2) \<Rightarrow>
               (case dec buffer of
                  None \<Rightarrow> Some Undef
                | Some ack \<Rightarrow> Some (liftO (\<lambda>c'. (cs2, c')) (complete_txn ack c)))))"

end
