(* ===== verification/TCP_Session.thy ===== *)
theory TCP_Session
  imports TCP_Server_Loop TCP_Client
begin

text \<open>
  A client and a server joined by a connection: the sender thread, the server and the
  receiver thread take steps in any order between the calls of the application. The
  simulation at the end of the theory shows that the requests take effect in the order in
  which they are issued, and that every future is completed with the answer of the abstract
  server at its place in that order.
\<close>

section \<open>Sessions\<close>

text \<open>
  \<open>c2s\<close> and \<open>s2c\<close> are the bytes under way. \<open>plan\<close> holds the steps the other threads take
  during the coming calls of \<^verbatim>\<open>wait\<close>, one list per call.
\<close>

datatype thread_step =
    SenderStep send_verdicts
  | ServerStep "nat list" send_verdicts
  | ReceiverStep "nat list"

record 'b session =
  client :: tcp_client
  c2s :: "byte list"
  s2c :: "byte list"
  server :: "'b tcp_server"
  plan :: "thread_step list list"

text \<open>The segments in which the bytes under way arrive: cut at the given lengths.\<close>

fun segments :: "nat list \<Rightarrow> byte list \<Rightarrow> stream" where
  "segments ks [] = []"
| "segments [] b = [Segment b]"
| "segments (k # ks) b = Segment (take (Suc k) b) # segments ks (drop (Suc k) b)"

lemma segments_bytes [simp]: "stream_bytes (segments ks b) = b"
  by (induction ks b rule: segments.induct) simp_all

lemma segments_healthy [simp]: "healthy_stream (segments ks b)"
  by (induction ks b rule: segments.induct) simp_all

text \<open>A thread with nothing to read or to send sleeps: its step changes nothing.\<close>

definition session_step ::
  "'b storage_backend \<Rightarrow> (TCPBladeMessage \<Rightarrow> byte list) \<Rightarrow> (byte list \<Rightarrow> TCPBladeMessage option)
    \<Rightarrow> (nat \<Rightarrow> byte) \<Rightarrow> thread_step \<Rightarrow> 'b session \<Rightarrow> (unit, 'b session) outcome option" where
  "session_step vt enc dec uninit t s =
     (case t of
        SenderStep vs \<Rightarrow>
          (case process_send dec vs (client s) of
             Ok out c \<Rightarrow> Some (Ok () (s\<lparr>client := c, c2s := c2s s @ out\<rparr>))
           | Throw e c \<Rightarrow> Some (Throw e (s\<lparr>client := c\<rparr>))
           | Undef \<Rightarrow> Some Undef)
      | ServerStep ks vs \<Rightarrow>
          (if c2s s = [] then Some (Ok () s)
           else map_option
             (\<lambda>m. bindO (liftO (\<lambda>(c, sv). s\<lparr>c2s := stream_bytes (inb c), s2c := s2c s @ outb c,
                                          server := sv\<rparr>) m) (\<lambda>_ s'. Ok () s'))
             (process vt enc dec uninit
               (\<lparr>inb = segments ks (c2s s), outb = [], verdicts = vs, closed = False\<rparr>, server s)))
      | ReceiverStep ks \<Rightarrow>
          (if s2c s = [] then Some (Ok () s)
           else map_option
             (liftO (\<lambda>(cs, c). s\<lparr>client := c, s2c := stream_bytes cs\<rparr>))
             (process_received dec (segments ks (s2c s), client s))))"

fun reliable :: "thread_step \<Rightarrow> bool" where
  "reliable (SenderStep vs) = (None \<notin> set vs)"
| "reliable (ServerStep ks vs) = (None \<notin> set vs)"
| "reliable (ReceiverStep ks) = True"

section \<open>Waiting for a future\<close>

definition future_at :: "nat \<Rightarrow> 'b session \<Rightarrow> FutureData" where
  "future_at f s = (case map_of (futures (client s)) f of Some d \<Rightarrow> d | None \<Rightarrow> FutureData_new)"

definition set_sem :: "SpinLock \<Rightarrow> nat \<Rightarrow> 'b session \<Rightarrow> 'b session" where
  "set_sem l f s =
     s\<lparr>client := (client s)\<lparr>futures :=
        AList.update f ((future_at f s)\<lparr>sem := l\<rparr>) (futures (client s))\<rparr>\<rparr>"

abbreviation take_lock :: "nat \<Rightarrow> 'b session \<Rightarrow> 'b session" where
  "take_lock \<equiv> set_sem True"

text \<open>
  The caller inside \<^verbatim>\<open>fd->sem->wait()\<close>: it takes the lock when it is free and tests the
  result, otherwise another thread takes a step. \<open>None\<close>: the steps are used up and the
  caller still waits.
\<close>

fun wait_spin ::
  "'b storage_backend \<Rightarrow> (TCPBladeMessage \<Rightarrow> byte list) \<Rightarrow> (byte list \<Rightarrow> TCPBladeMessage option)
    \<Rightarrow> (nat \<Rightarrow> byte) \<Rightarrow> thread_step list \<Rightarrow> nat \<Rightarrow> 'b session \<Rightarrow> (unit, 'b session) outcome option" where
  "wait_spin vt enc dec uninit ts f s =
     (if \<not> sem (future_at f s) \<and> result_available (future_at f s)
      then Some (Ok () (take_lock f s))
      else case ts of
             [] \<Rightarrow> None
           | t # ts' \<Rightarrow>
               (case session_step vt enc dec uninit t (take_lock f s) of
                  Some (Ok _ s') \<Rightarrow> wait_spin vt enc dec uninit ts' f s'
                | r \<Rightarrow> r))"

declare wait_spin.simps [simp del]

text \<open>Turns in which every thread takes a step.\<close>

definition round_robin :: "nat \<Rightarrow> thread_step list" where
  "round_robin n = concat (replicate n [SenderStep [], ServerStep [] [], ReceiverStep []])"

text \<open>
  \<^verbatim>\<open>ClientFuture::wait\<close>: first the planned steps run; then every thread keeps running, three
  turns per open transaction, which is enough for all of them to complete.
\<close>

definition future_wait ::
  "'b storage_backend \<Rightarrow> (TCPBladeMessage \<Rightarrow> byte list) \<Rightarrow> (byte list \<Rightarrow> TCPBladeMessage option)
    \<Rightarrow> (nat \<Rightarrow> byte) \<Rightarrow> nat \<Rightarrow> 'b session \<Rightarrow> (unit, 'b session) outcome option" where
  "future_wait vt enc dec uninit f s =
     (if result_available (future_at f s) then Some (Ok () s)
      else wait_spin vt enc dec uninit
             ((case plan s of [] \<Rightarrow> [] | p # _ \<Rightarrow> p) @ round_robin (3 * length (txn_map (client s)))) f
             (s\<lparr>plan := tl (plan s)\<rparr>))"

section \<open>The requests of a session, sequentially\<close>

definition reply_of :: "TCPBladeMessage \<Rightarrow> abs_server \<Rightarrow> TCPBladeMessage \<times> abs_server" where
  "reply_of m a =
     (case spec_message (message m) a of
        ((code, ack), a') \<Rightarrow>
          (\<lparr>txnid = txnid m, error_code = int_of_error_code code, message = ack\<rparr>, a'))"

fun spec_run :: "TCPBladeMessage list \<Rightarrow> abs_server \<Rightarrow> TCPBladeMessage list \<times> abs_server" where
  "spec_run [] a = ([], a)"
| "spec_run (m # ms) a =
     (let (r, a1) = reply_of m a; (rs, a2) = spec_run ms a1 in (r # rs, a2))"

text \<open>Requests the server accepts, with requests and answers that fit a flatbuffer.\<close>

fun session_ok :: "TCPBladeMessage list \<Rightarrow> abs_server \<Rightarrow> bool" where
  "session_ok [] a = True"
| "session_ok (m # ms) a =
     (request_ok (message m) a \<and> msg_fits m \<and> msg_fits (fst (reply_of m a))
      \<and> session_ok ms (snd (reply_of m a)))"

lemma spec_run_append:
  "spec_run (ms @ ns) a =
     (fst (spec_run ms a) @ fst (spec_run ns (snd (spec_run ms a))), snd (spec_run ns (snd (spec_run ms a))))"
  by (induction ms arbitrary: a) (simp_all add: Let_def split_beta)

lemma session_ok_append:
  "session_ok (ms @ ns) a \<longleftrightarrow> session_ok ms a \<and> session_ok ns (snd (spec_run ms a))"
  by (induction ms arbitrary: a) (simp_all add: Let_def split_beta)

lemma length_spec_run [simp]: "length (fst (spec_run ms a)) = length ms"
  by (induction ms arbitrary: a) (simp_all add: Let_def split_beta)

section \<open>The simulation relation\<close>

text \<open>A future nobody has completed, and one that holds an answer; the lock is ignored.\<close>

definition pending :: "FutureData \<Rightarrow> bool" where
  "pending f \<longleftrightarrow> f\<lparr>sem := SpinLock_new\<rparr> = FutureData_new"

definition completed :: "TCPBladeMessage \<Rightarrow> FutureData \<Rightarrow> bool" where
  "completed ack f \<longleftrightarrow>
     (\<exists>f'. fill_future ack FutureData_new = Ok () f'
          \<and> f\<lparr>sem := SpinLock_new\<rparr> = f'\<lparr>result_available := True\<rparr>)"

definition ack_ok :: "TCPBladeMessage \<Rightarrow> bool" where
  "ack_ok m \<longleftrightarrow> msg_fits m \<and> (\<exists>f. fill_future m FutureData_new = Ok () f)"

text \<open>
  The open transactions of the client: the future at \<open>as ! i\<close> is pending, and the answer
  \<open>reps ! i\<close> is on its way to it; every other future holds the answer it was promised.
\<close>

definition open_txns ::
  "tcp_client \<Rightarrow> (nat \<rightharpoonup> TCPBladeMessage) \<Rightarrow> nat list \<Rightarrow> TCPBladeMessage list \<Rightarrow> bool" where
  "open_txns c P as reps \<longleftrightarrow>
     length as = length reps \<and> distinct as \<and> distinct (map txnid reps)
   \<and> wf_alist (txn_map c) \<and> map_of (txn_map c) = map_of (zip (map txnid reps) as)
   \<and> (\<forall>rep \<in> set reps. \<exists>k. k < curr_txn_id c \<and> txnid rep = txn_of k)
   \<and> unat (curr_txn_id c) \<le> 2 ^ 32
   \<and> (\<forall>(f, rep) \<in> set (zip as reps). P f = Some rep)
   \<and> (\<forall>f \<in> set as. \<exists>d. map_of (futures c) f = Some d \<and> pending d)
   \<and> (\<forall>f rep. P f = Some rep \<longrightarrow> f \<in> set as
        \<or> (\<exists>d. map_of (futures c) f = Some d \<and> completed rep d))
   \<and> dom P \<subseteq> {..< next_future c}"

text \<open>
  \<open>r\<close> are the answers on the wire, \<open>w\<close> the requests on the wire and \<open>q\<close> the queued ones;
  \<open>a\<close> is the abstract server once all of them are served, \<open>P\<close> the answer promised to each
  future.
\<close>

definition session_rel ::
  "('b \<Rightarrow> (ObjectID \<rightharpoonup> byte list)) \<Rightarrow> ('b \<Rightarrow> bool) \<Rightarrow> (TCPBladeMessage \<Rightarrow> byte list) \<Rightarrow> 'b session
    \<Rightarrow> abs_server \<Rightarrow> (nat \<rightharpoonup> TCPBladeMessage) \<Rightarrow> nat list
    \<Rightarrow> TCPBladeMessage list \<Rightarrow> TCPBladeMessage list \<Rightarrow> TCPBladeMessage list \<Rightarrow> bool" where
  "session_rel kv invar enc s a P as r w q \<longleftrightarrow>
     send_queue (client s) = map enc q
   \<and> c2s s = concat (map (\<lambda>m. frame (enc m)) w)
   \<and> s2c s = concat (map (\<lambda>m. frame (enc m)) r)
   \<and> \<not> terminate_threads (client s) \<and> list_all (list_all reliable) (plan s)
   \<and> invar (mem (server s))
   \<and> session_ok (w @ q) (abs_of kv (server s))
   \<and> snd (spec_run (w @ q) (abs_of kv (server s))) = a
   \<and> list_all ack_ok r
   \<and> open_txns (client s) P as (r @ fst (spec_run (w @ q) (abs_of kv (server s))))"

section \<open>Every step keeps the relation\<close>

lemma ack_ok_reply:
  assumes "request_ok (message m) a" "msg_fits (fst (reply_of m a))"
  shows "ack_ok (fst (reply_of m a))"
  using assms
  by (cases "message m")
    (auto simp: ack_ok_def reply_of_def spec_message_def fill_future_def request_ok_def
      split: prod.split option.split)

lemma open_txns_cong:
  assumes "open_txns c P as reps" "txn_map c' = txn_map c" "curr_txn_id c' = curr_txn_id c"
    "futures c' = futures c" "next_future c' = next_future c"
  shows "open_txns c' P as reps"
  using assms by (simp add: open_txns_def)

lemma frame_not_Nil [simp]: "frame b \<noteq> []"
  using length_frame [of b] by auto

lemma concat_frames_Nil: "concat (map (\<lambda>m. frame (enc m)) ms) = [] \<longleftrightarrow> ms = []"
  by (cases ms) auto

lemma fb_facts:
  assumes "flatbuffers_documented enc dec" "msg_fits m"
  shows "length (enc m) < 2 ^ 31" "dec (enc m) = Some m"
  using assms by (auto simp: flatbuffers_documented_def)

lemma client_send_reliable:
  assumes "None \<notin> set vs"
  obtains vs' where "client_send_all data vs = (True, data, vs')" "None \<notin> set vs'"
  using send_loop_reliable [OF assms, of data] assms that by (fastforce simp: client_send_all_def)

text \<open>The sender: one queued request moves to the wire.\<close>

lemma process_send_queue:
  assumes "flatbuffers_documented enc dec" "None \<notin> set vs" "\<not> terminate_threads c"
    "send_queue c = enc m # q" "msg_fits m"
  obtains n where "process_send dec vs c = Ok (frame (enc m)) (c\<lparr>send_queue := q, reuse_queue := n\<rparr>)"
    "n \<le> max reuse_max (reuse_queue c)"
proof -
  obtain vs1 where 1: "client_send_all (store32 (htonl (word_of_nat (length (enc m))))) vs =
      (True, store32 (htonl (word_of_nat (length (enc m)))), vs1)" "None \<notin> set vs1"
    using client_send_reliable [OF assms(2)] .
  obtain vs2 where 2: "client_send_all (enc m) vs1 = (True, enc m, vs2)"
    using client_send_reliable [OF 1(2)] .
  show ?thesis
    using 1 2 assms(3,4) fb_facts [OF assms(1,5)]
      that [of "if reuse_queue c < reuse_max \<and> is_write (message m) then reuse_queue c + 1 else reuse_queue c"]
    by (auto simp: process_send_def Let_def frame_def)
qed

lemma sender_step_rel:
  assumes fb: "flatbuffers_documented enc dec" and rel: "session_rel kv invar enc s a P as r w q"
    and vs: "None \<notin> set vs"
  shows "\<exists>s'. session_step vt enc dec uninit (SenderStep vs) s = Some (Ok () s')
           \<and> session_rel kv invar enc s' a P as r (w @ take 1 q) (drop 1 q)
           \<and> futures (client s') = futures (client s) \<and> plan s' = plan s"
proof (cases q)
  case Nil
  with rel have "process_send dec vs (client s) = Ok [] (client s)"
    by (simp add: session_rel_def process_send_def)
  with rel Nil show ?thesis by (simp add: session_step_def)
next
  case (Cons m q')
  with rel have q: "send_queue (client s) = enc m # map enc q'" "msg_fits m"
    "\<not> terminate_threads (client s)"
    by (auto simp: session_rel_def session_ok_append)
  obtain n where "process_send dec vs (client s) =
      Ok (frame (enc m)) ((client s)\<lparr>send_queue := map enc q', reuse_queue := n\<rparr>)"
    using process_send_queue [OF fb vs q(3,1,2)] .
  with rel Cons show ?thesis
    by (auto simp: session_step_def session_rel_def intro: open_txns_cong)
qed

text \<open>The server: the first request on the wire is answered.\<close>

context kv_backend
begin

lemma server_step_rel:
  assumes fb: "flatbuffers_documented enc dec" and rel: "session_rel kv invar enc s a P as r w q"
    and vs: "None \<notin> set vs"
  shows "\<exists>s'. session_step vt enc dec uninit (ServerStep ks vs) s = Some (Ok () s')
           \<and> session_rel kv invar enc s' a P as
               (r @ map (\<lambda>m. fst (reply_of m (abs_of kv (server s)))) (take 1 w)) (drop 1 w) q
           \<and> client s' = client s \<and> plan s' = plan s"
proof (cases w)
  case Nil
  with rel show ?thesis by (simp add: session_step_def session_rel_def)
next
  case (Cons m w')
  let ?a = "abs_of kv (server s)"
  have m: "request_ok (message m) ?a" "msg_fits m" "msg_fits (fst (reply_of m ?a))"
    and inv: "invar (mem (server s))"
    using rel Cons by (auto simp: session_rel_def)
  obtain code ack a1 where sp: "spec_message (message m) ?a = ((code, ack), a1)" by (metis surj_pair)
  then have rp: "reply_of m ?a =
      (\<lparr>txnid = txnid m, error_code = int_of_error_code code, message = ack\<rparr>, a1)"
    by (simp add: reply_of_def)
  obtain sv' where sv': "process_message vt uninit m (server s) = Ok (fst (reply_of m ?a)) sv'"
      "invar (mem sv')" "abs_of kv sv' = a1"
    using process_message_refines [OF inv m(1) sp] rp unfolding refines_def by fastforce
  let ?c = "\<lparr>inb = segments ks (c2s s), outb = [], verdicts = vs, closed = False\<rparr>"
  have bytes: "c2s s = frame (enc m) @ concat (map (\<lambda>m. frame (enc m)) w')"
    using rel Cons by (simp add: session_rel_def)
  obtain cs vs' where "process vt enc dec uninit (?c, server s) =
      Some (Ok True (?c\<lparr>inb := cs, outb := frame (enc (fst (reply_of m ?a))), verdicts := vs'\<rparr>, sv'))"
      "stream_bytes cs = concat (map (\<lambda>m. frame (enc m)) w')"
    using process_frame [OF fb m(2) _ _ _ sv'(1), of ?c "concat (map (\<lambda>m. frame (enc m)) w')"] bytes vs
    by auto
  moreover have "ack_ok (fst (reply_of m ?a))" using ack_ok_reply m by blast
  ultimately show ?thesis
    using rel Cons bytes sv' rp
    by (auto simp: session_step_def session_rel_def Let_def split_beta)
qed

end

text \<open>The receiver: the first answer on the wire completes its future.\<close>

lemma scast_size:
  assumes "n < 2 ^ 31"
  shows "unat (scast (word_of_nat n :: u32) :: u64) = n"
proof -
  have "sint (word_of_nat n :: u32) = int n"
    using assms by (simp add: sint_uint unsigned_of_nat take_bit_nat_eq_self signed_take_bit_int_eq_self
        flip: of_nat_take_bit)
  then have "(scast (word_of_nat n :: u32) :: u64) = word_of_int (int n)"
    by (metis of_int_sint)
  then show ?thesis using assms by (simp add: unat_of_nat)
qed

lemma pending_eq: "pending d \<Longrightarrow> d = FutureData_new\<lparr>sem := sem d\<rparr>"
  by (cases d) (simp add: pending_def FutureData_new_def)

lemma fill_future_pending:
  assumes "pending d" "fill_future rep FutureData_new = Ok () f"
  shows "fill_future rep d = Ok () (f\<lparr>sem := sem d\<rparr>)"
  using assms(2)
  by (subst pending_eq [OF assms(1)])
    (auto simp: fill_future_def Let_def FutureData_new_def split: tcp_message.splits)

lemma pending_not_available: "pending d \<Longrightarrow> \<not> result_available d"
  by (cases d) (simp add: pending_def FutureData_new_def)

lemma completed_available: "completed rep d \<Longrightarrow> result_available d"
  unfolding completed_def by (metis FutureData.select_convs(2) FutureData.surjective FutureData.update_convs(2,3))

lemma complete_txn_rel:
  assumes "open_txns c P (f # as) (rep # reps)" "ack_ok rep"
  shows "\<exists>d. complete_txn rep c = Ok () (c\<lparr>txn_map := AList.delete (txnid rep) (txn_map c),
               futures := AList.update f d (futures c)\<rparr>)
           \<and> completed rep d \<and> \<not> sem d"
    and "completed rep d \<Longrightarrow> open_txns (c\<lparr>txn_map := AList.delete (txnid rep) (txn_map c),
               futures := AList.update f d (futures c)\<rparr>) P as reps"
proof -
  obtain d where d: "map_of (futures c) f = Some d" "pending d"
    and t: "map_of (txn_map c) (txnid rep) = Some f"
    using assms(1) by (auto simp: open_txns_def)
  obtain g where g: "fill_future rep FutureData_new = Ok () g"
    using assms(2) by (auto simp: ack_ok_def)
  let ?d = "g\<lparr>result_available := True, sem := False\<rparr>"
  have "complete_txn rep c = Ok () (c\<lparr>txn_map := AList.delete (txnid rep) (txn_map c),
      futures := AList.update f ?d (futures c)\<rparr>)"
    using d t fill_future_pending [OF d(2) g] by (simp add: complete_txn_def Let_def spin_signal_def)
  moreover have "sem g = SpinLock_new"
    using g by (auto simp: fill_future_def Let_def FutureData_new_def split: tcp_message.splits)
  then have "completed rep ?d" using g by (simp add: completed_def SpinLock_new_def)
  ultimately show "\<exists>d. complete_txn rep c = Ok () (c\<lparr>txn_map := AList.delete (txnid rep) (txn_map c),
      futures := AList.update f d (futures c)\<rparr>) \<and> completed rep d \<and> \<not> sem d"
    by (intro exI [of _ ?d]) simp
next
  assume d: "completed rep d"
  have "txnid rep \<notin> set (map txnid reps)" "f \<notin> set as" "P f = Some rep" "length as = length reps"
    using assms(1) by (auto simp: open_txns_def)
  moreover have "(map_of (zip (map txnid reps) as)) (txnid rep) = None"
    using calculation by (simp add: map_of_zip_is_None)
  ultimately show "open_txns (c\<lparr>txn_map := AList.delete (txnid rep) (txn_map c),
      futures := AList.update f d (futures c)\<rparr>) P as reps"
    using assms(1) d by (auto simp: open_txns_def)
qed

lemma receiver_step_rel:
  assumes fb: "flatbuffers_documented enc dec" and rel: "session_rel kv invar enc s a P as r w q"
  shows "\<exists>s'. session_step vt enc dec uninit (ReceiverStep ks) s = Some (Ok () s')
           \<and> session_rel kv invar enc s' a P (if r = [] then as else tl as) (tl r) w q
           \<and> (\<forall>f. result_available (future_at f s') \<longrightarrow>
                future_at f s' = future_at f s \<or> \<not> sem (future_at f s')) \<and> plan s' = plan s"
proof (cases r)
  case Nil
  with rel show ?thesis by (simp add: session_step_def session_rel_def)
next
  case (Cons m r')
  obtain f as' where as: "as = f # as'"
    using rel Cons by (cases as) (auto simp: session_rel_def open_txns_def)
  have m: "ack_ok m" "msg_fits m" using rel Cons by (auto simp: session_rel_def ack_ok_def)
  have bytes: "s2c s = frame (enc m) @ concat (map (\<lambda>m. frame (enc m)) r')"
    using rel Cons by (simp add: session_rel_def)
  have len: "length (enc m) < 2 ^ 31" using fb_facts(1) [OF fb m(2)] .
  obtain cs1 where 1: "recv_loop 4 [] (segments ks (s2c s)) =
        Some (Some (store32 (htonl (word_of_nat (length (enc m))))), cs1)" "healthy_stream cs1"
      "stream_bytes cs1 = enc m @ concat (map (\<lambda>m. frame (enc m)) r')"
    using recv_loop_enough [of "segments ks (s2c s)" "[]" 4] bytes by (auto simp: frame_def)
  obtain cs2 where 2: "client_read_all (length (enc m)) cs1 = Some (Ok (enc m) cs2)"
      "stream_bytes cs2 = concat (map (\<lambda>m. frame (enc m)) r')"
    using recv_loop_enough [OF 1(2), of "[]" "length (enc m)"] 1(3) by (auto simp: client_read_all_def)
  let ?reps = "r' @ fst (spec_run (w @ q) (abs_of kv (server s)))"
  have ot: "open_txns (client s) P (f # as') (m # ?reps)"
    using rel Cons as by (simp add: session_rel_def)
  obtain d where d: "complete_txn m (client s) = Ok () ((client s)\<lparr>
        txn_map := AList.delete (txnid m) (txn_map (client s)),
        futures := AList.update f d (futures (client s))\<rparr>)" "completed m d" "\<not> sem d"
    using complete_txn_rel(1) [OF ot m(1)] by blast
  let ?c = "(client s)\<lparr>txn_map := AList.delete (txnid m) (txn_map (client s)),
        futures := AList.update f d (futures (client s))\<rparr>"
  let ?s = "s\<lparr>client := ?c, s2c := concat (map (\<lambda>m. frame (enc m)) r')\<rparr>"
  have "session_step vt enc dec uninit (ReceiverStep ks) s = Some (Ok () ?s)"
    using 1(1) 2 d(1) bytes fb_facts(2) [OF fb m(2)] scast_size [OF len]
    by (simp add: session_step_def process_received_def)
  moreover have "session_rel kv invar enc ?s a P as' r' w q"
    using rel Cons complete_txn_rel(2) [OF ot m(1) d(2)] by (simp add: session_rel_def)
  moreover have "\<forall>g. future_at g ?s = future_at g s \<or> \<not> sem (future_at g ?s)"
    using d(3) by (simp add: future_at_def)
  ultimately show ?thesis using Cons as by auto
qed

section \<open>Issuing a request\<close>

lemma scast_ucast_32 [simp]: "(ucast (scast (x :: u32) :: u64) :: u32) = x"
  by (rule bit_word_eqI) (auto simp: bit_unsigned_iff bit_signed_iff)

lemma txn_of_inj:
  assumes "txn_of j = txn_of k" "unat j < 2 ^ 32" "unat k < 2 ^ 32"
  shows "j = k"
proof -
  have "(ucast (txn_of j) :: u32) = ucast (txn_of k)" using assms(1) by simp
  then have "(ucast j :: u32) = ucast k" by (simp add: txn_of_def)
  then have "unat (ucast j :: u32) = unat (ucast k :: u32)" by simp
  with assms(2,3) show ?thesis
    by (simp add: unsigned_ucast_eq take_bit_eq_mod word_unat_eq_iff)
qed

lemma open_txns_issue:
  assumes o: "open_txns c P as reps" and lt: "unat (curr_txn_id c) < 2 ^ 32"
    and rep: "txnid rep = txn_of (curr_txn_id c)"
  shows "open_txns (c\<lparr>curr_txn_id := curr_txn_id c + 1,
             txn_map := AList.update (txnid rep) (next_future c) (txn_map c),
             futures := AList.update (next_future c) FutureData_new (futures c),
             next_future := next_future c + 1, send_queue := sq\<rparr>)
           (P(next_future c \<mapsto> rep)) (as @ [next_future c]) (reps @ [rep])"
proof -
  have suc: "unat (curr_txn_id c + 1) = unat (curr_txn_id c) + 1"
    using lt by (simp add: unat_word_ariths)
  have "set as \<subseteq> dom P"
  proof
    fix f assume "f \<in> set as"
    then obtain rep' where "(f, rep') \<in> set (zip as reps)"
      using o by (metis in_set_impl_in_set_zip1 open_txns_def)
    then show "f \<in> dom P" using o by (auto simp: open_txns_def)
  qed
  moreover have "next_future c \<notin> dom P" using o by (auto simp: open_txns_def)
  ultimately have fresh: "next_future c \<notin> set as" "P (next_future c) = None" by auto
  have new: "txnid rep \<notin> set (map txnid reps)"
  proof
    assume "txnid rep \<in> set (map txnid reps)"
    then obtain k where "k < curr_txn_id c" "txn_of (curr_txn_id c) = txn_of k"
      using o rep by (fastforce simp: open_txns_def)
    with txn_of_inj [of "curr_txn_id c" k] lt show False by (simp add: word_less_nat_alt)
  qed
  have less: "k < curr_txn_id c + 1" if "k < curr_txn_id c \<or> k = curr_txn_id c" for k
    using that suc by (auto simp: word_less_nat_alt)
  have len: "length as = length reps" and mp: "map_of (txn_map c) = map_of (zip (map txnid reps) as)"
    using o by (auto simp: open_txns_def)
  have none: "map_of (zip (map txnid reps) as) (txnid rep) = None"
    using len new by (simp add: map_of_zip_is_None)
  have tm: "map_of (AList.update (txnid rep) (next_future c) (txn_map c)) =
      map_of (zip (map txnid (reps @ [rep])) (as @ [next_future c]))"
    using len none
    by (simp add: mp fun_eq_iff map_add_def del: map_of_zip_is_None split: option.split)
  have ids: "\<forall>x \<in> set (reps @ [rep]). \<exists>k. k < curr_txn_id c + 1 \<and> txnid x = txn_of k"
    using o rep less unfolding open_txns_def by fastforce
  have prom: "\<forall>(f, x) \<in> set (zip (as @ [next_future c]) (reps @ [rep])). (P(next_future c \<mapsto> rep)) f = Some x"
    using o fresh(1) len by (auto simp: open_txns_def dest: set_zip_leftD)
  have pend: "\<forall>f \<in> set (as @ [next_future c]). \<exists>d.
      map_of (AList.update (next_future c) FutureData_new (futures c)) f = Some d \<and> pending d"
    using o by (auto simp: open_txns_def pending_def FutureData_new_def SpinLock_new_def)
  have rest: "\<forall>f x. (P(next_future c \<mapsto> rep)) f = Some x \<longrightarrow> f \<in> set (as @ [next_future c])
      \<or> (\<exists>d. map_of (AList.update (next_future c) FutureData_new (futures c)) f = Some d \<and> completed x d)"
    using o by (auto simp: open_txns_def)
  have dom: "dom (P(next_future c \<mapsto> rep)) \<subseteq> {..< next_future c + 1}"
    using o by (auto simp: open_txns_def)
  have old: "distinct as" "distinct (map txnid reps)" "wf_alist (txn_map c)"
    using o by (auto simp: open_txns_def)
  show ?thesis
    unfolding open_txns_def
    using len old fresh(1) new tm ids suc lt prom pend rest dom
    by (intro conjI) (simp_all only: tcp_client.simps, simp_all)
qed

text \<open>
  A request joins the end of the queue: the abstract server takes it at once, and the
  future is promised the abstract server's answer.
\<close>

lemma issue_rel:
  assumes rel: "session_rel kv invar enc s a P as r w q"
    and lt: "unat (curr_txn_id (client s)) < 2 ^ 32"
    and msg: "msg = \<lparr>txnid = txn_of (curr_txn_id (client s)), error_code = 0, message = m\<rparr>"
    and ok: "request_ok m a" "msg_fits msg" "msg_fits (fst (reply_of msg a))"
    and i: "issue enc m (client s) = (f, c)"
  shows "session_rel kv invar enc (s\<lparr>client := c\<rparr>) (snd (reply_of msg a)) (P(f \<mapsto> fst (reply_of msg a)))
           (as @ [f]) r w (q @ [msg])"
    and "curr_txn_id c = curr_txn_id (client s) + 1"
proof -
  have t: "txnid (fst (reply_of msg a)) = txn_of (curr_txn_id (client s))"
    using msg by (simp add: reply_of_def split: prod.split)
  have c: "f = next_future (client s)" "c = (client s)\<lparr>curr_txn_id := curr_txn_id (client s) + 1,
      txn_map := AList.update (txnid (fst (reply_of msg a))) (next_future (client s)) (txn_map (client s)),
      futures := AList.update (next_future (client s)) FutureData_new (futures (client s)),
      next_future := next_future (client s) + 1, send_queue := send_queue (client s) @ [enc msg]\<rparr>"
    using i t msg by (auto simp: issue_def enqueue_message_def Let_def)
  show "curr_txn_id c = curr_txn_id (client s) + 1" by (simp add: c(2))
  have "open_txns c (P(f \<mapsto> fst (reply_of msg a))) (as @ [f])
      ((r @ fst (spec_run (w @ q) (abs_of kv (server s)))) @ [fst (reply_of msg a)])"
    unfolding c by (rule open_txns_issue) (use rel lt t in \<open>auto simp: session_rel_def\<close>)
  moreover have "spec_run (w @ q @ [msg]) (abs_of kv (server s)) =
      (fst (spec_run (w @ q) (abs_of kv (server s))) @ [fst (reply_of msg a)], snd (reply_of msg a))"
    using rel spec_run_append [of "w @ q" "[msg]" "abs_of kv (server s)"]
    by (simp add: session_rel_def split_beta)
  moreover have "session_ok (w @ q @ [msg]) (abs_of kv (server s))"
    using rel ok msg session_ok_append [of "w @ q" "[msg]"] by (simp add: session_rel_def)
  ultimately show "session_rel kv invar enc (s\<lparr>client := c\<rparr>) (snd (reply_of msg a))
      (P(f \<mapsto> fst (reply_of msg a))) (as @ [f]) r w (q @ [msg])"
    using rel by (auto simp: session_rel_def c(2))
qed

section \<open>Waiting completes the future\<close>

lemma future_status:
  assumes "session_rel kv invar enc s a P as r w q" "P f = Some rep"
  shows "(f \<in> set as \<and> pending (future_at f s)) \<or> completed rep (future_at f s)"
  using assms by (fastforce simp: session_rel_def open_txns_def future_at_def)

lemma set_sem_rel:
  assumes rel: "session_rel kv invar enc s a P as r w q" and f: "P f = Some rep"
  shows "session_rel kv invar enc (set_sem l f s) a P as r w q"
proof -
  let ?d = "(future_at f s)\<lparr>sem := l\<rparr>"
  let ?c = "(client s)\<lparr>futures := AList.update f ?d (futures (client s))\<rparr>"
  have keep: "pending ?d \<longleftrightarrow> pending (future_at f s)" "completed x ?d \<longleftrightarrow> completed x (future_at f s)" for x
    by (simp_all add: pending_def completed_def)
  have at: "future_at f s = d" if "map_of (futures (client s)) f = Some d" for d
    using that by (simp add: future_at_def)
  have "open_txns ?c P as reps" if o: "open_txns (client s) P as reps" for reps
  proof -
    have "\<forall>g \<in> set as. \<exists>d. map_of (futures ?c) g = Some d \<and> pending d"
      using o keep(1) at by (auto simp: open_txns_def)
    moreover have st: "\<forall>g x. P g = Some x \<longrightarrow> g \<in> set as
        \<or> (\<exists>d. map_of (futures (client s)) g = Some d \<and> completed x d)"
      using o by (simp add: open_txns_def)
    have "\<forall>g x. P g = Some x \<longrightarrow> g \<in> set as
        \<or> (\<exists>d. map_of (futures ?c) g = Some d \<and> completed x d)"
    proof (intro allI impI)
      fix g x assume "P g = Some x"
      with st keep(2) [of x] at show "g \<in> set as \<or> (\<exists>d. map_of (futures ?c) g = Some d \<and> completed x d)"
        by (cases "g = f") fastforce+
    qed
    ultimately show ?thesis using o by (simp add: open_txns_def)
  qed
  with rel show ?thesis by (simp add: session_rel_def set_sem_def)
qed

definition work :: "TCPBladeMessage list \<Rightarrow> TCPBladeMessage list \<Rightarrow> TCPBladeMessage list \<Rightarrow> nat" where
  "work r w q = 3 * length q + 2 * length w + length r"

lemma work_zero_completed:
  assumes "session_rel kv invar enc s a P as r w q" "P f = Some rep" "work r w q = 0"
  shows "completed rep (future_at f s)"
proof -
  have "as = []" using assms(1,3) by (auto simp: session_rel_def open_txns_def work_def)
  with future_status [OF assms(1,2)] show ?thesis by simp
qed

text \<open>Whether a step finds work to do.\<close>

fun busy :: "thread_step \<Rightarrow> TCPBladeMessage list \<Rightarrow> TCPBladeMessage list \<Rightarrow> TCPBladeMessage list \<Rightarrow> bool" where
  "busy (SenderStep _) r w q = (q \<noteq> [])"
| "busy (ServerStep _ _) r w q = (w \<noteq> [])"
| "busy (ReceiverStep _) r w q = (r \<noteq> [])"

context kv_backend
begin

lemma session_step_rel:
  assumes fb: "flatbuffers_documented enc dec" and rel: "session_rel kv invar enc s a P as r w q"
    and t: "reliable t"
  shows "\<exists>s' as' r' w' q'. session_step vt enc dec uninit t s = Some (Ok () s')
           \<and> session_rel kv invar enc s' a P as' r' w' q'
           \<and> (if busy t r w q then work r' w' q' < work r w q else r' = r \<and> w' = w \<and> q' = q)
           \<and> (\<forall>f. result_available (future_at f s') \<longrightarrow>
                future_at f s' = future_at f s \<or> \<not> sem (future_at f s')) \<and> plan s' = plan s"
proof (cases t)
  case (SenderStep vs)
  from sender_step_rel [OF fb rel, of vs vt uninit] t SenderStep
  obtain s' where s': "session_step vt enc dec uninit t s = Some (Ok () s')"
      "session_rel kv invar enc s' a P as r (w @ take 1 q) (drop 1 q)"
      "futures (client s') = futures (client s)" "plan s' = plan s" by auto
  have "if busy t r w q then work r (w @ take 1 q) (drop 1 q) < work r w q
      else w @ take 1 q = w \<and> drop 1 q = q"
    using SenderStep by (cases q) (auto simp: work_def)
  moreover have "future_at f s' = future_at f s" for f using s'(3) by (simp add: future_at_def)
  ultimately show ?thesis using s' by (intro exI [of _ s'] exI) (auto split: if_splits)
next
  case (ServerStep ks vs)
  from server_step_rel [OF fb rel, of vs uninit ks] t ServerStep
  obtain s' where s': "session_step vt enc dec uninit t s = Some (Ok () s')"
      "session_rel kv invar enc s' a P as
         (r @ map (\<lambda>m. fst (reply_of m (abs_of kv (server s)))) (take 1 w)) (drop 1 w) q"
      "client s' = client s" "plan s' = plan s" by auto
  have "if busy t r w q then work (r @ map (\<lambda>m. fst (reply_of m (abs_of kv (server s)))) (take 1 w))
        (drop 1 w) q < work r w q else w = []"
    using ServerStep by (cases w) (auto simp: work_def)
  moreover have "future_at f s' = future_at f s" for f using s'(3) by (simp add: future_at_def)
  ultimately show ?thesis using s' by (intro exI [of _ s'] exI) (auto split: if_splits)
next
  case (ReceiverStep ks)
  from receiver_step_rel [OF fb rel, of vt uninit ks] ReceiverStep
  obtain s' where s': "session_step vt enc dec uninit t s = Some (Ok () s')"
      "session_rel kv invar enc s' a P (if r = [] then as else tl as) (tl r) w q"
      "\<forall>f. result_available (future_at f s') \<longrightarrow> future_at f s' = future_at f s \<or> \<not> sem (future_at f s')"
      "plan s' = plan s" by auto
  have "if busy t r w q then work (tl r) w q < work r w q else tl r = r"
    using ReceiverStep by (cases r) (auto simp: work_def)
  then show ?thesis using s'
    by (intro exI [of _ s'] exI [of _ "if r = [] then as else tl as"] exI [of _ "tl r"] exI [of _ w]
        exI [of _ q]) simp
qed

end

text \<open>The caller still spins: the result is not there, or it has just been signalled.\<close>

definition waiting :: "nat \<Rightarrow> 'b session \<Rightarrow> bool" where
  "waiting f s \<longleftrightarrow> (result_available (future_at f s) \<longrightarrow> \<not> sem (future_at f s))"

lemma future_at_set_sem: "future_at f (set_sem l f s) = (future_at f s)\<lparr>sem := l\<rparr>"
  by (simp add: future_at_def set_sem_def)

lemma plan_set_sem [simp]: "plan (set_sem l f s) = plan s"
  by (simp add: set_sem_def)

text \<open>A call that returns with the promised answer in the future and the relation kept.\<close>

definition returns ::
  "('b \<Rightarrow> (ObjectID \<rightharpoonup> byte list)) \<Rightarrow> ('b \<Rightarrow> bool) \<Rightarrow> (unit, 'b session) outcome option
    \<Rightarrow> (TCPBladeMessage \<Rightarrow> byte list) \<Rightarrow> abs_server \<Rightarrow> (nat \<rightharpoonup> TCPBladeMessage) \<Rightarrow> nat
    \<Rightarrow> TCPBladeMessage \<Rightarrow> thread_step list list \<Rightarrow> bool" where
  "returns kv invar m enc a P f rep pl \<longleftrightarrow>
     (\<exists>s as r w q. m = Some (Ok () s) \<and> session_rel kv invar enc s a P as r w q
        \<and> completed rep (future_at f s) \<and> plan s = pl)"

context kv_backend
begin

lemma wait_spin_available:
  assumes rel: "session_rel kv invar enc s a P as r w q" and f: "P f = Some rep" and "waiting f s"
    and av: "result_available (future_at f s)"
  shows "returns kv invar (wait_spin vt enc dec uninit ts f s) enc a P f rep (plan s)"
proof -
  have "completed rep (future_at f s)"
    using future_status [OF rel f] av pending_not_available by blast
  then have "completed rep (future_at f (take_lock f s))"
    by (simp add: future_at_set_sem completed_def)
  moreover have "wait_spin vt enc dec uninit ts f s = Some (Ok () (take_lock f s))"
    using assms(3) av by (subst wait_spin.simps) (simp add: waiting_def)
  ultimately show ?thesis using set_sem_rel [OF rel f] by (fastforce simp: returns_def)
qed

lemma wait_spin_one:
  assumes fb: "flatbuffers_documented enc dec" and rel: "session_rel kv invar enc s a P as r w q"
    and f: "P f = Some rep" and t: "reliable t" and wt: "waiting f s"
  shows "returns kv invar (wait_spin vt enc dec uninit (t # ts) f s) enc a P f rep (plan s)
       \<or> (\<exists>s' as' r' w' q'. wait_spin vt enc dec uninit (t # ts) f s = wait_spin vt enc dec uninit ts f s'
           \<and> session_rel kv invar enc s' a P as' r' w' q'
           \<and> (if busy t r w q then work r' w' q' < work r w q else r' = r \<and> w' = w \<and> q' = q)
           \<and> waiting f s' \<and> plan s' = plan s)"
proof (cases "result_available (future_at f s)")
  case True
  from wait_spin_available [OF rel f wt True] show ?thesis by blast
next
  case False
  obtain s' as' r' w' q' where s': "session_step vt enc dec uninit t (take_lock f s) = Some (Ok () s')"
      "session_rel kv invar enc s' a P as' r' w' q'"
      "if busy t r w q then work r' w' q' < work r w q else r' = r \<and> w' = w \<and> q' = q"
      "\<forall>g. result_available (future_at g s') \<longrightarrow>
         future_at g s' = future_at g (take_lock f s) \<or> \<not> sem (future_at g s')"
      "plan s' = plan s"
    using session_step_rel [OF fb set_sem_rel [OF rel f, of True] t, of uninit] by auto
  then have "waiting f s'" using False by (fastforce simp: waiting_def future_at_set_sem)
  moreover have "wait_spin vt enc dec uninit (t # ts) f s = wait_spin vt enc dec uninit ts f s'"
    using False s'(1) by (subst wait_spin.simps) simp
  ultimately show ?thesis using s' by blast
qed

lemma work_le: "(if b then work r' w' q' < work r w q else r' = r \<and> w' = w \<and> q' = q) \<Longrightarrow>
    work r' w' q' \<le> work r w q"
  by (auto split: if_splits)

lemma wait_spin_prefix:
  assumes fb: "flatbuffers_documented enc dec" and "session_rel kv invar enc s a P as r w q"
    and f: "P f = Some rep" and "list_all reliable ts" and "waiting f s"
  shows "returns kv invar (wait_spin vt enc dec uninit (ts @ us) f s) enc a P f rep (plan s)
       \<or> (\<exists>s' as' r' w' q'. wait_spin vt enc dec uninit (ts @ us) f s = wait_spin vt enc dec uninit us f s'
           \<and> session_rel kv invar enc s' a P as' r' w' q' \<and> work r' w' q' \<le> work r w q
           \<and> waiting f s' \<and> plan s' = plan s)"
  using assms(2,4,5)
proof (induction ts arbitrary: s as r w q)
  case Nil
  then show ?case by (intro disjI2 exI [of _ s]) auto
next
  case (Cons t ts)
  have t: "reliable t" "list_all reliable ts" using Cons.prems(2) by auto
  from wait_spin_one [OF fb Cons.prems(1) f t(1) Cons.prems(3), of uninit "ts @ us"] show ?case
  proof
    assume "returns kv invar (wait_spin vt enc dec uninit (t # ts @ us) f s) enc a P f rep (plan s)"
    then show ?thesis by simp
  next
    assume "\<exists>s' as' r' w' q'. wait_spin vt enc dec uninit (t # ts @ us) f s =
             wait_spin vt enc dec uninit (ts @ us) f s'
           \<and> session_rel kv invar enc s' a P as' r' w' q'
           \<and> (if busy t r w q then work r' w' q' < work r w q else r' = r \<and> w' = w \<and> q' = q)
           \<and> waiting f s' \<and> plan s' = plan s"
    then obtain s1 as1 r1 w1 q1 where
      1: "wait_spin vt enc dec uninit (t # ts @ us) f s = wait_spin vt enc dec uninit (ts @ us) f s1"
         "session_rel kv invar enc s1 a P as1 r1 w1 q1" "work r1 w1 q1 \<le> work r w q"
         "waiting f s1" "plan s1 = plan s"
      using work_le by blast
    from Cons.IH [OF 1(2) t(2) 1(4)] 1 show ?thesis by (fastforce intro: le_trans)
  qed
qed

lemma wait_spin_round:
  assumes fb: "flatbuffers_documented enc dec" and rel: "session_rel kv invar enc s a P as r w q"
    and f: "P f = Some rep" and wt: "waiting f s" and pos: "0 < work r w q"
  shows "returns kv invar (wait_spin vt enc dec uninit ([SenderStep [], ServerStep [] [], ReceiverStep []] @ us) f s)
           enc a P f rep (plan s)
       \<or> (\<exists>s' as' r' w' q'. wait_spin vt enc dec uninit
             ([SenderStep [], ServerStep [] [], ReceiverStep []] @ us) f s = wait_spin vt enc dec uninit us f s'
           \<and> session_rel kv invar enc s' a P as' r' w' q' \<and> work r' w' q' < work r w q
           \<and> waiting f s' \<and> plan s' = plan s)"
    (is "?R \<or> ?E")
proof (rule disjCI)
  assume no: "\<not> ?E"
  let ?us1 = "[ServerStep [] [], ReceiverStep []] @ us" and ?us2 = "ReceiverStep [] # us"
  from wait_spin_one [OF fb rel f _ wt, of "SenderStep []" uninit ?us1]
  consider "?R" | s1 as1 r1 w1 q1 where
    "wait_spin vt enc dec uninit (SenderStep [] # ?us1) f s = wait_spin vt enc dec uninit ?us1 f s1"
    "session_rel kv invar enc s1 a P as1 r1 w1 q1"
    "if q \<noteq> [] then work r1 w1 q1 < work r w q else r1 = r \<and> w1 = w \<and> q1 = q"
    "waiting f s1" "plan s1 = plan s" by auto
  then show ?R
  proof cases
    case 2
    note s1 = this
    from wait_spin_one [OF fb s1(2) f _ s1(4), of "ServerStep [] []" uninit ?us2]
    consider "?R" | s2 as2 r2 w2 q2 where
      "wait_spin vt enc dec uninit (SenderStep [] # ?us1) f s = wait_spin vt enc dec uninit ?us2 f s2"
      "session_rel kv invar enc s2 a P as2 r2 w2 q2"
      "if w1 \<noteq> [] then work r2 w2 q2 < work r1 w1 q1 else r2 = r1 \<and> w2 = w1 \<and> q2 = q1"
      "waiting f s2" "plan s2 = plan s" using s1(1,5) by auto
    then show ?R
    proof cases
      case 2
      note s2 = this
      from wait_spin_one [OF fb s2(2) f _ s2(4), of "ReceiverStep []" uninit us]
      consider "?R" | s3 as3 r3 w3 q3 where
        "wait_spin vt enc dec uninit (SenderStep [] # ?us1) f s = wait_spin vt enc dec uninit us f s3"
        "session_rel kv invar enc s3 a P as3 r3 w3 q3"
        "if r2 \<noteq> [] then work r3 w3 q3 < work r2 w2 q2 else r3 = r2 \<and> w3 = w2 \<and> q3 = q2"
        "waiting f s3" "plan s3 = plan s" using s2(1,5) by auto
      then show ?R
      proof cases
        case 2
        have "work r3 w3 q3 < work r w q"
          using s1(3) s2(3) 2(3) pos by (auto simp: work_def split: if_splits)
        with 2 no show ?R by auto
      qed
    qed
  qed
qed

lemma wait_spin_round_robin:
  assumes fb: "flatbuffers_documented enc dec" and "session_rel kv invar enc s a P as r w q"
    and f: "P f = Some rep" and "waiting f s" and "work r w q \<le> n"
  shows "returns kv invar (wait_spin vt enc dec uninit (round_robin n) f s) enc a P f rep (plan s)"
  using assms(2,4,5)
proof (induction n arbitrary: s as r w q rule: less_induct)
  case (less n)
  show ?case
  proof (cases "work r w q = 0")
    case True
    from wait_spin_available [OF less.prems(1) f less.prems(2)]
      completed_available work_zero_completed [OF less.prems(1) f True]
    show ?thesis by blast
  next
    case False
    with less.prems(3) obtain m where n: "n = Suc m" by (cases n) auto
    have rr: "round_robin n = [SenderStep [], ServerStep [] [], ReceiverStep []] @ round_robin m"
      by (simp add: round_robin_def n)
    from wait_spin_round [OF fb less.prems(1) f less.prems(2), of uninit "round_robin m"] False
    consider "returns kv invar (wait_spin vt enc dec uninit (round_robin n) f s) enc a P f rep (plan s)"
      | s1 as1 r1 w1 q1 where
      "wait_spin vt enc dec uninit (round_robin n) f s = wait_spin vt enc dec uninit (round_robin m) f s1"
      "session_rel kv invar enc s1 a P as1 r1 w1 q1" "work r1 w1 q1 < work r w q"
      "waiting f s1" "plan s1 = plan s" unfolding rr by auto
    then show ?thesis
    proof cases
      case 2
      with less.IH [of m s1 as1 r1 w1 q1] less.prems(3) n show ?thesis by simp
    qed
  qed
qed

lemma future_wait_rel:
  assumes fb: "flatbuffers_documented enc dec" and rel: "session_rel kv invar enc s a P as r w q"
    and f: "P f = Some rep"
  shows "returns kv invar (future_wait vt enc dec uninit f s) enc a P f rep (plan s)
       \<or> returns kv invar (future_wait vt enc dec uninit f s) enc a P f rep (tl (plan s))"
proof (cases "result_available (future_at f s)")
  case True
  then have "completed rep (future_at f s)"
    using future_status [OF rel f] pending_not_available by blast
  with True rel show ?thesis by (auto simp: future_wait_def returns_def)
next
  case False
  let ?s = "s\<lparr>plan := tl (plan s)\<rparr>" and ?ts = "case plan s of [] \<Rightarrow> [] | p # _ \<Rightarrow> p"
  have "list_all reliable ?ts" "list_all (list_all reliable) (tl (plan s))"
    using rel by (cases "plan s"; simp add: session_rel_def)+
  then have rel': "session_rel kv invar enc ?s a P as r w q" and ts: "list_all reliable ?ts"
    using rel by (auto simp: session_rel_def)
  have wt: "waiting f ?s" using False by (simp add: waiting_def future_at_def)
  let ?reps = "r @ fst (spec_run (w @ q) (abs_of kv (server s)))"
  have o: "wf_alist (txn_map (client s))" "distinct (map txnid ?reps)" "length as = length ?reps"
    "map_of (txn_map (client s)) = map_of (zip (map txnid ?reps) as)"
    using rel by (auto simp: session_rel_def open_txns_def)
  have "length (txn_map (client s)) = card (set (map txnid ?reps))"
    using card_dom_alist [OF o(1)] o(3,4) by simp
  also have "\<dots> = length ?reps" using distinct_card [OF o(2)] by simp
  finally have n: "work r w q \<le> 3 * length (txn_map (client s))" by (simp add: work_def)
  let ?n = "3 * length (txn_map (client s))"
  from wait_spin_prefix [OF fb rel' f ts wt, of uninit "round_robin ?n"]
  consider "returns kv invar (wait_spin vt enc dec uninit (?ts @ round_robin ?n) f ?s) enc a P f rep (tl (plan s))"
    | s1 as1 r1 w1 q1 where
    "wait_spin vt enc dec uninit (?ts @ round_robin ?n) f ?s = wait_spin vt enc dec uninit (round_robin ?n) f s1"
    "session_rel kv invar enc s1 a P as1 r1 w1 q1" "work r1 w1 q1 \<le> work r w q"
    "waiting f s1" "plan s1 = tl (plan s)" by auto
  then have "returns kv invar (wait_spin vt enc dec uninit (?ts @ round_robin ?n) f ?s) enc a P f rep (tl (plan s))"
  proof cases
    case 2
    with wait_spin_round_robin [OF fb 2(2) f 2(4), of ?n uninit] n show ?thesis by simp
  qed
  with False show ?thesis by (simp add: future_wait_def)
qed

end

section \<open>Synchronous calls\<close>

text \<open>
  A full send queue makes \<^verbatim>\<open>enqueue_message\<close> repeat its push until the sender thread has
  taken a message; then the request is issued.
\<close>

definition client_call ::
  "'b storage_backend \<Rightarrow> (TCPBladeMessage \<Rightarrow> byte list) \<Rightarrow> (byte list \<Rightarrow> TCPBladeMessage option)
    \<Rightarrow> (nat \<Rightarrow> byte) \<Rightarrow> (tcp_client \<Rightarrow> (nat, tcp_client) outcome) \<Rightarrow> 'b session \<Rightarrow> (nat, 'b session) call" where
  "client_call vt enc dec uninit f s =
     bindW (if client_full (client s) then session_step vt enc dec uninit (SenderStep []) s
            else Some (Ok () s))
       (\<lambda>_ s1. Some (liftO (\<lambda>c. s1\<lparr>client := c\<rparr>) (f (client s1))))"

text \<open>\<^verbatim>\<open>future.get()\<close> and \<^verbatim>\<open>future.getDataPair()\<close>, with the wait.\<close>

definition wait_get ::
  "'b storage_backend \<Rightarrow> (TCPBladeMessage \<Rightarrow> byte list) \<Rightarrow> (byte list \<Rightarrow> TCPBladeMessage option)
    \<Rightarrow> (nat \<Rightarrow> byte) \<Rightarrow> nat \<Rightarrow> 'b session \<Rightarrow> (bool, 'b session) call" where
  "wait_get vt enc dec uninit f s =
     bindW (future_wait vt enc dec uninit f s) (\<lambda>_ s'. raise_or (future_get (future_at f s')) s')"

definition wait_getDataPair ::
  "'b storage_backend \<Rightarrow> (TCPBladeMessage \<Rightarrow> byte list) \<Rightarrow> (byte list \<Rightarrow> TCPBladeMessage option)
    \<Rightarrow> (nat \<Rightarrow> byte) \<Rightarrow> nat \<Rightarrow> 'b session \<Rightarrow> (byte list \<times> u32, 'b session) call" where
  "wait_getDataPair vt enc dec uninit f s =
     bindW (future_wait vt enc dec uninit f s)
       (\<lambda>_ s'. raise_or (future_getDataPair (future_at f s')) s')"

definition read_sync ::
  "'b storage_backend \<Rightarrow> (TCPBladeMessage \<Rightarrow> byte list) \<Rightarrow> (byte list \<Rightarrow> TCPBladeMessage option)
    \<Rightarrow> (nat \<Rightarrow> byte) \<Rightarrow> ObjectID \<Rightarrow> 'b session \<Rightarrow> (byte list \<times> u32, 'b session) call" where
  "read_sync vt enc dec uninit oid s =
     bindW (client_call vt enc dec uninit (read_async enc oid) s) (wait_getDataPair vt enc dec uninit)"

definition read_sync_bulk ::
  "'b storage_backend \<Rightarrow> (TCPBladeMessage \<Rightarrow> byte list) \<Rightarrow> (byte list \<Rightarrow> TCPBladeMessage option)
    \<Rightarrow> (nat \<Rightarrow> byte) \<Rightarrow> ObjectID list \<Rightarrow> 'b session \<Rightarrow> (byte list \<times> u32, 'b session) call" where
  "read_sync_bulk vt enc dec uninit oids s =
     bindW (client_call vt enc dec uninit (read_async_bulk enc oids) s) (wait_getDataPair vt enc dec uninit)"

definition write_sync ::
  "'b storage_backend \<Rightarrow> (TCPBladeMessage \<Rightarrow> byte list) \<Rightarrow> (byte list \<Rightarrow> TCPBladeMessage option)
    \<Rightarrow> (nat \<Rightarrow> byte) \<Rightarrow> ObjectID \<Rightarrow> write_unit \<Rightarrow> 'b session \<Rightarrow> (bool, 'b session) call" where
  "write_sync vt enc dec uninit oid w s =
     bindW (client_call vt enc dec uninit (write_async enc uninit oid w) s) (wait_get vt enc dec uninit)"

definition write_sync_bulk ::
  "'b storage_backend \<Rightarrow> (TCPBladeMessage \<Rightarrow> byte list) \<Rightarrow> (byte list \<Rightarrow> TCPBladeMessage option)
    \<Rightarrow> (nat \<Rightarrow> byte) \<Rightarrow> ObjectID list \<Rightarrow> write_unit \<Rightarrow> 'b session \<Rightarrow> (bool, 'b session) call" where
  "write_sync_bulk vt enc dec uninit oids w s =
     bindW (client_call vt enc dec uninit (write_async_bulk enc uninit oids w) s) (wait_get vt enc dec uninit)"

definition client_remove ::
  "'b storage_backend \<Rightarrow> (TCPBladeMessage \<Rightarrow> byte list) \<Rightarrow> (byte list \<Rightarrow> TCPBladeMessage option)
    \<Rightarrow> (nat \<Rightarrow> byte) \<Rightarrow> ObjectID \<Rightarrow> 'b session \<Rightarrow> (bool, 'b session) call" where
  "client_remove vt enc dec uninit oid s =
     bindW (client_call vt enc dec uninit (remove_async enc oid) s) (wait_get vt enc dec uninit)"

text \<open>
  The relation with the messages under way hidden: \<open>a\<close> is the store as the application
  sees it, \<open>P\<close> the answers promised to its futures, \<open>n\<close> the number of transactions that can
  still be issued before the 32-bit transaction ids repeat.
\<close>

definition session_view ::
  "('b \<Rightarrow> (ObjectID \<rightharpoonup> byte list)) \<Rightarrow> ('b \<Rightarrow> bool) \<Rightarrow> (TCPBladeMessage \<Rightarrow> byte list) \<Rightarrow> 'b session
    \<Rightarrow> abs_server \<Rightarrow> (nat \<rightharpoonup> TCPBladeMessage) \<Rightarrow> nat \<Rightarrow> bool" where
  "session_view kv invar enc s a P n \<longleftrightarrow>
     (\<exists>as r w q. session_rel kv invar enc s a P as r w q)
     \<and> unat (curr_txn_id (client s)) + n \<le> 2 ^ 32"

definition msg_ok :: "tcp_message \<Rightarrow> abs_server \<Rightarrow> bool" where
  "msg_ok m a \<longleftrightarrow> request_ok m a \<and> payload_size m < 2 ^ 30
     \<and> payload_size (snd (fst (spec_message m a))) < 2 ^ 30"

text \<open>The answer a transaction will get, up to its id.\<close>

definition answers :: "TCPBladeMessage \<Rightarrow> tcp_message \<Rightarrow> abs_server \<Rightarrow> bool" where
  "answers rep m a \<longleftrightarrow>
     error_code rep = int_of_error_code (fst (fst (spec_message m a)))
     \<and> message rep = snd (fst (spec_message m a))"

lemma curr_txn_step:
  assumes "session_step vt enc dec uninit (SenderStep vs) s = Some (Ok () s')"
  shows "curr_txn_id (client s') = curr_txn_id (client s)"
  using assms
  by (auto simp: session_step_def process_send_def Let_def split: outcome.splits list.splits if_splits
      prod.splits option.splits)

context kv_backend
begin

lemma client_call_view:
  assumes fb: "flatbuffers_documented enc dec" and v: "session_view kv invar enc s a P (Suc n)"
    and ok: "msg_ok m a"
    and f: "\<And>c. \<exists>k. f c = (case issue enc m (c\<lparr>reuse_queue := k\<rparr>) of (f, c') \<Rightarrow> Ok f c')"
  shows "\<exists>g s' rep. client_call vt enc dec uninit f s = Some (Ok g s') \<and> P g = None \<and> answers rep m a
           \<and> session_view kv invar enc s' (snd (spec_message m a)) (P(g \<mapsto> rep)) n"
proof -
  obtain as r w q where rel: "session_rel kv invar enc s a P as r w q"
    using v by (auto simp: session_view_def)
  obtain s1 w1 q1 where s1: "(if client_full (client s) then session_step vt enc dec uninit (SenderStep []) s
        else Some (Ok () s)) = Some (Ok () s1)" "session_rel kv invar enc s1 a P as r w1 q1"
      "curr_txn_id (client s1) = curr_txn_id (client s)"
  proof (cases "client_full (client s)")
    case True
    with sender_step_rel [OF fb rel, of "[]" vt uninit] that curr_txn_step show ?thesis by fastforce
  next
    case False
    with that rel show ?thesis by auto
  qed
  obtain k where k: "f (client s1) = (case issue enc m ((client s1)\<lparr>reuse_queue := k\<rparr>) of (f, c') \<Rightarrow> Ok f c')"
    using f by blast
  let ?s1 = "s1\<lparr>client := (client s1)\<lparr>reuse_queue := k\<rparr>\<rparr>"
  have rel1: "session_rel kv invar enc ?s1 a P as r w1 q1"
    using s1(2) by (auto simp: session_rel_def intro: open_txns_cong)
  obtain g c where g: "issue enc m (client ?s1) = (g, c)" by (metis surj_pair)
  define msg where "msg = \<lparr>txnid = txn_of (curr_txn_id (client ?s1)), error_code = 0, message = m\<rparr>"
  have lt: "unat (curr_txn_id (client ?s1)) < 2 ^ 32" using v s1(3) by (simp add: session_view_def)
  have fits: "msg_fits msg" "msg_fits (fst (reply_of msg a))" "request_ok m a"
    using ok by (auto simp: msg_ok_def msg_fits_def msg_def reply_of_def split: prod.split)
  note i = issue_rel [OF rel1 lt msg_def fits(3,1,2) g]
  have "P g = None"
    using rel1 g by (auto simp: session_rel_def open_txns_def issue_def enqueue_message_def Let_def)
  moreover have "snd (reply_of msg a) = snd (spec_message m a)" "answers (fst (reply_of msg a)) m a"
    by (auto simp: reply_of_def msg_def answers_def split: prod.split)
  moreover have "session_view kv invar enc (s1\<lparr>client := c\<rparr>) (snd (reply_of msg a))
      (P(g \<mapsto> fst (reply_of msg a))) n"
    using i lt v s1(3) by (auto simp: session_view_def unat_word_ariths)
  ultimately show ?thesis
    using s1(1) k g by (intro exI [of _ g] exI [of _ "s1\<lparr>client := c\<rparr>"] exI [of _ "fst (reply_of msg a)"])
      (auto simp: client_call_def)
qed

end

lemma complete_txn_curr:
  "state_of (complete_txn ack c) = Some c' \<Longrightarrow> curr_txn_id c' = curr_txn_id c"
  by (auto simp: complete_txn_def Let_def split: option.splits outcome.splits)

lemma process_received_txn:
  assumes "process_received dec (cs, c) = Some (Ok () (cs', c'))"
  shows "\<exists>ack. complete_txn ack c = Ok () c'"
  using assms
  by (auto simp: process_received_def liftO_eq_Ok split: option.splits outcome.splits prod.splits)

lemma session_step_curr:
  assumes "session_step vt enc dec uninit t s = Some (Ok () s')"
  shows "curr_txn_id (client s') = curr_txn_id (client s)"
proof (cases t)
  case (SenderStep vs)
  with assms curr_txn_step show ?thesis by blast
next
  case (ServerStep ks vs)
  show ?thesis
  proof (cases "c2s s = []")
    case False
    with assms ServerStep obtain z where "process vt enc dec uninit (\<lparr>inb = segments ks (c2s s),
        outb = [], verdicts = vs, closed = False\<rparr>, server s) = Some z" "bindO (liftO (\<lambda>(c, sv). s\<lparr>c2s := stream_bytes (inb c),
        s2c := s2c s @ outb c, server := sv\<rparr>) z) (\<lambda>_ s'. Ok () s') = Ok () s'"
      by (auto simp: session_step_def)
    then show ?thesis by (cases z) auto
  qed (use assms ServerStep in \<open>simp add: session_step_def\<close>)
next
  case (ReceiverStep ks)
  show ?thesis
  proof (cases "s2c s = []")
    case False
    with assms ReceiverStep obtain z where
      z: "process_received dec (segments ks (s2c s), client s) = Some z"
        "liftO (\<lambda>(cs, c). s\<lparr>client := c, s2c := stream_bytes cs\<rparr>) z = Ok () s'"
      by (auto simp: session_step_def)
    then obtain cs c where c: "z = Ok () (cs, c)" "client s' = c" by (cases z) auto
    with z(1) obtain ack where "complete_txn ack (client s) = Ok () c"
      using process_received_txn by blast
    with complete_txn_curr [of ack "client s" c] c(2) show ?thesis by simp
  qed (use assms ReceiverStep in \<open>simp add: session_step_def\<close>)
qed

lemma curr_set_sem [simp]: "curr_txn_id (client (set_sem l f s)) = curr_txn_id (client s)"
  by (simp add: set_sem_def)

lemma wait_spin_curr:
  "wait_spin vt enc dec uninit ts f s = Some (Ok () s') \<Longrightarrow>
   curr_txn_id (client s') = curr_txn_id (client s)"
proof (induction ts arbitrary: s)
  case Nil
  then show ?case by (subst (asm) wait_spin.simps) (auto split: if_splits)
next
  case (Cons t ts)
  from Cons.prems show ?case
    by (subst (asm) wait_spin.simps)
      (auto split: if_splits option.splits outcome.splits dest!: Cons.IH session_step_curr)
qed

lemma future_wait_curr:
  "future_wait vt enc dec uninit f s = Some (Ok () s') \<Longrightarrow>
   curr_txn_id (client s') = curr_txn_id (client s)"
  by (auto simp: future_wait_def dest: wait_spin_curr split: if_splits)

text \<open>What a completed future delivers.\<close>

lemma completed_write:
  assumes "completed rep d" "error_code rep = int_of_error_code code"
    and "message rep = WriteAck oid b \<or> message rep = WriteBulkAck b \<or> message rep = RemoveAck oid b"
  shows "fut_error d = error_code_of_int (int_of_error_code code)" "fut_result d = (b \<noteq> 0)"
proof -
  obtain f where f: "fill_future rep FutureData_new = Ok () f"
      "d\<lparr>sem := SpinLock_new\<rparr> = f\<lparr>result_available := True\<rparr>"
    using assms(1) by (auto simp: completed_def)
  have d: "fut_error d = fut_error (d\<lparr>sem := SpinLock_new\<rparr>)"
    "fut_result d = fut_result (d\<lparr>sem := SpinLock_new\<rparr>)" by simp_all
  show "fut_error d = error_code_of_int (int_of_error_code code)" "fut_result d = (b \<noteq> 0)"
    unfolding d f(2) using f(1) assms(2,3) by (auto simp: fill_future_def Let_def)
qed

lemma completed_read:
  assumes "completed rep d" "error_code rep = int_of_error_code code"
    and "message rep = ReadAck oid b x \<or> message rep = ReadBulkAck b x"
  shows "fut_error d = error_code_of_int (int_of_error_code code)" "fut_data d = Some x"
    "data_size d = word_of_nat (length x)"
proof -
  obtain f where f: "fill_future rep FutureData_new = Ok () f"
      "d\<lparr>sem := SpinLock_new\<rparr> = f\<lparr>result_available := True\<rparr>"
    using assms(1) by (auto simp: completed_def)
  have d: "fut_error d = fut_error (d\<lparr>sem := SpinLock_new\<rparr>)"
    "fut_data d = fut_data (d\<lparr>sem := SpinLock_new\<rparr>)"
    "data_size d = data_size (d\<lparr>sem := SpinLock_new\<rparr>)" by simp_all
  show "fut_error d = error_code_of_int (int_of_error_code code)" "fut_data d = Some x"
    "data_size d = word_of_nat (length x)"
    unfolding d f(2) using f(1) assms(2,3) by (auto simp: fill_future_def Let_def)
qed

abbreviation no_such_id :: exn where
  "no_such_id \<equiv> NoSuchIDException ''Call to get was made for id that did not exist on server.''"

abbreviation memory_exhausted :: exn where
  "memory_exhausted \<equiv> ServerMemoryErrorException ''Server memory exhausted during call to put.''"

text \<open>
  What \<^verbatim>\<open>get()\<close> and \<^verbatim>\<open>getDataPair()\<close> return for a future that was promised the answer to a
  request issued in the state \<open>a\<close>.
\<close>

definition get_result :: "tcp_message \<Rightarrow> abs_server \<Rightarrow> exn + bool" where
  "get_result m a =
     (case m of
        Write oid d \<Rightarrow> if accepts oid d a then Inr True else Inl memory_exhausted
      | WriteBulk n oids d \<Rightarrow>
          if fst (spec_write_all (zip oids (the (split_units (length oids) d))) a) then Inr True
          else Inl memory_exhausted
      | Remove oid \<Rightarrow> Inr (ab_kv a oid \<noteq> None)
      | _ \<Rightarrow> Inr False)"

definition data_result :: "tcp_message \<Rightarrow> abs_server \<Rightarrow> exn + (byte list \<times> u32)" where
  "data_result m a =
     (case m of
        Read oid \<Rightarrow>
          (case ab_kv a oid of None \<Rightarrow> Inl no_such_id
           | Some d \<Rightarrow> Inr (d, ucast (word_of_nat (length d) :: u64)))
      | ReadBulk n oids \<Rightarrow>
          if set oids \<subseteq> dom (ab_kv a)
          then let d = bulk_answer (map (\<lambda>oid. the (ab_kv a oid)) oids)
               in Inr (d, ucast (word_of_nat (length d) :: u64))
          else Inl no_such_id
      | _ \<Rightarrow> Inl (Exception []))"

fun is_update :: "tcp_message \<Rightarrow> bool" where
  "is_update (Write _ _) = True"
| "is_update (WriteBulk _ _ _) = True"
| "is_update (Remove _) = True"
| "is_update _ = False"

fun is_read :: "tcp_message \<Rightarrow> bool" where
  "is_read (Read _) = True"
| "is_read (ReadBulk _ _) = True"
| "is_read _ = False"

lemma completed_get_result:
  assumes "completed rep d" "answers rep m a" "is_update m"
  shows "future_get d = get_result m a"
proof (cases m)
  case (Write oid x)
  with assms completed_write [OF assms(1), of _ oid] show ?thesis
    by (cases "accepts oid x a")
      (auto simp: answers_def spec_message_def get_result_def future_get_def)
next
  case (WriteBulk n oids x)
  with assms completed_write [OF assms(1)] show ?thesis
    by (cases "spec_write_all (zip oids (the (split_units (length oids) x))) a")
      (auto simp: answers_def spec_message_def get_result_def future_get_def split: if_splits)
next
  case (Remove oid)
  with assms completed_write [OF assms(1), of _ oid] show ?thesis
    by (cases "ab_kv a oid") (auto simp: answers_def spec_message_def get_result_def future_get_def)
qed (use assms in auto)

lemma completed_data_result:
  assumes "completed rep d" "answers rep m a" "is_read m"
  shows "future_getDataPair d = data_result m a"
proof (cases m)
  case (Read oid)
  with assms completed_read [OF assms(1), of _ oid] show ?thesis
    by (cases "ab_kv a oid")
      (auto simp: answers_def spec_message_def data_result_def future_getDataPair_def future_get_def)
next
  case (ReadBulk n oids)
  with assms completed_read [OF assms(1)] show ?thesis
    by (cases "set oids \<subseteq> dom (ab_kv a)")
      (auto simp: answers_def spec_message_def data_result_def future_getDataPair_def future_get_def
        Let_def)
qed (use assms in auto)

context kv_backend
begin

lemma future_wait_view:
  assumes fb: "flatbuffers_documented enc dec" and v: "session_view kv invar enc s a P n"
    and f: "P f = Some rep"
  shows "\<exists>s'. future_wait vt enc dec uninit f s = Some (Ok () s') \<and> session_view kv invar enc s' a P n
           \<and> completed rep (future_at f s')"
proof -
  obtain as r w q where rel: "session_rel kv invar enc s a P as r w q"
    using v by (auto simp: session_view_def)
  obtain s' where s': "future_wait vt enc dec uninit f s = Some (Ok () s')"
      "\<exists>as r w q. session_rel kv invar enc s' a P as r w q" "completed rep (future_at f s')"
    using future_wait_rel [OF fb rel f, of uninit] unfolding returns_def by blast
  with v future_wait_curr [OF s'(1)] show ?thesis by (simp add: session_view_def)
qed

lemma wait_get_view:
  assumes fb: "flatbuffers_documented enc dec" and v: "session_view kv invar enc s a P n"
    and f: "P f = Some rep" "answers rep m b" "is_update m"
  shows "\<exists>s'. wait_get vt enc dec uninit f s = raise_or (get_result m b) s'
           \<and> session_view kv invar enc s' a P n"
  using future_wait_view [OF fb v f(1), of uninit] completed_get_result [OF _ f(2,3)]
  by (fastforce simp: wait_get_def)

lemma wait_getDataPair_view:
  assumes fb: "flatbuffers_documented enc dec" and v: "session_view kv invar enc s a P n"
    and f: "P f = Some rep" "answers rep m b" "is_read m"
  shows "\<exists>s'. wait_getDataPair vt enc dec uninit f s = raise_or (data_result m b) s'
           \<and> session_view kv invar enc s' a P n"
  using future_wait_view [OF fb v f(1), of uninit] completed_data_result [OF _ f(2,3)]
  by (fastforce simp: wait_getDataPair_def)

text \<open>The synchronous calls, in one step of the abstract server.\<close>

lemma sync_get:
  assumes fb: "flatbuffers_documented enc dec" and v: "session_view kv invar enc s a P (Suc n)"
    and ok: "msg_ok m a" "is_update m"
    and f: "\<And>c. \<exists>k. f c = (case issue enc m (c\<lparr>reuse_queue := k\<rparr>) of (f, c') \<Rightarrow> Ok f c')"
  shows "\<exists>s' P'. bindW (client_call vt enc dec uninit f s) (wait_get vt enc dec uninit) =
             raise_or (get_result m a) s'
           \<and> session_view kv invar enc s' (snd (spec_message m a)) P' n \<and> P \<subseteq>\<^sub>m P'"
proof -
  obtain g s1 rep where 1: "client_call vt enc dec uninit f s = Some (Ok g s1)" "P g = None" "answers rep m a"
      "session_view kv invar enc s1 (snd (spec_message m a)) (P(g \<mapsto> rep)) n"
    using client_call_view [OF fb v ok(1) f] by blast
  obtain s' where "wait_get vt enc dec uninit g s1 = raise_or (get_result m a) s'"
      "session_view kv invar enc s' (snd (spec_message m a)) (P(g \<mapsto> rep)) n"
    using wait_get_view [OF fb 1(4) _ 1(3) ok(2), of g uninit] by auto
  with 1 show ?thesis
    by (intro exI [of _ s'] exI [of _ "P(g \<mapsto> rep)"]) (auto simp: map_le_def)
qed

lemma sync_getDataPair:
  assumes fb: "flatbuffers_documented enc dec" and v: "session_view kv invar enc s a P (Suc n)"
    and ok: "msg_ok m a" "is_read m"
    and f: "\<And>c. \<exists>k. f c = (case issue enc m (c\<lparr>reuse_queue := k\<rparr>) of (f, c') \<Rightarrow> Ok f c')"
  shows "\<exists>s' P'. bindW (client_call vt enc dec uninit f s) (wait_getDataPair vt enc dec uninit) =
             raise_or (data_result m a) s'
           \<and> session_view kv invar enc s' a P' n \<and> P \<subseteq>\<^sub>m P'"
proof -
  obtain g s1 rep where 1: "client_call vt enc dec uninit f s = Some (Ok g s1)" "P g = None" "answers rep m a"
      "session_view kv invar enc s1 (snd (spec_message m a)) (P(g \<mapsto> rep)) n"
    using client_call_view [OF fb v ok(1) f] by blast
  obtain s' where "wait_getDataPair vt enc dec uninit g s1 = raise_or (data_result m a) s'"
      "session_view kv invar enc s' (snd (spec_message m a)) (P(g \<mapsto> rep)) n"
    using wait_getDataPair_view [OF fb 1(4) _ 1(3) ok(2), of g uninit] by auto
  moreover have "snd (spec_message m a) = a"
    using ok(2) by (cases m) (auto simp: spec_message_def)
  ultimately show ?thesis using 1
    by (intro exI [of _ s'] exI [of _ "P(g \<mapsto> rep)"]) (auto simp: map_le_def)
qed

end

text \<open>The request functions as instances of \<open>issue\<close>.\<close>

lemma async_issue:
  "\<exists>k. read_async enc oid c = (case issue enc (Read oid) (c\<lparr>reuse_queue := k\<rparr>) of (f, c') \<Rightarrow> Ok f c')"
  "\<exists>k. read_async_bulk enc oids c =
     (case issue enc (ReadBulk (word_of_nat (length oids)) oids) (c\<lparr>reuse_queue := k\<rparr>) of (f, c') \<Rightarrow> Ok f c')"
  "\<exists>k. remove_async enc oid c = (case issue enc (Remove oid) (c\<lparr>reuse_queue := k\<rparr>) of (f, c') \<Rightarrow> Ok f c')"
  "serialized uninit u = Some d \<Longrightarrow> \<exists>k. write_async_bulk enc uninit oids u c =
     (case issue enc (WriteBulk (word_of_nat (length oids)) oids d) (c\<lparr>reuse_queue := k\<rparr>) of
        (f, c') \<Rightarrow> Ok f c')"
  by (rule exI [of _ "reuse_queue c"],
      simp add: read_async_def read_async_bulk_def remove_async_def write_async_bulk_def)+

lemma write_async_issue:
  "serialized uninit u = Some d \<Longrightarrow> \<exists>k. write_async enc uninit oid u c =
     (case issue enc (Write oid d) (c\<lparr>reuse_queue := k\<rparr>) of (f, c') \<Rightarrow> Ok f c')"
  by (rule exI [of _ "if reuse_queue c > 0 then reuse_queue c - 1 else reuse_queue c"], cases c)
    (simp add: write_async_def Let_def)

section \<open>Requests take effect in the order of issue\<close>

text \<open>
  A run of a session: the application issues requests, the threads take steps in between.
  The value is the list of the futures, in the order of the requests.
\<close>

datatype session_event = Issue tcp_message | Run thread_step

fun session_run ::
  "'b storage_backend \<Rightarrow> (TCPBladeMessage \<Rightarrow> byte list) \<Rightarrow> (byte list \<Rightarrow> TCPBladeMessage option)
    \<Rightarrow> (nat \<Rightarrow> byte) \<Rightarrow> session_event list \<Rightarrow> 'b session \<Rightarrow> (nat list, 'b session) call" where
  "session_run vt enc dec uninit [] s = Some (Ok [] s)"
| "session_run vt enc dec uninit (Run t # es) s =
     bindW (session_step vt enc dec uninit t s) (\<lambda>_ s'. session_run vt enc dec uninit es s')"
| "session_run vt enc dec uninit (Issue m # es) s =
     bindW (client_call vt enc dec uninit (\<lambda>c. case issue enc m c of (f, c') \<Rightarrow> Ok f c') s) (\<lambda>f s'.
       bindW (session_run vt enc dec uninit es s') (\<lambda>fs s''. Some (Ok (f # fs) s'')))"

fun requests :: "session_event list \<Rightarrow> tcp_message list" where
  "requests [] = []"
| "requests (Run t # es) = requests es"
| "requests (Issue m # es) = m # requests es"

fun event_ok :: "session_event \<Rightarrow> bool" where
  "event_ok (Run t) = reliable t"
| "event_ok (Issue m) = True"

text \<open>The same requests, one after the other, on the abstract server.\<close>

fun spec_requests :: "tcp_message list \<Rightarrow> abs_server \<Rightarrow> (ErrorCodes \<times> tcp_message) list \<times> abs_server" where
  "spec_requests [] a = ([], a)"
| "spec_requests (m # ms) a =
     (let (r, a1) = spec_message m a; (rs, a2) = spec_requests ms a1 in (r # rs, a2))"

fun requests_ok :: "tcp_message list \<Rightarrow> abs_server \<Rightarrow> bool" where
  "requests_ok [] a = True"
| "requests_ok (m # ms) a = (msg_ok m a \<and> requests_ok ms (snd (spec_message m a)))"

definition delivers :: "(nat \<rightharpoonup> TCPBladeMessage) \<Rightarrow> nat \<Rightarrow> ErrorCodes \<times> tcp_message \<Rightarrow> bool" where
  "delivers P f r \<longleftrightarrow>
     (\<exists>rep. P f = Some rep \<and> error_code rep = int_of_error_code (fst r) \<and> message rep = snd r)"

lemma delivers_mono: "P \<subseteq>\<^sub>m P' \<Longrightarrow> delivers P f r \<Longrightarrow> delivers P' f r"
  unfolding delivers_def map_le_def by (metis domI)

context kv_backend
begin

lemma session_step_view:
  assumes fb: "flatbuffers_documented enc dec" and v: "session_view kv invar enc s a P n" and t: "reliable t"
  shows "\<exists>s'. session_step vt enc dec uninit t s = Some (Ok () s') \<and> session_view kv invar enc s' a P n"
proof -
  obtain as r w q where rel: "session_rel kv invar enc s a P as r w q"
    using v by (auto simp: session_view_def)
  obtain s' as' r' w' q' where "session_step vt enc dec uninit t s = Some (Ok () s')"
      "session_rel kv invar enc s' a P as' r' w' q'"
    using session_step_rel [OF fb rel t, of uninit] by blast
  with v session_step_curr [of vt enc dec uninit t s s'] show ?thesis
    by (auto simp: session_view_def)
qed

lemma session_run_view:
  assumes fb: "flatbuffers_documented enc dec" and "session_view kv invar enc s a P (length (requests es))"
    and "list_all event_ok es" and "requests_ok (requests es) a"
  shows "\<exists>fs s' P'. session_run vt enc dec uninit es s = Some (Ok fs s')
           \<and> session_view kv invar enc s' (snd (spec_requests (requests es) a)) P' 0 \<and> P \<subseteq>\<^sub>m P'
           \<and> list_all2 (delivers P') fs (fst (spec_requests (requests es) a))"
  using assms(2-4)
proof (induction es arbitrary: s a P)
  case Nil
  then show ?case by auto
next
  case (Cons e es)
  show ?case
  proof (cases e)
    case (Run t)
    with session_step_view [OF fb, of s a P _ t uninit] Cons.prems
    obtain s1 where s1: "session_step vt enc dec uninit t s = Some (Ok () s1)"
        "session_view kv invar enc s1 a P (length (requests es))" by fastforce
    with Cons.IH [OF s1(2)] Cons.prems Run show ?thesis by simp
  next
    case (Issue m)
    let ?f = "\<lambda>c. case issue enc m c of (f, c') \<Rightarrow> Ok f c'"
    have f: "\<exists>k. ?f c = (case issue enc m (c\<lparr>reuse_queue := k\<rparr>) of (f, c') \<Rightarrow> Ok f c')" for c
      by (rule exI [of _ "reuse_queue c"]) simp
    have ok: "msg_ok m a" "requests_ok (requests es) (snd (spec_message m a))"
      and v: "session_view kv invar enc s a P (Suc (length (requests es)))"
      using Cons.prems Issue by auto
    obtain g s1 rep where 1: "client_call vt enc dec uninit ?f s = Some (Ok g s1)" "P g = None"
        "answers rep m a"
        "session_view kv invar enc s1 (snd (spec_message m a)) (P(g \<mapsto> rep)) (length (requests es))"
      using client_call_view [OF fb v ok(1) f] by blast
    obtain fs s' P' where 2: "session_run vt enc dec uninit es s1 = Some (Ok fs s')"
        "session_view kv invar enc s' (snd (spec_requests (requests es) (snd (spec_message m a)))) P' 0"
        "P(g \<mapsto> rep) \<subseteq>\<^sub>m P'"
        "list_all2 (delivers P') fs (fst (spec_requests (requests es) (snd (spec_message m a))))"
      using Cons.IH [OF 1(4) _ ok(2)] Cons.prems(2) unfolding list.pred_inject by blast
    have "delivers (P(g \<mapsto> rep)) g (fst (spec_message m a))"
      using 1(3) by (auto simp: delivers_def answers_def)
    then have "delivers P' g (fst (spec_message m a))" using delivers_mono 2(3) by blast
    moreover have "P \<subseteq>\<^sub>m P(g \<mapsto> rep)" using 1(2) by (auto simp: map_le_def)
    then have "P \<subseteq>\<^sub>m P'" using 2(3) by (rule map_le_trans)
    ultimately show ?thesis using Issue 1(1) 2(1,2,4)
      by (auto simp: split_beta Let_def)
  qed
qed

end

text \<open>A session whose client has not issued anything.\<close>

definition new_session :: "'b tcp_server \<Rightarrow> thread_step list list \<Rightarrow> 'b session" where
  "new_session sv pl = \<lparr>client = TCPClient_new, c2s = [], s2c = [], server = sv, plan = pl\<rparr>"

lemma new_session_view:
  assumes "invar (mem sv)" "list_all (list_all reliable) pl" "n \<le> 2 ^ 32"
  shows "session_view kv invar enc (new_session sv pl) (abs_of kv sv) Map.empty n"
proof -
  have "session_rel kv invar enc (new_session sv pl) (abs_of kv sv) Map.empty [] [] [] []"
    using assms by (simp add: session_rel_def new_session_def TCPClient_new_def open_txns_def)
  moreover have "unat (curr_txn_id (client (new_session sv pl))) = 0"
    by (simp add: new_session_def TCPClient_new_def)
  ultimately show ?thesis using assms(3) by (auto simp: session_view_def)
qed

text \<open>
  C1. A session behaves as if its requests were executed one at a time in the order of
  issue. Whatever the application issues (fewer than \<open>2 ^ 32\<close> well-formed requests), however the
  steps of the sender, the server and the receiver interleave with it and however the bytes
  are cut on the way: no thread fails, and waiting on any of the futures returns and finds
  the error code and the acknowledgement that the abstract server gives to that request in
  the sequential execution.
\<close>

theorem session_linearizable:
  assumes "flatbuffers_documented enc dec" and "kv_backend vt kv invar" and "invar (mem sv)"
    and "list_all (list_all reliable) pl" and "list_all event_ok es"
    and "requests_ok (requests es) (abs_of kv sv)" and "length (requests es) \<le> 2 ^ 32"
  shows "\<exists>fs s. session_run vt enc dec uninit es (new_session sv pl) = Some (Ok fs s)
           \<and> list_all2 (\<lambda>f r. \<exists>s' rep. future_wait vt enc dec uninit f s = Some (Ok () s')
                \<and> completed rep (future_at f s')
                \<and> error_code rep = int_of_error_code (fst r) \<and> message rep = snd r)
              fs (fst (spec_requests (requests es) (abs_of kv sv)))"
proof -
  have v: "session_view kv invar enc (new_session sv pl) (abs_of kv sv) Map.empty (length (requests es))"
    using new_session_view assms(3,4,7) by blast
  obtain fs s P' where r: "session_run vt enc dec uninit es (new_session sv pl) = Some (Ok fs s)"
      "session_view kv invar enc s (snd (spec_requests (requests es) (abs_of kv sv))) P' 0"
      "list_all2 (delivers P') fs (fst (spec_requests (requests es) (abs_of kv sv)))"
    using kv_backend.session_run_view [OF assms(2,1) v assms(5,6), of uninit] by blast
  have "\<exists>s' rep. future_wait vt enc dec uninit f s = Some (Ok () s') \<and> completed rep (future_at f s')
      \<and> error_code rep = int_of_error_code (fst x) \<and> message rep = snd x" if d: "delivers P' f x" for f x
  proof -
    obtain rep where "P' f = Some rep" "error_code rep = int_of_error_code (fst x)" "message rep = snd x"
      using d by (auto simp: delivers_def)
    with kv_backend.future_wait_view [OF assms(2,1) r(2), of f rep uninit] show ?thesis by blast
  qed
  from list_all2_mono [OF r(3) this] r(1) show ?thesis by (intro exI conjI)
qed

theorem session_linearizable_witness:
  "\<exists>fs s. session_run memory_vt wire_encode wire_decode (\<lambda>_. 0)
            [Issue (Write 7 [1, 2, 3]), Run (SenderStep [Some 2]), Issue (Read 7), Run (ServerStep [1, 5] []),
             Issue (Remove 9)] (new_session demo_server []) = Some (Ok fs s)
     \<and> length fs = 3
     \<and> (\<exists>s' rep. future_wait memory_vt wire_encode wire_decode (\<lambda>_. 0) (fs ! 1) s = Some (Ok () s')
          \<and> completed rep (future_at (fs ! 1) s') \<and> message rep = ReadAck 7 1 [1, 2, 3])"
proof -
  let ?es = "[Issue (Write 7 [1, 2, 3]), Run (SenderStep [Some 2]), Issue (Read 7),
    Run (ServerStep [1, 5] []), Issue (Remove 9)]"
  have sp: "fst (spec_requests (requests ?es) (abs_of memory_kv demo_server)) =
      [(kOk, WriteAck 7 1), (kOk, ReadAck 7 1 [1, 2, 3]), (kOk, RemoveAck 9 0)]"
    and ok: "requests_ok (requests ?es) (abs_of memory_kv demo_server)"
    by (simp_all add: spec_message_def spec_write_def accepts_def size_without_def msg_ok_def
        request_ok_def payload_size_def)
  obtain fs s where r: "session_run memory_vt wire_encode wire_decode (\<lambda>_. 0) ?es (new_session demo_server []) =
        Some (Ok fs s)"
      "list_all2 (\<lambda>f r. \<exists>s' rep. future_wait memory_vt wire_encode wire_decode (\<lambda>_. 0) f s = Some (Ok () s')
            \<and> completed rep (future_at f s')
            \<and> error_code rep = int_of_error_code (fst r) \<and> message rep = snd r)
          fs [(kOk, WriteAck 7 1), (kOk, ReadAck 7 1 [1, 2, 3]), (kOk, RemoveAck 9 0)]"
    using session_linearizable [OF wire_documented mb.kv_backend_axioms demo_server_ok(1) _ _ ok,
        of "[]" "\<lambda>_. 0", unfolded sp] by auto
  have "length fs = 3" using list_all2_lengthD [OF r(2)] by simp
  moreover have "\<exists>s' rep. future_wait memory_vt wire_encode wire_decode (\<lambda>_. 0) (fs ! 1) s = Some (Ok () s')
          \<and> completed rep (future_at (fs ! 1) s') \<and> message rep = ReadAck 7 1 [1, 2, 3]"
    using list_all2_nthD2 [OF r(2), of 1] by simp blast
  ultimately show ?thesis using r(1) by (intro exI [of _ fs] exI [of _ s]) simp
qed

end
