(* ===== verification/Object_Store.thy ===== *)
theory Object_Store
  imports TCP_Session
begin

text \<open>
  The object stores: the virtual functions of \<^verbatim>\<open>src/src/object_store/ObjectStore.h\<close> with
  its futures, the contract the cache relies on, and
  \<^verbatim>\<open>src/src/object_store/FullBladeObjectStore.h\<close>, the store that keeps every object on a
  server behind a client session.
\<close>

section \<open>The interface\<close>

text \<open>
  The virtual functions the cache calls, with the calls on the two kinds of futures
  (\<open>'g\<close> for gets, \<open>'p\<close> for puts).
\<close>

record ('s, 't, 'g, 'p) ostore =
  os_get :: "ObjectID \<Rightarrow> 's \<Rightarrow> ('t, 's) call"
  os_put :: "ObjectID \<Rightarrow> 't \<Rightarrow> 's \<Rightarrow> (bool, 's) call"
  os_remove :: "ObjectID \<Rightarrow> 's \<Rightarrow> (bool, 's) call"
  os_get_async :: "ObjectID \<Rightarrow> 's \<Rightarrow> ('g, 's) call"
  os_put_async :: "ObjectID \<Rightarrow> 't \<Rightarrow> 's \<Rightarrow> ('p, 's) call"
  getf_wait :: "'g \<Rightarrow> 's \<Rightarrow> (unit, 's) call"
  getf_get :: "'g \<Rightarrow> 's \<Rightarrow> ('t, 's) call"
  putf_wait :: "'p \<Rightarrow> 's \<Rightarrow> (unit, 's) call"
  putf_try_wait :: "'p \<Rightarrow> 's \<Rightarrow> (bool, 's) call"
  putf_get :: "'p \<Rightarrow> 's \<Rightarrow> (bool, 's) call"

text \<open>
  The contract. \<open>R s a F W n\<close>: the state \<open>s\<close> stands for the abstract store \<open>a\<close>, the get
  futures hold or will hold what \<open>F\<close> says (\<open>None\<close>: the id did not exist), \<open>W\<close> says of the put
  futures handed out whether the put was accepted, and \<open>n\<close> more requests can be issued. A put is refused when there is no
  \<open>room\<close>: a synchronous one throws, an asynchronous one is dropped.
\<close>

locale object_store =
  fixes os :: "('s, 't, 'g, 'p) ostore"
    and R :: "'s \<Rightarrow> 'a \<Rightarrow> ('g \<rightharpoonup> 't option) \<Rightarrow> ('p \<rightharpoonup> bool) \<Rightarrow> nat \<Rightarrow> bool"
    and view :: "'a \<Rightarrow> (ObjectID \<rightharpoonup> 't)"
    and room :: "'a \<Rightarrow> ObjectID \<Rightarrow> 't \<Rightarrow> bool"
    and valid :: "'t \<Rightarrow> bool"
  assumes os_valid: "R s a F W n \<Longrightarrow> view a oid = Some v \<Longrightarrow> valid v"
    and os_less: "R s a F W (Suc n) \<Longrightarrow> R s a F W n"
    and os_get: "R s a F W (Suc n) \<Longrightarrow>
      \<exists>s'. R s' a F W n \<and> os_get os oid s =
        (case view a oid of None \<Rightarrow> Some (Throw no_such_id s') | Some v \<Rightarrow> Some (Ok v s'))"
    and os_put: "R s a F W (Suc n) \<Longrightarrow> valid v \<Longrightarrow>
      \<exists>s' a'. R s' a' F W n \<and>
        (if room a oid v then os_put os oid v s = Some (Ok True s') \<and> view a' = (view a)(oid \<mapsto> v)
         else os_put os oid v s = Some (Throw memory_exhausted s') \<and> view a' = view a)"
    and os_remove: "R s a F W (Suc n) \<Longrightarrow>
      \<exists>s' a'. R s' a' F W n \<and> os_remove os oid s = Some (Ok (view a oid \<noteq> None) s')
        \<and> view a' = (view a)(oid := None)"
    and os_get_async: "R s a F W (Suc n) \<Longrightarrow>
      \<exists>s' g. os_get_async os oid s = Some (Ok g s') \<and> F g = None \<and> R s' a (F(g \<mapsto> view a oid)) W n"
    and os_put_async: "R s a F W (Suc n) \<Longrightarrow> valid v \<Longrightarrow>
      \<exists>s' p a'. os_put_async os oid v s = Some (Ok p s') \<and> R s' a' F (W(p \<mapsto> room a oid v)) n
        \<and> W p = None \<and> view a' = (if room a oid v then (view a)(oid \<mapsto> v) else view a)"
    and getf_wait: "R s a F W n \<Longrightarrow> F g = Some x \<Longrightarrow> \<exists>s'. getf_wait os g s = Some (Ok () s') \<and> R s' a F W n"
    and getf_get: "R s a F W n \<Longrightarrow> F g = Some x \<Longrightarrow>
      \<exists>s'. R s' a F W n \<and> getf_get os g s =
        (case x of None \<Rightarrow> Some (Throw no_such_id s') | Some v \<Rightarrow> Some (Ok v s'))"
    and putf_wait: "R s a F W n \<Longrightarrow> W p \<noteq> None \<Longrightarrow> \<exists>s'. putf_wait os p s = Some (Ok () s') \<and> R s' a F W n"
    and putf_try_wait: "R s a F W n \<Longrightarrow> W p \<noteq> None \<Longrightarrow>
      \<exists>b s'. putf_try_wait os p s = Some (Ok b s') \<and> R s' a F W n"
    and putf_get: "R s a F W n \<Longrightarrow> W p = Some b \<Longrightarrow>
      \<exists>s'. putf_get os p s = Some (if b then Ok True s' else Throw memory_exhausted s') \<and> R s' a F W n"
begin

lemma put_get:
  assumes "R s a F W (Suc (Suc n))" "valid v" "room a oid v"
  shows "\<exists>s' a'. bindW (os_put os oid v s) (\<lambda>_. os_get os oid) = Some (Ok v s') \<and> R s' a' F W n"
proof -
  obtain s1 a1 where 1: "R s1 a1 F W (Suc n)" "os_put os oid v s = Some (Ok True s1)"
      "view a1 = (view a)(oid \<mapsto> v)"
    using os_put [OF assms(1,2), of oid] assms(3) by auto
  with os_get [OF 1(1), of oid] show ?thesis by auto
qed

lemma remove_get:
  assumes "R s a F W (Suc (Suc n))"
  shows "\<exists>s' a'. bindW (os_remove os oid s) (\<lambda>_. os_get os oid) = Some (Throw no_such_id s') \<and> R s' a' F W n"
proof -
  obtain s1 a1 where 1: "R s1 a1 F W (Suc n)" "os_remove os oid s = Some (Ok (view a oid \<noteq> None) s1)"
      "view a1 = (view a)(oid := None)"
    using os_remove [OF assms, of oid] by auto
  with os_get [OF 1(1), of oid] show ?thesis by auto
qed

end

text \<open>The contract of a store that has room for every request that can still be issued.\<close>

locale roomy_store = object_store +
  assumes os_roomy: "R s a F W (Suc n) \<Longrightarrow> valid v \<Longrightarrow> room a oid v"

section \<open>FullBladeObjectStore\<close>

text \<open>What the store is constructed with: the client session's parameters and the codec.\<close>

record ('b, 't) full_blade =
  fb_vt :: "'b storage_backend"
  fb_enc :: "TCPBladeMessage \<Rightarrow> byte list"
  fb_dec :: "byte list \<Rightarrow> TCPBladeMessage option"
  fb_uninit :: "nat \<Rightarrow> byte"
  serializer :: "'t serializer"
  deserializer :: "'t deserializer"

text \<open>\<^verbatim>\<open>deserializer(ptr, length)\<close>: it may read \<open>length\<close> bytes.\<close>

definition deserialize :: "('b, 't) full_blade \<Rightarrow> byte list \<times> u32 \<Rightarrow> 's \<Rightarrow> ('t, 's) call" where
  "deserialize fb pl s =
     (let (p, l) = pl in
      if unat l > length p then Some Undef
      else case deserializer fb (take (unat l) p) of
             Ok v _ \<Rightarrow> Some (Ok v s) | Throw e _ \<Rightarrow> Some (Throw e s) | Undef \<Rightarrow> Some Undef)"

definition fb_get :: "('b, 't) full_blade \<Rightarrow> ObjectID \<Rightarrow> 'b session \<Rightarrow> ('t, 'b session) call" where
  "fb_get fb oid s =
     bindW (read_sync (fb_vt fb) (fb_enc fb) (fb_dec fb) (fb_uninit fb) oid s) (deserialize fb)"

definition fb_get_async :: "('b, 't) full_blade \<Rightarrow> ObjectID \<Rightarrow> 'b session \<Rightarrow> (nat, 'b session) call" where
  "fb_get_async fb oid s =
     client_call (fb_vt fb) (fb_enc fb) (fb_dec fb) (fb_uninit fb) (read_async (fb_enc fb) oid) s"

definition fb_put :: "('b, 't) full_blade \<Rightarrow> ObjectID \<Rightarrow> 't \<Rightarrow> 'b session \<Rightarrow> (bool, 'b session) call" where
  "fb_put fb oid v s =
     write_sync (fb_vt fb) (fb_enc fb) (fb_dec fb) (fb_uninit fb) oid
       (WriteUnitTemplate (serializer fb) v) s"

definition fb_put_async :: "('b, 't) full_blade \<Rightarrow> ObjectID \<Rightarrow> 't \<Rightarrow> 'b session \<Rightarrow> (nat, 'b session) call" where
  "fb_put_async fb oid v s =
     client_call (fb_vt fb) (fb_enc fb) (fb_dec fb) (fb_uninit fb)
       (write_async (fb_enc fb) (fb_uninit fb) oid (WriteUnitTemplate (serializer fb) v)) s"

definition fb_remove :: "('b, 't) full_blade \<Rightarrow> ObjectID \<Rightarrow> 'b session \<Rightarrow> (bool, 'b session) call" where
  "fb_remove fb oid s = client_remove (fb_vt fb) (fb_enc fb) (fb_dec fb) (fb_uninit fb) oid s"

text \<open>\<^verbatim>\<open>ObjectStoreGetFuture\<close> and \<^verbatim>\<open>ObjectStorePutFuture\<close>: a client future and the deserializer.\<close>

definition fb_wait :: "('b, 't) full_blade \<Rightarrow> nat \<Rightarrow> 'b session \<Rightarrow> (unit, 'b session) call" where
  "fb_wait fb f s = future_wait (fb_vt fb) (fb_enc fb) (fb_dec fb) (fb_uninit fb) f s"

text \<open>\<^verbatim>\<open>try_wait\<close> changes nothing but the lock.\<close>

definition fb_try_wait :: "('b, 't) full_blade \<Rightarrow> nat \<Rightarrow> 'b session \<Rightarrow> (bool, 'b session) call" where
  "fb_try_wait fb f s =
     (case future_try_wait (future_at f s) of
        (r, d) \<Rightarrow> Some (Ok r (set_sem (sem d) f s)))"

definition fb_putf_get :: "('b, 't) full_blade \<Rightarrow> nat \<Rightarrow> 'b session \<Rightarrow> (bool, 'b session) call" where
  "fb_putf_get fb f s = wait_get (fb_vt fb) (fb_enc fb) (fb_dec fb) (fb_uninit fb) f s"

definition fb_getf_get :: "('b, 't) full_blade \<Rightarrow> nat \<Rightarrow> 'b session \<Rightarrow> ('t, 'b session) call" where
  "fb_getf_get fb f s =
     bindW (wait_getDataPair (fb_vt fb) (fb_enc fb) (fb_dec fb) (fb_uninit fb) f s) (deserialize fb)"

definition fb_ostore :: "('b, 't) full_blade \<Rightarrow> ('b session, 't, nat, nat) ostore" where
  "fb_ostore fb = \<lparr>os_get = fb_get fb, os_put = fb_put fb, os_remove = fb_remove fb,
     os_get_async = fb_get_async fb, os_put_async = fb_put_async fb, getf_wait = fb_wait fb, getf_get = fb_getf_get fb,
     putf_wait = fb_wait fb, putf_try_wait = fb_try_wait fb,
     putf_get = fb_putf_get fb\<rparr>"

section \<open>Bulk operations\<close>

text \<open>\<^verbatim>\<open>const int numObjects = last - start + 1\<close>\<close>

definition num_objects :: "ObjectID \<Rightarrow> ObjectID \<Rightarrow> int" where
  "num_objects start last' = sint (ucast (last' - start + 1) :: u32)"

definition object_ids :: "ObjectID \<Rightarrow> int \<Rightarrow> ObjectID list" where
  "object_ids start k = map (\<lambda>i. start + word_of_nat i) [0..<nat k]"

fun get_all_async :: "('b, 't) full_blade \<Rightarrow> ObjectID list \<Rightarrow> 'b session \<Rightarrow> (nat list, 'b session) call" where
  "get_all_async fb [] s = Some (Ok [] s)"
| "get_all_async fb (oid # oids) s =
     bindW (fb_get_async fb oid s) (\<lambda>f s1. bindW (get_all_async fb oids s1) (\<lambda>fs s2. Some (Ok (f # fs) s2)))"

fun collect_all :: "('b, 't) full_blade \<Rightarrow> nat list \<Rightarrow> 'b session \<Rightarrow> ('t list, 'b session) call" where
  "collect_all fb [] s = Some (Ok [] s)"
| "collect_all fb (f # fs) s =
     bindW (fb_wait fb f s) (\<lambda>_ s1. bindW (fb_getf_get fb f s1) (\<lambda>v s2.
       bindW (collect_all fb fs s2) (\<lambda>vs s3. Some (Ok (v # vs) s3))))"

text \<open>The value is the list of the objects written to \<^verbatim>\<open>data[0]\<close>, \<^verbatim>\<open>data[1]\<close>, ...\<close>

definition fb_get_bulk ::
  "('b, 't) full_blade \<Rightarrow> ObjectID \<Rightarrow> ObjectID \<Rightarrow> 'b session \<Rightarrow> ('t list, 'b session) call" where
  "fb_get_bulk fb start last' s =
     (if last' < start
      then Some (Throw (Exception ''Last objectID for getBulk must be greater than start objectID.'') s)
      else if num_objects start last' < 0 then Some (Throw (length_error ''vector'') s)
      else bindW (get_all_async fb (object_ids start (num_objects start last')) s) (collect_all fb))"

fun put_all_async ::
  "('b, 't) full_blade \<Rightarrow> ObjectID list \<Rightarrow> 't list \<Rightarrow> 'b session \<Rightarrow> (nat list, 'b session) call" where
  "put_all_async fb [] data s = Some (Ok [] s)"
| "put_all_async fb (oid # oids) [] s = Some Undef"
| "put_all_async fb (oid # oids) (v # data) s =
     bindW (fb_put_async fb oid v s) (\<lambda>f s1.
       bindW (put_all_async fb oids data s1) (\<lambda>fs s2. Some (Ok (f # fs) s2)))"

text \<open>
  One turn of \<^verbatim>\<open>while (total_done != numObjects)\<close>: the futures that are not done yet are
  tried, and those that \<^verbatim>\<open>try_wait\<close> accepts are collected; the value is the rest.
\<close>

fun put_poll :: "('b, 't) full_blade \<Rightarrow> nat list \<Rightarrow> 'b session \<Rightarrow> (nat list, 'b session) call" where
  "put_poll fb [] s = Some (Ok [] s)"
| "put_poll fb (f # fs) s =
     bindW (fb_try_wait fb f s) (\<lambda>r s1.
       if r then bindW (fb_putf_get fb f s1) (\<lambda>_ s2. put_poll fb fs s2)
       else bindW (put_poll fb fs s1) (\<lambda>rest s2. Some (Ok (f # rest) s2)))"

partial_function (option) put_wait_all ::
  "('b, 't) full_blade \<Rightarrow> nat list \<Rightarrow> 'b session \<Rightarrow> (unit, 'b session) call" where
  "put_wait_all fb fs s =
     (if fs = [] then Some (Ok () s)
      else case put_poll fb fs s of
             None \<Rightarrow> None
           | Some r \<Rightarrow>
               (case r of
                  Ok rest s' \<Rightarrow> put_wait_all fb rest s'
                | Throw e s' \<Rightarrow> Some (Throw e s')
                | Undef \<Rightarrow> Some Undef))"

definition fb_put_bulk ::
  "('b, 't) full_blade \<Rightarrow> ObjectID \<Rightarrow> ObjectID \<Rightarrow> 't list \<Rightarrow> 'b session \<Rightarrow> (unit, 'b session) call" where
  "fb_put_bulk fb start last' data s =
     (if last' < start
      then Some (Throw (Exception ''Last objectID for putBulk must be greater than start objectID.'') s)
      else if num_objects start last' < 0 then Some (Throw (length_error ''vector'') s)
      else bindW (put_all_async fb (object_ids start (num_objects start last')) data s) (put_wait_all fb))"

text \<open>
  \<^verbatim>\<open>get_bulk_fast\<close>: the answer is parsed in place; a read past its end is undefined.
\<close>

fun parse_objects :: "('b, 't) full_blade \<Rightarrow> nat \<Rightarrow> byte list \<Rightarrow> nat \<Rightarrow> 's \<Rightarrow> ('t list, 's) call" where
  "parse_objects fb 0 buf ptr s = Some (Ok [] s)"
| "parse_objects fb (Suc i) buf ptr s =
     (case peek buf ptr 4 of
        None \<Rightarrow> Some Undef
      | Some hdr \<Rightarrow>
          (let sz = ntohl (load32 hdr) in
           bindW (deserialize fb (drop (ptr + 4) buf, sz) s) (\<lambda>v s1.
             bindW (parse_objects fb i buf (ptr + 4 + unat sz) s1) (\<lambda>vs s2. Some (Ok (v # vs) s2)))))"

definition fb_get_bulk_fast ::
  "('b, 't) full_blade \<Rightarrow> ObjectID list \<Rightarrow> 'b session \<Rightarrow> ('t list, 'b session) call" where
  "fb_get_bulk_fast fb oids s =
     bindW (read_sync_bulk (fb_vt fb) (fb_enc fb) (fb_dec fb) (fb_uninit fb) oids s) (\<lambda>(buf, _) s1.
       case peek buf 0 4 of
         None \<Rightarrow> Some Undef
       | Some hdr \<Rightarrow>
           (let num_oids = load32 hdr in
            if unat num_oids \<noteq> length oids then Some (Throw (assertion_failed ''num_oids == oids.size()'') s1)
            else parse_objects fb (unat num_oids) buf 4 s1))"

definition fb_put_bulk_fast ::
  "('b, 't) full_blade \<Rightarrow> ObjectID list \<Rightarrow> 't list \<Rightarrow> 'b session \<Rightarrow> (unit, 'b session) call" where
  "fb_put_bulk_fast fb oids data s =
     bindW (write_sync_bulk (fb_vt fb) (fb_enc fb) (fb_dec fb) (fb_uninit fb) oids
              (WriteUnitsTemplate (serializer fb) data) s) (\<lambda>_ s1. Some (Ok () s1))"

text \<open>\<^verbatim>\<open>for (ObjectID oid = first; oid <= last; oid++)\<close>, which wraps around at the end of the range.\<close>

partial_function (option) remove_loop ::
  "('b, 't) full_blade \<Rightarrow> ObjectID \<Rightarrow> ObjectID \<Rightarrow> 'b session \<Rightarrow> (unit, 'b session) call" where
  "remove_loop fb oid last' s =
     (if oid \<le> last'
      then (case fb_remove fb oid s of
              None \<Rightarrow> None
            | Some r \<Rightarrow>
                (case r of
                   Ok _ s' \<Rightarrow> remove_loop fb (oid + 1) last' s'
                 | Throw e s' \<Rightarrow> Some (Throw e s')
                 | Undef \<Rightarrow> Some Undef))
      else Some (Ok () s))"

definition fb_removeBulk ::
  "('b, 't) full_blade \<Rightarrow> ObjectID \<Rightarrow> ObjectID \<Rightarrow> 'b session \<Rightarrow> (unit, 'b session) call" where
  "fb_removeBulk fb first last' s =
     (if first > last' then Some (Throw (Exception ''First ObjectID to remove must be leq last.'') s)
      else remove_loop fb first last' s)"

section \<open>The store meets the contract\<close>

definition stored_ok :: "'t serializer \<Rightarrow> ('t \<Rightarrow> bool) \<Rightarrow> abs_server \<Rightarrow> bool" where
  "stored_ok ser valid a \<longleftrightarrow> (\<forall>oid d. ab_kv a oid = Some d \<longrightarrow> (\<exists>v. valid v \<and> d = ser_bytes ser v))"

definition fb_view :: "'t deserializer \<Rightarrow> abs_server \<Rightarrow> (ObjectID \<rightharpoonup> 't)" where
  "fb_view deser a oid =
     (case ab_kv a oid of None \<Rightarrow> None
      | Some d \<Rightarrow> (case deser d of Ok v _ \<Rightarrow> Some v | _ \<Rightarrow> None))"

definition fb_room :: "'t serializer \<Rightarrow> abs_server \<Rightarrow> ObjectID \<Rightarrow> 't \<Rightarrow> bool" where
  "fb_room ser a oid v \<longleftrightarrow> accepts oid (ser_bytes ser v) a"

text \<open>The answers promised to the futures: \<open>P\<close> are the replies under way or delivered.\<close>

definition promises ::
  "('b, 't) full_blade \<Rightarrow> ('t \<Rightarrow> bool) \<Rightarrow> (nat \<rightharpoonup> TCPBladeMessage) \<Rightarrow> (nat \<rightharpoonup> 't option) \<Rightarrow> (nat \<rightharpoonup> bool)
    \<Rightarrow> bool" where
  "promises fb valid P F W \<longleftrightarrow>
     (\<forall>g x. F g = Some x \<longrightarrow> (\<exists>rep oid b. P g = Some rep \<and> answers rep (Read oid) b
         \<and> stored_ok (serializer fb) valid b \<and> fb_view (deserializer fb) b oid = x))
     \<and> (\<forall>p r. W p = Some r \<longrightarrow> (\<exists>rep oid d b. P p = Some rep \<and> answers rep (Write oid d) b
         \<and> accepts oid d b = r))"

definition fb_R ::
  "('b \<Rightarrow> (ObjectID \<rightharpoonup> byte list)) \<Rightarrow> ('b \<Rightarrow> bool) \<Rightarrow> ('b, 't) full_blade \<Rightarrow> ('t \<Rightarrow> bool) \<Rightarrow> 'b session
    \<Rightarrow> abs_server \<Rightarrow> (nat \<rightharpoonup> 't option) \<Rightarrow> (nat \<rightharpoonup> bool) \<Rightarrow> nat \<Rightarrow> bool" where
  "fb_R kv invar fb valid s a F W n \<longleftrightarrow>
     (\<exists>P. session_view kv invar (fb_enc fb) s a P n \<and> stored_ok (serializer fb) valid a
        \<and> promises fb valid P F W)"

text \<open>A server that can take \<open>n\<close> more objects of the largest size.\<close>

definition ample :: "nat \<Rightarrow> abs_server \<Rightarrow> bool" where
  "ample n a \<longleftrightarrow> acct_ok a \<and> total_bytes (ab_kv a) + n * 2 ^ 30 \<le> unat (ab_pool a)"

definition fb_ample_R ::
  "('b \<Rightarrow> (ObjectID \<rightharpoonup> byte list)) \<Rightarrow> ('b \<Rightarrow> bool) \<Rightarrow> ('b, 't) full_blade \<Rightarrow> ('t \<Rightarrow> bool) \<Rightarrow> 'b session
    \<Rightarrow> abs_server \<Rightarrow> (nat \<rightharpoonup> 't option) \<Rightarrow> (nat \<rightharpoonup> bool) \<Rightarrow> nat \<Rightarrow> bool" where
  "fb_ample_R kv invar fb valid s a F W n \<longleftrightarrow> fb_R kv invar fb valid s a F W n \<and> ample n a"

lemma ample_less: "ample (Suc n) a \<Longrightarrow> ample n a"
  by (simp add: ample_def)

lemma ample_write:
  assumes "ample (Suc n) a" "length d < 2 ^ 30"
  shows "accepts oid d a" and "ample n (spec_write oid d a)"
proof -
  have fin: "finite (dom (ab_kv a))" and acc: "acct_ok a" using assms(1) by (auto simp: ample_def acct_ok_def)
  have le: "total_bytes ((ab_kv a)(oid := None)) + length d + n * 2 ^ 30 \<le> unat (ab_pool a)"
    using assms total_bytes_remove_le [OF fin, of oid] by (simp add: ample_def)
  then show ok: "accepts oid d a"
    using unat_size_plus [OF acc, of d oid] assms(2) by (simp add: accepts_def word_le_nat_alt)
  show "ample n (spec_write oid d a)"
    using spec_write_acct [OF acc _ ok] assms(2) le ok total_bytes_update [OF fin, of oid d]
    by (simp add: ample_def spec_write_def)
qed

lemma ample_remove:
  assumes "ample (Suc n) a"
  shows "ample n (snd (spec_message (Remove oid) a))"
proof -
  obtain code ack a' where s: "spec_message (Remove oid) a = ((code, ack), a')" by (metis surj_pair)
  then have "code = kOk" by (auto simp: spec_message_def split: option.splits)
  then have "acct_ok a'"
    using spec_message_acct [OF _ _ s] assms by (auto simp: ample_def request_ok_def)
  moreover have "total_bytes (ab_kv a') \<le> total_bytes (ab_kv a)" "ab_pool a' = ab_pool a"
    using s assms total_bytes_remove_le [of "ab_kv a" oid]
    by (auto simp: spec_message_def ample_def acct_ok_def split: option.splits)
  ultimately show ?thesis using s assms by (simp add: ample_def)
qed

context object_serializer
begin

lemma stored_length:
  assumes "stored_ok s valid a" "ab_kv a oid = Some d"
  shows "length d < 2 ^ 30"
  using assms size_bytes size_bound by (fastforce simp: stored_ok_def)

lemma view_Some:
  assumes "stored_ok s valid a" "ab_kv a oid = Some d"
  obtains v where "valid v" "d = ser_bytes s v" "fb_view deser a oid = Some v"
  using assms deser_bytes by (fastforce simp: stored_ok_def fb_view_def)

lemma view_None: "stored_ok s valid a \<Longrightarrow> ab_kv a oid = None \<longleftrightarrow> fb_view deser a oid = None"
  by (cases "ab_kv a oid") (auto simp: fb_view_def elim!: view_Some)

lemma view_update:
  assumes "valid v"
  shows "fb_view deser (a\<lparr>ab_kv := (ab_kv a)(oid \<mapsto> ser_bytes s v), ab_size := n\<rparr>) =
         (fb_view deser a)(oid \<mapsto> v)"
  using deser_bytes [OF assms] by (auto simp: fb_view_def fun_eq_iff)

lemma view_spec_write:
  assumes "valid v"
  shows "fb_view deser (spec_write oid (ser_bytes s v) a) =
         (if fb_room s a oid v then (fb_view deser a)(oid \<mapsto> v) else fb_view deser a)"
  using view_update [OF assms] by (auto simp: spec_write_def fb_room_def fb_view_def fun_eq_iff)

lemma stored_spec_write:
  "stored_ok s valid a \<Longrightarrow> valid v \<Longrightarrow> stored_ok s valid (spec_write oid (ser_bytes s v) a)"
  by (auto simp: stored_ok_def spec_write_def)

lemma msg_ok_write: "valid v \<Longrightarrow> msg_ok (Write oid (ser_bytes s v)) a"
  using size_bytes [of v] size_bound [of v]
  by (auto simp: msg_ok_def request_ok_def payload_size_def spec_message_def)

lemma msg_ok_read: "stored_ok s valid a \<Longrightarrow> msg_ok (Read oid) a"
  using stored_length [of a oid]
  by (auto simp: msg_ok_def request_ok_def payload_size_def spec_message_def split: option.split)

lemma msg_ok_remove: "msg_ok (Remove oid) a"
  by (auto simp: msg_ok_def request_ok_def payload_size_def spec_message_def split: option.split)

lemma deserialize_stored:
  assumes "stored_ok s valid a" "deserializer fb = deser"
  shows "bindW (raise_or (data_result (Read oid) a) st) (deserialize fb) =
         (case fb_view deser a oid of None \<Rightarrow> Some (Throw no_such_id st) | Some v \<Rightarrow> Some (Ok v st))"
proof (cases "ab_kv a oid")
  case None
  with view_None [OF assms(1), of oid] show ?thesis by (simp add: data_result_def)
next
  case (Some d)
  obtain v where v: "valid v" "d = ser_bytes s v" "fb_view deser a oid = Some v"
    using view_Some [OF assms(1) Some] .
  have "unat (ucast (word_of_nat (length d) :: u64) :: u32) = length d"
    using stored_length [OF assms(1) Some]
    by (simp add: unsigned_ucast_eq unat_of_nat take_bit_eq_mod)
  with Some v assms(2) deser_bytes [OF v(1)] show ?thesis
    by (simp add: data_result_def deserialize_def)
qed

end

lemma map_le_Some: "P \<subseteq>\<^sub>m P' \<Longrightarrow> P g = Some x \<Longrightarrow> P' g = Some x"
  by (metis domI map_le_def)

lemma promises_mono:
  assumes p: "promises fb valid P F W" and le: "P \<subseteq>\<^sub>m P'"
  shows "promises fb valid P' F W"
  unfolding promises_def
proof (intro conjI allI impI)
  fix g x assume "F g = Some x"
  with p obtain rep oid b where "P g = Some rep" "answers rep (Read oid) b"
      "stored_ok (serializer fb) valid b" "fb_view (deserializer fb) b oid = x"
    unfolding promises_def by blast
  with map_le_Some [OF le] show "\<exists>rep oid b. P' g = Some rep \<and> answers rep (Read oid) b
      \<and> stored_ok (serializer fb) valid b \<and> fb_view (deserializer fb) b oid = x" by blast
next
  fix q r assume "W q = Some r"
  with p obtain rep oid d b where "P q = Some rep" "answers rep (Write oid d) b" "accepts oid d b = r"
    unfolding promises_def by blast
  with map_le_Some [OF le] show "\<exists>rep oid d b. P' q = Some rep \<and> answers rep (Write oid d) b
      \<and> accepts oid d b = r" by blast
qed

lemma promises_upd:
  assumes "promises fb valid P F W" "P g = None"
  shows "promises fb valid (P(g \<mapsto> rep)) F W"
proof -
  have "P \<subseteq>\<^sub>m P(g \<mapsto> rep)" using assms(2) by (auto simp: map_le_def)
  with assms(1) promises_mono show ?thesis by blast
qed

lemma fb_R_I:
  assumes "session_view kv invar (fb_enc fb) s a P' n" "stored_ok (serializer fb) valid a"
    "promises fb valid P F W" "P \<subseteq>\<^sub>m P'"
  shows "fb_R kv invar fb valid s a F W n"
  using assms(1,2) promises_mono [OF assms(3,4)] unfolding fb_R_def by blast

lemma set_sem_view:
  assumes "session_view kv invar enc s a P n" "P f \<noteq> None"
  shows "session_view kv invar enc (set_sem l f s) a P n"
  using assms set_sem_rel by (fastforce simp: session_view_def)

lemma session_view_le:
  "session_view kv invar enc s a P (Suc n) \<Longrightarrow> session_view kv invar enc s a P n"
  by (auto simp: session_view_def)

lemma promises_future:
  assumes "promises fb valid P F W" "P g = None" "answers rep (Read oid) a"
    "stored_ok (serializer fb) valid a"
  shows "promises fb valid (P(g \<mapsto> rep)) (F(g \<mapsto> fb_view (deserializer fb) a oid)) W"
  using assms promises_upd [OF assms(1,2), of rep] by (auto simp: promises_def)

lemma promises_write:
  assumes "promises fb valid P F W" "P g = None" "answers rep (Write oid d) a" "accepts oid d a = r"
  shows "promises fb valid (P(g \<mapsto> rep)) F (W(g \<mapsto> r))"
proof -
  have p: "promises fb valid (P(g \<mapsto> rep)) F W" using promises_upd [OF assms(1,2)] .
  have "\<exists>rep' oid d b. (P(g \<mapsto> rep)) q = Some rep' \<and> answers rep' (Write oid d) b \<and> accepts oid d b = r'"
    if "(W(g \<mapsto> r)) q = Some r'" for q r'
  proof (cases "q = g")
    case True
    then show ?thesis using that assms(3,4) by auto
  next
    case False
    then have "W q = Some r'" using that by simp
    then show ?thesis using p unfolding promises_def by blast
  qed
  with p show ?thesis unfolding promises_def by (intro conjI allI impI) blast+
qed

context kv_backend
begin

lemma full_blade_get:
  assumes fb: "flatbuffers_documented (fb_enc fb) (fb_dec fb)" "fb_vt fb = vt"
    and ser: "object_serializer (serializer fb) (deserializer fb) valid"
    and R: "fb_R kv invar fb valid s a F W (Suc n)"
  shows "\<exists>s'. fb_R kv invar fb valid s' a F W n \<and> fb_get fb oid s =
     (case fb_view (deserializer fb) a oid of None \<Rightarrow> Some (Throw no_such_id s') | Some v \<Rightarrow> Some (Ok v s'))"
proof -
  obtain P where P: "session_view kv invar (fb_enc fb) s a P (Suc n)" "stored_ok (serializer fb) valid a"
      "promises fb valid P F W"
    using R by (auto simp: fb_R_def)
  obtain s' P' where "read_sync vt (fb_enc fb) (fb_dec fb) (fb_uninit fb) oid s =
        raise_or (data_result (Read oid) a) s'"
      "session_view kv invar (fb_enc fb) s' a P' n" "P \<subseteq>\<^sub>m P'"
    using sync_getDataPair [OF fb(1) P(1) object_serializer.msg_ok_read [OF ser P(2)] _ async_issue(1),
        of oid "fb_uninit fb"]
    by (auto simp: read_sync_def)
  moreover from this have "fb_R kv invar fb valid s' a F W n"
    using P(2,3) fb_R_I by blast
  ultimately show ?thesis
    using object_serializer.deserialize_stored [OF ser P(2) refl, of oid s'] fb(2)
    by (auto simp: fb_get_def)
qed

lemma full_blade_put:
  assumes fb: "flatbuffers_documented (fb_enc fb) (fb_dec fb)" "fb_vt fb = vt"
    and ser: "object_serializer (serializer fb) (deserializer fb) valid"
    and R: "fb_R kv invar fb valid s a F W (Suc n)" and v: "valid v"
  shows "\<exists>s'. fb_R kv invar fb valid s' (spec_write oid (ser_bytes (serializer fb) v) a) F W n
      \<and> fb_put fb oid v s = Some (if fb_room (serializer fb) a oid v then Ok True s' else Throw memory_exhausted s')"
proof -
  obtain P where P: "session_view kv invar (fb_enc fb) s a P (Suc n)" "stored_ok (serializer fb) valid a"
      "promises fb valid P F W"
    using R by (auto simp: fb_R_def)
  let ?m = "Write oid (ser_bytes (serializer fb) v)"
  have ws: "serialized (fb_uninit fb) (WriteUnitTemplate (serializer fb) v) = Some (ser_bytes (serializer fb) v)"
    using object_serializer.write_unit_bytes [OF ser v] .
  obtain s' P' where s': "fb_put fb oid v s = raise_or (get_result ?m a) s'"
      "session_view kv invar (fb_enc fb) s' (snd (spec_message ?m a)) P' n" "P \<subseteq>\<^sub>m P'"
    using sync_get [OF fb(1) P(1) object_serializer.msg_ok_write [OF ser v] _ write_async_issue [OF ws],
        of oid "fb_uninit fb"] fb(2)
    by (auto simp: fb_put_def write_sync_def)
  have a': "snd (spec_message ?m a) = spec_write oid (ser_bytes (serializer fb) v) a"
    by (simp add: spec_message_def)
  have "fb_R kv invar fb valid s' (spec_write oid (ser_bytes (serializer fb) v) a) F W n"
    using fb_R_I [OF s'(2) _ P(3) s'(3)] a' object_serializer.stored_spec_write [OF ser P(2) v] by simp
  with s'(1) show ?thesis
    by (intro exI [of _ s']) (simp add: get_result_def fb_room_def)
qed

lemma full_blade_remove:
  assumes fb: "flatbuffers_documented (fb_enc fb) (fb_dec fb)" "fb_vt fb = vt"
    and ser: "object_serializer (serializer fb) (deserializer fb) valid"
    and R: "fb_R kv invar fb valid s a F W (Suc n)"
  shows "\<exists>s'. fb_R kv invar fb valid s' (snd (spec_message (Remove oid) a)) F W n
         \<and> fb_remove fb oid s = Some (Ok (fb_view (deserializer fb) a oid \<noteq> None) s')"
proof -
  obtain P where P: "session_view kv invar (fb_enc fb) s a P (Suc n)" "stored_ok (serializer fb) valid a"
      "promises fb valid P F W"
    using R by (auto simp: fb_R_def)
  let ?a = "snd (spec_message (Remove oid) a)"
  obtain s' P' where s': "fb_remove fb oid s = raise_or (get_result (Remove oid) a) s'"
      "session_view kv invar (fb_enc fb) s' ?a P' n" "P \<subseteq>\<^sub>m P'"
    using sync_get [OF fb(1) P(1) object_serializer.msg_ok_remove [OF ser] _ async_issue(3),
        of oid "fb_uninit fb"] fb(2)
    by (auto simp: fb_remove_def client_remove_def)
  have "stored_ok (serializer fb) valid ?a"
    using P(2) by (auto simp: spec_message_def stored_ok_def split: option.split)
  then have "fb_R kv invar fb valid s' ?a F W n" using fb_R_I [OF s'(2) _ P(3) s'(3)] by blast
  then show ?thesis
    using s'(1) object_serializer.view_None [OF ser P(2), of oid]
    by (intro exI [of _ s']) (simp add: get_result_def)
qed

lemma full_blade_get_async:
  assumes fb: "flatbuffers_documented (fb_enc fb) (fb_dec fb)" "fb_vt fb = vt"
    and ser: "object_serializer (serializer fb) (deserializer fb) valid"
    and R: "fb_R kv invar fb valid s a F W (Suc n)"
  shows "\<exists>s' g. fb_get_async fb oid s = Some (Ok g s') \<and> F g = None
         \<and> fb_R kv invar fb valid s' a (F(g \<mapsto> fb_view (deserializer fb) a oid)) W n"
proof -
  obtain P where P: "session_view kv invar (fb_enc fb) s a P (Suc n)" "stored_ok (serializer fb) valid a"
      "promises fb valid P F W"
    using R by (auto simp: fb_R_def)
  obtain g s' rep where g: "fb_get_async fb oid s = Some (Ok g s')" "P g = None" "answers rep (Read oid) a"
      "session_view kv invar (fb_enc fb) s' (snd (spec_message (Read oid) a)) (P(g \<mapsto> rep)) n"
    using client_call_view [OF fb(1) P(1) object_serializer.msg_ok_read [OF ser P(2), of oid] async_issue(1),
        where uninit = "fb_uninit fb"] fb(2)
    by (auto simp: fb_get_async_def)
  have "snd (spec_message (Read oid) a) = a" by (simp add: spec_message_def)
  moreover have "F g = None"
    using P(3) g(2) unfolding promises_def by (metis not_None_eq option.distinct(1))
  ultimately show ?thesis
    using g P(2) promises_future [OF P(3) g(2,3) P(2)] by (auto simp: fb_R_def)
qed

lemma full_blade_put_async:
  assumes fb: "flatbuffers_documented (fb_enc fb) (fb_dec fb)" "fb_vt fb = vt"
    and ser: "object_serializer (serializer fb) (deserializer fb) valid"
    and R: "fb_R kv invar fb valid s a F W (Suc n)" and v: "valid v"
  shows "\<exists>s' p. fb_put_async fb oid v s = Some (Ok p s')
         \<and> fb_R kv invar fb valid s' (spec_write oid (ser_bytes (serializer fb) v) a) F
               (W(p \<mapsto> fb_room (serializer fb) a oid v)) n \<and> W p = None"
proof -
  obtain P where P: "session_view kv invar (fb_enc fb) s a P (Suc n)" "stored_ok (serializer fb) valid a"
      "promises fb valid P F W"
    using R by (auto simp: fb_R_def)
  let ?m = "Write oid (ser_bytes (serializer fb) v)"
  have ws: "serialized (fb_uninit fb) (WriteUnitTemplate (serializer fb) v) = Some (ser_bytes (serializer fb) v)"
    using object_serializer.write_unit_bytes [OF ser v] .
  obtain g s' rep where g: "fb_put_async fb oid v s = Some (Ok g s')" "P g = None" "answers rep ?m a"
      "session_view kv invar (fb_enc fb) s' (snd (spec_message ?m a)) (P(g \<mapsto> rep)) n"
    using client_call_view [OF fb(1) P(1) object_serializer.msg_ok_write [OF ser v, of oid]
        write_async_issue [OF ws], where uninit = "fb_uninit fb"] fb(2)
    by (auto simp: fb_put_async_def)
  have a': "snd (spec_message ?m a) = spec_write oid (ser_bytes (serializer fb) v) a"
    by (simp add: spec_message_def)
  have W: "W g = None"
    using P(3) g(2) unfolding promises_def by (metis not_None_eq option.distinct(1))
  have "promises fb valid (P(g \<mapsto> rep)) F (W(g \<mapsto> fb_room (serializer fb) a oid v))"
    by (rule promises_write [OF P(3) g(2,3)]) (simp add: fb_room_def)
  then have "fb_R kv invar fb valid s' (spec_write oid (ser_bytes (serializer fb) v) a) F
      (W(g \<mapsto> fb_room (serializer fb) a oid v)) n"
    using g(4) a' object_serializer.stored_spec_write [OF ser P(2) v] unfolding fb_R_def by auto
  with g(1) W show ?thesis by blast
qed

lemma full_blade_getf_wait:
  assumes fb: "flatbuffers_documented (fb_enc fb) (fb_dec fb)" "fb_vt fb = vt"
    and R: "fb_R kv invar fb valid s a F W n" and g: "F g = Some x"
  shows "\<exists>s'. fb_wait fb g s = Some (Ok () s') \<and> fb_R kv invar fb valid s' a F W n"
proof -
  obtain P where P: "session_view kv invar (fb_enc fb) s a P n" "stored_ok (serializer fb) valid a"
      "promises fb valid P F W"
    using R by (auto simp: fb_R_def)
  obtain rep where "P g = Some rep" using P(3) g unfolding promises_def by blast
  from future_wait_view [OF fb(1) P(1) this, of "fb_uninit fb"] P(2,3) fb(2) show ?thesis
    by (auto simp: fb_wait_def fb_R_def)
qed

lemma full_blade_getf:
  assumes fb: "flatbuffers_documented (fb_enc fb) (fb_dec fb)" "fb_vt fb = vt"
    and ser: "object_serializer (serializer fb) (deserializer fb) valid"
    and R: "fb_R kv invar fb valid s a F W n" and g: "F g = Some x"
  shows "\<exists>s'. fb_R kv invar fb valid s' a F W n \<and> fb_getf_get fb g s =
     (case x of None \<Rightarrow> Some (Throw no_such_id s') | Some v \<Rightarrow> Some (Ok v s'))"
proof -
  obtain P where P: "session_view kv invar (fb_enc fb) s a P n" "stored_ok (serializer fb) valid a"
      "promises fb valid P F W"
    using R by (auto simp: fb_R_def)
  obtain rep oid b where b: "P g = Some rep" "answers rep (Read oid) b" "stored_ok (serializer fb) valid b"
      "fb_view (deserializer fb) b oid = x"
    using P(3) g unfolding promises_def by blast
  obtain s' where "wait_getDataPair vt (fb_enc fb) (fb_dec fb) (fb_uninit fb) g s =
        raise_or (data_result (Read oid) b) s'" "session_view kv invar (fb_enc fb) s' a P n"
    using wait_getDataPair_view [OF fb(1) P(1) b(1,2), of "fb_uninit fb"] by auto
  with P(2,3) fb(2) object_serializer.deserialize_stored [OF ser b(3) refl, of oid s'] b(4) show ?thesis
    by (intro exI [of _ s']) (auto simp: fb_getf_get_def fb_R_def)
qed

lemma full_blade_putf:
  assumes fb: "flatbuffers_documented (fb_enc fb) (fb_dec fb)" "fb_vt fb = vt"
    and R: "fb_R kv invar fb valid s a F W n" and p: "W p = Some r"
  shows "\<exists>s'. fb_wait fb p s = Some (Ok () s') \<and> fb_R kv invar fb valid s' a F W n"
    and "\<exists>b s'. fb_try_wait fb p s = Some (Ok b s') \<and> fb_R kv invar fb valid s' a F W n"
    and "\<exists>s'. fb_putf_get fb p s = Some (if r then Ok True s' else Throw memory_exhausted s')
           \<and> fb_R kv invar fb valid s' a F W n"
proof -
  obtain P where P: "session_view kv invar (fb_enc fb) s a P n" "stored_ok (serializer fb) valid a"
      "promises fb valid P F W"
    using R by (auto simp: fb_R_def)
  then obtain rep oid d b where rep: "P p = Some rep" "answers rep (Write oid d) b" "accepts oid d b = r"
    using p unfolding promises_def by blast
  from future_wait_view [OF fb(1) P(1) rep(1), of "fb_uninit fb"] P(2,3) fb(2)
  show "\<exists>s'. fb_wait fb p s = Some (Ok () s') \<and> fb_R kv invar fb valid s' a F W n"
    by (auto simp: fb_wait_def fb_R_def)
  have "fb_R kv invar fb valid (set_sem l p s) a F W n" for l
    using set_sem_view [OF P(1)] rep(1) P(2,3) by (auto simp: fb_R_def)
  then show "\<exists>b s'. fb_try_wait fb p s = Some (Ok b s') \<and> fb_R kv invar fb valid s' a F W n"
    by (auto simp: fb_try_wait_def split: prod.split)
  obtain s' where "wait_get vt (fb_enc fb) (fb_dec fb) (fb_uninit fb) p s =
        raise_or (get_result (Write oid d) b) s'" "session_view kv invar (fb_enc fb) s' a P n"
    using wait_get_view [OF fb(1) P(1) rep(1,2), of "fb_uninit fb"] by auto
  with P(2,3) fb(2) rep(3) show "\<exists>s'. fb_putf_get fb p s = Some (if r then Ok True s' else Throw memory_exhausted s')
           \<and> fb_R kv invar fb valid s' a F W n"
    by (intro exI [of _ s']) (auto simp: fb_putf_get_def fb_R_def get_result_def)
qed

lemma view_spec_remove:
  "fb_view deser (snd (spec_message (Remove oid) a)) = (fb_view deser a)(oid := None)"
  by (auto simp: spec_message_def fb_view_def fun_eq_iff split: option.split)

lemma fb_R_le: "fb_R kv invar fb valid s a F W (Suc n) \<Longrightarrow> fb_R kv invar fb valid s a F W n"
  using session_view_le unfolding fb_R_def by blast

lemma full_blade_object_store:
  assumes fb: "flatbuffers_documented (fb_enc fb) (fb_dec fb)" "fb_vt fb = vt"
    and ser: "object_serializer (serializer fb) (deserializer fb) valid"
  shows "object_store (fb_ostore fb) (fb_R kv invar fb valid) (fb_view (deserializer fb))
           (fb_room (serializer fb)) valid"
proof (unfold_locales, goal_cases)
  case (1 s a F W n oid v)
  then have st: "stored_ok (serializer fb) valid a" by (auto simp: fb_R_def)
  then obtain d where d: "ab_kv a oid = Some d"
    using object_serializer.view_None [OF ser st, of oid] 1(2) by auto
  show ?case
    by (rule object_serializer.view_Some [OF ser st d]) (use 1(2) in simp)
next
  case (2 s a F W n)
  then show ?case by (rule fb_R_le)
next
  case (3 s a F W n oid)
  with full_blade_get [OF fb ser] show ?case unfolding fb_ostore_def ostore.simps by blast
next
  case (4 s a F W n v oid)
  from full_blade_put [OF fb ser 4, of oid] object_serializer.view_spec_write [OF ser 4(2), of oid a]
  show ?case unfolding fb_ostore_def ostore.simps by (elim exE conjE) (intro exI conjI, assumption, simp)
next
  case (5 s a F W n oid)
  from full_blade_remove [OF fb ser 5, of oid] view_spec_remove
  show ?case unfolding fb_ostore_def ostore.simps by blast
next
  case (6 s a F W n oid)
  with full_blade_get_async [OF fb ser] show ?case unfolding fb_ostore_def ostore.simps by blast
next
  case (7 s a F W n v oid)
  from full_blade_put_async [OF fb ser 7, of oid] object_serializer.view_spec_write [OF ser 7(2), of oid a]
  show ?case unfolding fb_ostore_def ostore.simps by blast
next
  case (8 s a F W n g x)
  with full_blade_getf_wait [OF fb] show ?case unfolding fb_ostore_def ostore.simps by blast
next
  case (9 s a F W n g x)
  with full_blade_getf [OF fb ser] show ?case unfolding fb_ostore_def ostore.simps by blast
next
  case (10 s a F W n p)
  with full_blade_putf(1) [OF fb] show ?case unfolding fb_ostore_def ostore.simps by blast
next
  case (11 s a F W n p)
  with full_blade_putf(2) [OF fb] show ?case unfolding fb_ostore_def ostore.simps by blast
next
  case (12 s a F W n p b)
  with full_blade_putf(3) [OF fb] show ?case unfolding fb_ostore_def ostore.simps by blast
qed

text \<open>The same with a server whose pool has room for all the requests to come.\<close>

lemma full_blade_roomy:
  assumes fb: "flatbuffers_documented (fb_enc fb) (fb_dec fb)" "fb_vt fb = vt"
    and ser: "object_serializer (serializer fb) (deserializer fb) valid"
  shows "roomy_store (fb_ostore fb) (fb_ample_R kv invar fb valid) (fb_view (deserializer fb))
           (fb_room (serializer fb)) valid"
proof -
  let ?R = "fb_ample_R kv invar fb valid"
  have len: "length (ser_bytes (serializer fb) v) < 2 ^ 30" if "valid v" for v
    using object_serializer.size_bytes [OF ser that] object_serializer.size_bound [OF ser that] by simp
  show ?thesis
  proof (unfold_locales, goal_cases)
    case (1 s a F W n oid v)
    then show ?case
      using object_store.os_valid [OF full_blade_object_store [OF fb ser]] by (auto simp: fb_ample_R_def)
  next
    case (2 s a F W n)
    then show ?case by (simp add: fb_ample_R_def fb_R_le ample_less)
  next
    case (3 s a F W n oid)
    then have "fb_R kv invar fb valid s a F W (Suc n)" "ample n a" by (auto simp: fb_ample_R_def ample_less)
    with full_blade_get [OF fb ser, of s a F W n oid] show ?case
      unfolding fb_ostore_def ostore.simps fb_ample_R_def by blast
  next
    case (4 s a F W n v oid)
    then have *: "fb_R kv invar fb valid s a F W (Suc n)" "ample (Suc n) a" by (auto simp: fb_ample_R_def)
    from full_blade_put [OF fb ser *(1) 4(2), of oid] object_serializer.view_spec_write [OF ser 4(2), of oid a]
      ample_write [OF *(2) len [OF 4(2)], of oid]
    show ?case unfolding fb_ostore_def ostore.simps fb_ample_R_def
      by (elim exE conjE) (intro exI conjI, assumption, assumption, simp)
  next
    case (5 s a F W n oid)
    then have *: "fb_R kv invar fb valid s a F W (Suc n)" "ample (Suc n) a" by (auto simp: fb_ample_R_def)
    from full_blade_remove [OF fb ser *(1), of oid] view_spec_remove ample_remove [OF *(2), of oid]
    show ?case unfolding fb_ostore_def ostore.simps fb_ample_R_def by blast
  next
    case (6 s a F W n oid)
    then have *: "fb_R kv invar fb valid s a F W (Suc n)" "ample n a" by (auto simp: fb_ample_R_def ample_less)
    with full_blade_get_async [OF fb ser, of s a F W n oid] show ?case
      unfolding fb_ostore_def ostore.simps fb_ample_R_def by blast
  next
    case (7 s a F W n v oid)
    then have *: "fb_R kv invar fb valid s a F W (Suc n)" "ample (Suc n) a" by (auto simp: fb_ample_R_def)
    from full_blade_put_async [OF fb ser *(1) 7(2), of oid] object_serializer.view_spec_write [OF ser 7(2), of oid a]
      ample_write [OF *(2) len [OF 7(2)], of oid]
    show ?case unfolding fb_ostore_def ostore.simps fb_ample_R_def by blast
  next
    case (8 s a F W n g x)
    then have *: "fb_R kv invar fb valid s a F W n" "ample n a" by (auto simp: fb_ample_R_def)
    from full_blade_getf_wait [OF fb *(1) 8(2)] *(2) show ?case
      unfolding fb_ostore_def ostore.simps fb_ample_R_def by blast
  next
    case (9 s a F W n g x)
    then have *: "fb_R kv invar fb valid s a F W n" "ample n a" by (auto simp: fb_ample_R_def)
    from full_blade_getf [OF fb ser *(1) 9(2)] *(2) show ?case
      unfolding fb_ostore_def ostore.simps fb_ample_R_def by blast
  next
    case (10 s a F W n p)
    then have *: "fb_R kv invar fb valid s a F W n" "ample n a" by (auto simp: fb_ample_R_def)
    obtain r where "W p = Some r" using 10(2) by blast
    from full_blade_putf(1) [OF fb *(1) this] *(2) show ?case
      unfolding fb_ostore_def ostore.simps fb_ample_R_def by blast
  next
    case (11 s a F W n p)
    then have *: "fb_R kv invar fb valid s a F W n" "ample n a" by (auto simp: fb_ample_R_def)
    obtain r where "W p = Some r" using 11(2) by blast
    from full_blade_putf(2) [OF fb *(1) this] *(2) show ?case
      unfolding fb_ostore_def ostore.simps fb_ample_R_def by blast
  next
    case (12 s a F W n p b)
    then have *: "fb_R kv invar fb valid s a F W n" "ample n a" by (auto simp: fb_ample_R_def)
    from full_blade_putf(3) [OF fb *(1) 12(2)] *(2) show ?case
      unfolding fb_ostore_def ostore.simps fb_ample_R_def by blast
  next
    case (13 s a F W n v oid)
    then show ?case using ample_write(1) [OF _ len [OF 13(2)]] by (auto simp: fb_ample_R_def fb_room_def)
  qed
qed

end

end
