(* ===== verification/Eviction_Policy.thy ===== *)
theory Eviction_Policy
  imports Cirrus_Prelude
begin

text \<open>
  The eviction policies of the cache: the virtual functions of
  \<^verbatim>\<open>src/src/cache_manager/EvictionPolicy.h\<close>, the contracts the cache relies on, and the
  two implementations \<^verbatim>\<open>LRAddedEvictionPolicy.cpp\<close> (first in, first out) and
  \<^verbatim>\<open>LRUEvictionPolicy.cpp\<close> (least recently used), with the containers and the iterators
  they keep. An erase through an end iterator or through an iterator of a node that is
  gone is \<open>Undef\<close>.
\<close>

section \<open>The interface\<close>

record 'e eviction_policy =
  ep_get :: "ObjectID \<Rightarrow> 'e \<Rightarrow> (ObjectID list, 'e) outcome"
  ep_put :: "ObjectID \<Rightarrow> 'e \<Rightarrow> (ObjectID list, 'e) outcome"
  ep_prefetch :: "ObjectID \<Rightarrow> 'e \<Rightarrow> (ObjectID list, 'e) outcome"
  ep_remove :: "ObjectID \<Rightarrow> 'e \<Rightarrow> (unit, 'e) outcome"

text \<open>
  What it means that a call admits \<open>oid\<close>: the policy tracks it from now on and names at
  most one id to drop, among those it tracked before. An id that is already tracked costs
  nothing.
\<close>

definition admits :: "('e \<Rightarrow> ObjectID set) \<Rightarrow> ('e \<Rightarrow> bool) \<Rightarrow> ObjectID
    \<Rightarrow> (ObjectID list, 'e) outcome \<Rightarrow> 'e \<Rightarrow> bool" where
  "admits tracked invar oid m p \<longleftrightarrow>
     (\<exists>vs p'. m = Ok vs p' \<and> invar p' \<and> length vs \<le> 1 \<and> set vs \<subseteq> tracked p - {oid}
        \<and> tracked p' = insert oid (tracked p) - set vs
        \<and> (oid \<in> tracked p \<longrightarrow> vs = []))"

text \<open>
  The contract all policies meet. A policy may decide not to track what is put:
  \<open>ep_put\<close> then changes nothing.
\<close>

locale cache_eviction =
  fixes ep :: "'e eviction_policy"
    and tracked :: "'e \<Rightarrow> ObjectID set"
    and invar :: "'e \<Rightarrow> bool"
    and cap :: nat
  assumes ep_finite: "invar p \<Longrightarrow> finite (tracked p) \<and> card (tracked p) \<le> cap"
    and ep_cap: "0 < cap"
    and ep_get: "invar p \<Longrightarrow> admits tracked invar oid (ep_get ep oid p) p"
    and ep_prefetch: "invar p \<Longrightarrow> admits tracked invar oid (ep_prefetch ep oid p) p"
    and ep_put: "invar p \<Longrightarrow> admits tracked invar oid (ep_put ep oid p) p
                   \<or> ep_put ep oid p = Ok [] p"
    and ep_remove: "invar p \<Longrightarrow> \<exists>p'. ep_remove ep oid p = Ok () p' \<and> invar p'
                   \<and> tracked p' = tracked p - {oid}"
begin

text \<open>After a call that admits an id there is a free slot for it among the ids kept.\<close>

lemma admits_room:
  assumes "invar p" "admits tracked invar oid m p" "m = Ok vs p'" "oid \<notin> tracked p"
  shows "card (tracked p - set vs) < cap"
proof -
  have p': "tracked p' = insert oid (tracked p) - set vs" "set vs \<subseteq> tracked p - {oid}" "invar p'"
    using assms by (auto simp: admits_def)
  then have "tracked p' = insert oid (tracked p - set vs)" by auto
  moreover have "finite (tracked p')" "card (tracked p') \<le> cap" using ep_finite p'(3) by blast+
  moreover have "oid \<notin> tracked p - set vs" using assms(4) by auto
  ultimately show ?thesis by (auto simp: card_insert_if split: if_splits)
qed

end

text \<open>The contract of a policy that tracks whatever enters the cache.\<close>

locale cache_tracking = cache_eviction +
  assumes ep_put_admits: "invar p \<Longrightarrow> admits tracked invar oid (ep_put ep oid p) p"

section \<open>LRAddedEvictionPolicy\<close>

record lradded =
  lra_max_size :: u64
  object_set :: "ObjectID set"
  object_deque :: "ObjectID list"

definition LRAddedEvictionPolicy :: "u64 \<Rightarrow> lradded" where
  "LRAddedEvictionPolicy max_size = \<lparr>lra_max_size = max_size, object_set = {}, object_deque = []\<rparr>"

definition lra_process_oid :: "ObjectID \<Rightarrow> lradded \<Rightarrow> (ObjectID list, lradded) outcome" where
  "lra_process_oid oid p =
     (if oid \<notin> object_set p then
        let p1 = p\<lparr>object_set := insert oid (object_set p), object_deque := object_deque p @ [oid]\<rparr>
        in if length (object_deque p1) > unat (lra_max_size p1) then
             let to_remove = hd (object_deque p1);
                 p2 = p1\<lparr>object_deque := tl (object_deque p1)\<rparr>
             in if to_remove \<notin> object_set p2 then Undef
                else Ok [to_remove] (p2\<lparr>object_set := object_set p2 - {to_remove}\<rparr>)
           else Ok [] p1
      else Ok [] p)"

definition lra_get :: "ObjectID \<Rightarrow> lradded \<Rightarrow> (ObjectID list, lradded) outcome" where
  "lra_get oid p = lra_process_oid oid p"

definition lra_put :: "ObjectID \<Rightarrow> lradded \<Rightarrow> (ObjectID list, lradded) outcome" where
  "lra_put oid p = lra_process_oid oid p"

definition lra_prefetch :: "ObjectID \<Rightarrow> lradded \<Rightarrow> (ObjectID list, lradded) outcome" where
  "lra_prefetch oid p = lra_process_oid oid p"

definition lra_remove :: "ObjectID \<Rightarrow> lradded \<Rightarrow> (unit, lradded) outcome" where
  "lra_remove oid p =
     (if oid \<in> object_set p then
        let p1 = p\<lparr>object_set := object_set p - {oid}\<rparr>
        in if oid \<notin> set (object_deque p1) then Undef
           else Ok () (p1\<lparr>object_deque := remove1 oid (object_deque p1)\<rparr>)
      else Ok () p)"

definition lra_policy :: "lradded eviction_policy" where
  "lra_policy = \<lparr>ep_get = lra_get, ep_put = lra_put, ep_prefetch = lra_prefetch,
                 ep_remove = lra_remove\<rparr>"

text \<open>The set holds the elements of the deque, once each, and there are at most \<open>cap\<close>.\<close>

definition lra_invar :: "nat \<Rightarrow> lradded \<Rightarrow> bool" where
  "lra_invar cap p \<longleftrightarrow> unat (lra_max_size p) = cap \<and> object_set p = set (object_deque p)
     \<and> distinct (object_deque p) \<and> length (object_deque p) \<le> cap"

lemma lra_invar_new: "lra_invar (unat n) (LRAddedEvictionPolicy n)"
  by (simp add: lra_invar_def LRAddedEvictionPolicy_def)

lemma lra_process_oid_cases:
  assumes "lra_invar cap p" "0 < cap"
  shows "lra_process_oid oid p =
    (if oid \<in> set (object_deque p) then Ok [] p
     else if length (object_deque p) < cap
       then Ok [] (p\<lparr>object_set := insert oid (object_set p), object_deque := object_deque p @ [oid]\<rparr>)
     else Ok [hd (object_deque p)]
       (p\<lparr>object_set := insert oid (object_set p) - {hd (object_deque p)},
          object_deque := tl (object_deque p) @ [oid]\<rparr>))"
proof (cases "object_deque p")
  case Nil
  then show ?thesis using assms by (auto simp: lra_invar_def lra_process_oid_def)
next
  case (Cons x xs)
  then show ?thesis using assms
    by (auto simp: lra_invar_def lra_process_oid_def Let_def)
qed

lemma lra_admits:
  assumes "lra_invar cap p" "0 < cap"
  shows "admits object_set (lra_invar cap) oid (lra_process_oid oid p) p"
proof (cases "object_deque p")
  case Nil
  then show ?thesis using assms
    by (auto simp: admits_def lra_process_oid_cases [OF assms] lra_invar_def)
next
  case (Cons x xs)
  then show ?thesis using assms
    by (auto simp: admits_def lra_process_oid_cases [OF assms] lra_invar_def)
qed

lemma lra_remove_ok:
  assumes "lra_invar cap p"
  shows "\<exists>p'. lra_remove oid p = Ok () p' \<and> lra_invar cap p' \<and> object_set p' = object_set p - {oid}"
proof -
  have "length (remove1 oid (object_deque p)) \<le> cap"
    using assms length_remove1 [of oid "object_deque p"] by (auto simp: lra_invar_def)
  then show ?thesis using assms by (auto simp: lra_remove_def lra_invar_def Let_def remove1_idem)
qed

text \<open>A deque of capacity \<open>n\<close>, for every positive \<open>n\<close>, meets the contract.\<close>

lemma lra_tracking:
  assumes "0 < cap"
  shows "cache_tracking lra_policy object_set (lra_invar cap) cap"
proof (unfold_locales, goal_cases)
  case (1 p)
  then show ?case by (simp add: lra_invar_def distinct_card)
qed (use assms lra_admits lra_remove_ok in \<open>simp_all add: lra_policy_def lra_get_def lra_put_def lra_prefetch_def\<close>)

section \<open>LRUEvictionPolicy\<close>

text \<open>
  A \<^verbatim>\<open>std::list\<close> of nodes: each node has an address, and the map holds list iterators,
  that is node addresses. \<open>next_node\<close> is the address the allocator returns next.
\<close>

record lru =
  lru_max_size :: u64
  object_map :: "(ObjectID \<times> nat) list"
  object_list :: "(nat \<times> ObjectID) list"
  next_node :: nat

definition LRUEvictionPolicy :: "u64 \<Rightarrow> lru" where
  "LRUEvictionPolicy max_size =
     \<lparr>lru_max_size = max_size, object_map = [], object_list = [], next_node = 0\<rparr>"

text \<open>\<^verbatim>\<open>list::insert(begin(), oid)\<close>, which returns the iterator to the new node.\<close>

definition list_push_front :: "ObjectID \<Rightarrow> lru \<Rightarrow> nat \<times> lru" where
  "list_push_front oid p =
     (next_node p, p\<lparr>object_list := (next_node p, oid) # object_list p, next_node := Suc (next_node p)\<rparr>)"

definition lru_process_oid :: "ObjectID \<Rightarrow> lru \<Rightarrow> (ObjectID list, lru) outcome" where
  "lru_process_oid oid p =
     (case map_of (object_map p) oid of
        None \<Rightarrow>
          let (nd, p1) = list_push_front oid p;
              p2 = p1\<lparr>object_map := AList.update oid nd (object_map p1)\<rparr>
          in if length (object_map p2) > unat (lru_max_size p2) then
               let to_remove = snd (last (object_list p2));
                   p3 = p2\<lparr>object_list := butlast (object_list p2)\<rparr>
               in if map_of (object_map p3) to_remove = None then Undef
                  else Ok [to_remove] (p3\<lparr>object_map := AList.delete to_remove (object_map p3)\<rparr>)
             else Ok [] p2
      | Some nd \<Rightarrow>
          (case map_of (object_list p) nd of
             None \<Rightarrow> Undef
           | Some v \<Rightarrow> Ok [] (p\<lparr>object_list := (nd, v) # AList.delete nd (object_list p)\<rparr>)))"

definition lru_get :: "ObjectID \<Rightarrow> lru \<Rightarrow> (ObjectID list, lru) outcome" where
  "lru_get oid p = lru_process_oid oid p"

definition lru_put :: "ObjectID \<Rightarrow> lru \<Rightarrow> (ObjectID list, lru) outcome" where
  "lru_put oid p = Ok [] p"

definition lru_prefetch :: "ObjectID \<Rightarrow> lru \<Rightarrow> (ObjectID list, lru) outcome" where
  "lru_prefetch oid p = lru_process_oid oid p"

definition lru_remove :: "ObjectID \<Rightarrow> lru \<Rightarrow> (unit, lru) outcome" where
  "lru_remove oid p =
     (case map_of (object_map p) oid of
        None \<Rightarrow> Ok () p
      | Some nd \<Rightarrow>
          if map_of (object_list p) nd = None then Undef
          else Ok () (p\<lparr>object_list := AList.delete nd (object_list p),
                        object_map := AList.delete oid (object_map p)\<rparr>))"

definition lru_policy :: "lru eviction_policy" where
  "lru_policy = \<lparr>ep_get = lru_get, ep_put = lru_put, ep_prefetch = lru_prefetch,
                 ep_remove = lru_remove\<rparr>"

definition lru_tracked :: "lru \<Rightarrow> ObjectID set" where
  "lru_tracked p = set (map snd (object_list p))"

text \<open>The iterators of the map are those of the nodes of the list, and each id has one node.\<close>

definition lru_invar :: "nat \<Rightarrow> lru \<Rightarrow> bool" where
  "lru_invar cap p \<longleftrightarrow> unat (lru_max_size p) = cap
     \<and> wf_alist (object_map p) \<and> wf_alist (object_list p) \<and> distinct (map snd (object_list p))
     \<and> (\<forall>oid nd. map_of (object_map p) oid = Some nd \<longleftrightarrow> (nd, oid) \<in> set (object_list p))
     \<and> (\<forall>nd \<in> fst ` set (object_list p). nd < next_node p)
     \<and> length (object_list p) \<le> cap"

lemma lru_invar_new: "lru_invar (unat n) (LRUEvictionPolicy n)"
  by (simp add: lru_invar_def LRUEvictionPolicy_def)

lemma lru_map_None:
  assumes "lru_invar cap p"
  shows "map_of (object_map p) oid = None \<longleftrightarrow> oid \<notin> lru_tracked p"
proof -
  have iff: "map_of (object_map p) oid = Some nd \<longleftrightarrow> (nd, oid) \<in> set (object_list p)" for nd
    using assms by (simp add: lru_invar_def)
  show ?thesis
    using iff by (cases "map_of (object_map p) oid") (force simp: lru_tracked_def)+
qed

lemma lru_map_length:
  assumes "lru_invar cap p"
  shows "length (object_map p) = length (object_list p)"
proof -
  have "dom (map_of (object_map p)) = lru_tracked p"
    using lru_map_None [OF assms] by (auto simp: dom_def)
  then show ?thesis
    using assms card_dom_alist [of "object_map p"] distinct_card [of "map snd (object_list p)"]
    by (simp add: lru_invar_def lru_tracked_def)
qed

lemma lru_invarI:
  assumes "unat (lru_max_size p) = cap" "wf_alist (object_map p)" "wf_alist (object_list p)"
    "distinct (map snd (object_list p))" "length (object_list p) \<le> cap"
    "\<And>nd. nd \<in> fst ` set (object_list p) \<Longrightarrow> nd < next_node p"
    "\<And>oid nd. map_of (object_map p) oid = Some nd \<longleftrightarrow> (nd, oid) \<in> set (object_list p)"
  shows "lru_invar cap p"
  using assms by (simp add: lru_invar_def)

lemma lru_invarD:
  assumes "lru_invar cap p"
  shows "unat (lru_max_size p) = cap" "wf_alist (object_map p)" "wf_alist (object_list p)"
    "distinct (map snd (object_list p))" "length (object_list p) \<le> cap"
    "nd \<in> fst ` set (object_list p) \<Longrightarrow> nd < next_node p"
    "map_of (object_map p) oid = Some nd \<longleftrightarrow> (nd, oid) \<in> set (object_list p)"
  using assms by (auto simp: lru_invar_def)

text \<open>A miss: the new node goes to the front, and the node at the back goes when the list is full.\<close>

lemma lru_process_miss:
  assumes i: "lru_invar cap p" and "0 < cap" and new: "oid \<notin> lru_tracked p"
  shows "\<exists>p'. lru_process_oid oid p =
            Ok (if length (object_list p) < cap then [] else [snd (last (object_list p))]) p'
          \<and> lru_invar cap p' \<and> map snd (object_list p') = take cap (oid # map snd (object_list p))"
proof (cases "length (object_list p) < cap")
  note D = lru_invarD [OF i]
  have none: "map_of (object_map p) oid = None" using lru_map_None [OF i] new by blast
  have fresh: "next_node p \<notin> fst ` set (object_list p)" using D(6) by blast
  have len: "length (AList.update oid (next_node p) (object_map p)) = Suc (length (object_list p))"
    using lru_map_length [OF i] length_update_new [OF none] by simp
  have notin: "oid \<notin> snd ` set (object_list p)" using new by (simp add: lru_tracked_def)
  {
    case True
    let ?p = "p\<lparr>object_list := (next_node p, oid) # object_list p, next_node := Suc (next_node p),
                object_map := AList.update oid (next_node p) (object_map p)\<rparr>"
    have "lru_process_oid oid p = Ok [] ?p"
      using len D(1) none True by (simp add: lru_process_oid_def list_push_front_def Let_def)
    moreover have "lru_invar cap ?p"
    proof (rule lru_invarI, goal_cases)
      case (6 nd)
      then show ?case using D(6) less_Suc_eq by auto
    next
      case (7 x nd)
      show ?case using D(7) [of x nd] notin by (auto simp: image_iff)
    qed (use D(1-5) True fresh notin in \<open>simp_all add: wf_alist_def distinct_update\<close>)
    ultimately show ?thesis using True by (intro exI [of _ ?p]) simp
  next
    case False
    then have full: "length (object_list p) = cap" using D(5) by simp
    obtain xs nd v where xs: "object_list p = xs @ [(nd, v)]"
      using full \<open>0 < cap\<close> by (cases "object_list p" rule: rev_cases) auto
    let ?m = "AList.update oid (next_node p) (object_map p)"
    let ?p = "p\<lparr>object_list := (next_node p, oid) # xs, next_node := Suc (next_node p),
                object_map := AList.delete v ?m\<rparr>"
    have v: "v \<noteq> oid" "map_of (object_map p) v = Some nd" "v \<notin> snd ` set xs"
      using notin D(4) D(7) [of v nd] xs by auto
    have "lru_process_oid oid p = Ok [v] ?p"
      using len full D(1) none v(2) xs by (simp add: lru_process_oid_def list_push_front_def Let_def)
    moreover have "lru_invar cap ?p"
    proof (rule lru_invarI, goal_cases)
      case (6 nd')
      then show ?case using D(6) [of nd'] less_Suc_eq xs by auto
    next
      case (7 x nd')
      show ?case using D(7) [of x nd'] notin v(1,3) xs by (auto simp: image_iff)
    qed (use D(1-5) full fresh notin xs in \<open>simp_all add: wf_alist_def distinct_update distinct_delete\<close>)
    moreover have "take cap (oid # map snd (object_list p)) = oid # map snd xs"
      using full xs by (cases cap) auto
    ultimately show ?thesis using full xs by (intro exI [of _ ?p]) simp
  }
qed

text \<open>A hit: the node moves to the front.\<close>

lemma map_snd_delete:
  assumes "distinct (map fst xs)" "distinct (map snd xs)" "(nd, oid) \<in> set xs"
  shows "map snd (AList.delete nd xs) = removeAll oid (map snd xs)"
proof -
  have "fst x \<noteq> nd \<longleftrightarrow> snd x \<noteq> oid" if "x \<in> set xs" for x
    using assms that
    by (metis distinct_map inj_on_eq_iff fst_conv snd_conv)
  then have "(case x of (k, _) \<Rightarrow> nd \<noteq> k) \<longleftrightarrow> snd x \<noteq> oid" if "x \<in> set xs" for x
    using that by (cases x) (metis case_prod_conv fst_conv snd_conv)
  then have "AList.delete nd xs = filter (\<lambda>x. snd x \<noteq> oid) xs"
    unfolding AList.delete_eq by (rule filter_cong [OF refl])
  then show ?thesis by (simp add: removeAll_filter_not_eq filter_map o_def eq_commute)
qed

lemma lru_process_hit:
  assumes i: "lru_invar cap p" and hit: "oid \<in> lru_tracked p"
  shows "\<exists>p'. lru_process_oid oid p = Ok [] p' \<and> lru_invar cap p'
          \<and> map snd (object_list p') = oid # removeAll oid (map snd (object_list p))"
proof -
  note D = lru_invarD [OF i]
  obtain nd where nd: "(nd, oid) \<in> set (object_list p)" "map_of (object_map p) oid = Some nd"
    using hit D(7) by (auto simp: lru_tracked_def)
  then have l: "map_of (object_list p) nd = Some oid" using D(3) by (simp add: wf_alist_def)
  let ?d = "AList.delete nd (object_list p)"
  let ?p = "p\<lparr>object_list := (nd, oid) # ?d\<rparr>"
  have snd: "map snd ?d = removeAll oid (map snd (object_list p))"
    using map_snd_delete D(3,4) nd(1) by (simp add: wf_alist_def)
  have mem: "(n', x) \<in> set ?d \<longleftrightarrow> (n', x) \<in> set (object_list p) \<and> n' \<noteq> nd" for n' x
    by (auto simp: AList.delete_eq)
  have uniq: "x = oid" if "(nd, x) \<in> set (object_list p)" for x
    using that nd(1) D(3) by (auto simp: wf_alist_def dest: eq_key_imp_eq_value)
  have "lru_invar cap ?p"
  proof (rule lru_invarI, goal_cases)
    case 3
    then show ?case using D(3) wf_alist_delete [OF D(3), of nd] by (auto simp: wf_alist_def mem)
  next
    case 4
    then show ?case using snd D(4) by (simp add: distinct_removeAll flip: set_map)
  next
    case 5
    then show ?case using length_delete_old [OF D(3) l] D(5) by simp
  next
    case (6 n')
    then show ?case using D(6) [of n'] nd(1) by (force simp: mem)
  next
    case (7 x n')
    show ?case using D(7) [of x n'] uniq [of x] nd(1) by (auto simp: mem)
  qed (use D(1,2) in simp_all)
  with nd l snd show ?thesis
    by (intro exI [of _ ?p]) (simp add: lru_process_oid_def)
qed

lemma lru_admits:
  assumes i: "lru_invar cap p" and "0 < cap"
  shows "admits lru_tracked (lru_invar cap) oid (lru_process_oid oid p) p"
proof (cases "oid \<in> lru_tracked p")
  case True
  from lru_process_hit [OF i True] obtain p' where p': "lru_process_oid oid p = Ok [] p'"
      "lru_invar cap p'" "map snd (object_list p') = oid # removeAll oid (map snd (object_list p))"
    by (elim exE conjE) (rule that)
  have "lru_tracked p' = insert oid (lru_tracked p)" unfolding lru_tracked_def p'(3) by auto
  with p'(1,2) True show ?thesis unfolding admits_def by (intro exI [of _ "[]"] exI [of _ p']) simp
next
  case False
  from lru_process_miss [OF i \<open>0 < cap\<close> False] obtain p' where p': "lru_process_oid oid p =
        Ok (if length (object_list p) < cap then [] else [snd (last (object_list p))]) p'"
      "lru_invar cap p'" "map snd (object_list p') = take cap (oid # map snd (object_list p))"
    by (elim exE conjE) (rule that)
  show ?thesis
  proof (cases "length (object_list p) < cap")
    case True
    then have "map snd (object_list p') = oid # map snd (object_list p)" using p'(3) by simp
    then have "lru_tracked p' = insert oid (lru_tracked p)" unfolding lru_tracked_def by simp
    then show ?thesis using p'(1,2) True unfolding admits_def
      by (intro exI [of _ "[]"] exI [of _ p']) simp
  next
    case False
    then have full: "length (object_list p) = cap" using lru_invarD(5) [OF i] by simp
    then obtain xs nd v where xs: "object_list p = xs @ [(nd, v)]"
      using \<open>0 < cap\<close> by (cases "object_list p" rule: rev_cases) auto
    then have "map snd (object_list p') = oid # map snd xs"
      using p'(3) full by (cases cap) auto
    then have "lru_tracked p' = insert oid (snd ` set xs)" unfolding lru_tracked_def by simp
    moreover have v: "lru_tracked p = insert v (snd ` set xs)" using xs by (simp add: lru_tracked_def)
    moreover have "v \<notin> snd ` set xs" using lru_invarD(4) [OF i] xs by simp
    moreover have "v \<noteq> oid" using v \<open>oid \<notin> lru_tracked p\<close> by auto
    ultimately have "lru_tracked p' = insert oid (lru_tracked p) - {v}" by auto
    then show ?thesis using p'(1,2) False xs v \<open>v \<noteq> oid\<close> \<open>oid \<notin> lru_tracked p\<close>
      unfolding admits_def by (intro exI [of _ "[v]"] exI [of _ p']) simp
  qed
qed

lemma lru_remove_ok:
  assumes i: "lru_invar cap p"
  shows "\<exists>p'. lru_remove oid p = Ok () p' \<and> lru_invar cap p' \<and> lru_tracked p' = lru_tracked p - {oid}"
proof (cases "map_of (object_map p) oid")
  case None
  then have "oid \<notin> lru_tracked p" using lru_map_None [OF i] by blast
  with None i show ?thesis by (auto simp: lru_remove_def)
next
  case (Some nd)
  note D = lru_invarD [OF i]
  have nd: "(nd, oid) \<in> set (object_list p)" using D(7) Some by blast
  then have l: "map_of (object_list p) nd = Some oid" using D(3) by (simp add: wf_alist_def)
  let ?d = "AList.delete nd (object_list p)"
  let ?p = "p\<lparr>object_list := ?d, object_map := AList.delete oid (object_map p)\<rparr>"
  have snd: "map snd ?d = removeAll oid (map snd (object_list p))"
    using map_snd_delete D(3,4) nd by (simp add: wf_alist_def)
  have mem: "(n', x) \<in> set ?d \<longleftrightarrow> (n', x) \<in> set (object_list p) \<and> n' \<noteq> nd" for n' x
    by (auto simp: AList.delete_eq)
  have uniq: "x = oid" if "(nd, x) \<in> set (object_list p)" for x
    using that nd D(3) by (auto simp: wf_alist_def dest: eq_key_imp_eq_value)
  have "lru_invar cap ?p"
  proof (rule lru_invarI, goal_cases)
    case 4
    then show ?case using snd D(4) by (simp add: distinct_removeAll)
  next
    case 5
    then show ?case using length_delete_old [OF D(3) l] D(5) by simp
  next
    case (6 n')
    then show ?case using D(6) [of n'] by (force simp: mem)
  next
    case (7 x n')
    show ?case using D(7) [of x n'] D(7) [of oid n'] Some uniq [of x] by (auto simp: mem)
  qed (use D(1-3) in simp_all)
  then show ?thesis using Some l snd
    by (intro exI [of _ ?p]) (simp add: lru_remove_def lru_tracked_def)
qed

lemma lru_eviction:
  assumes "0 < cap"
  shows "cache_eviction lru_policy lru_tracked (lru_invar cap) cap"
proof (unfold_locales, goal_cases)
  case (1 p)
  then show ?case using lru_invarD(4,5) [OF 1] distinct_card [of "map snd (object_list p)"]
    by (simp add: lru_tracked_def)
qed (use assms lru_admits lru_remove_ok in
      \<open>simp_all add: lru_policy_def lru_get_def lru_put_def lru_prefetch_def\<close>)

section \<open>The contracts on both policies\<close>

interpretation lra: cache_tracking lra_policy object_set "lra_invar (Suc n)" "Suc n" for n
  by (rule lra_tracking) simp

interpretation lru: cache_eviction lru_policy lru_tracked "lru_invar (Suc n)" "Suc n" for n
  by (rule lru_eviction) simp

section \<open>What the least recently used policy keeps\<close>

text \<open>A sequence of calls, with the ids named for eviction.\<close>

fun lru_gets :: "ObjectID list \<Rightarrow> lru \<Rightarrow> (ObjectID list, lru) outcome" where
  "lru_gets [] p = Ok [] p"
| "lru_gets (x # xs) p =
     bindO (lru_get x p) (\<lambda>vs q. bindO (lru_gets xs q) (\<lambda>ws r. Ok (vs @ ws) r))"

lemma lru_gets_snoc:
  "lru_gets (xs @ [x]) p =
     bindO (lru_gets xs p) (\<lambda>vs q. bindO (lru_get x q) (\<lambda>ws r. Ok (vs @ ws) r))"
  by (induction xs arbitrary: p) (simp_all add: bindO_def split: outcome.split)

lemma take_filter_neq:
  "x \<in> set (take n ms) \<Longrightarrow> distinct ms \<Longrightarrow> removeAll x (take n ms) = take (n - 1) (removeAll x ms)"
proof (induction ms arbitrary: n)
  case (Cons m ms)
  then obtain k where n: "n = Suc k" by (cases n) auto
  show ?case
  proof (cases "m = x")
    case True
    then have "x \<notin> set ms" "x \<notin> set (take k ms)" using Cons.prems(2) in_set_takeD by force+
    then show ?thesis using True n by simp
  next
    case False
    then have x: "x \<in> set (take k ms)" using Cons.prems(1) n by simp
    then obtain j where "k = Suc j" by (cases k) auto
    then show ?thesis using Cons.IH [OF x] Cons.prems(2) False n by simp
  qed
qed simp

lemma take_removeAll_notin:
  "x \<notin> set (take (Suc n) ms) \<Longrightarrow> take n (removeAll x ms) = take n ms"
proof (induction ms arbitrary: n)
  case (Cons m ms)
  then show ?case by (cases n) auto
qed simp

lemma rev_remdups_snoc: "rev (remdups (xs @ [x])) = x # removeAll x (rev (remdups xs))"
  by (induction xs) (auto simp: removeAll_append)

text \<open>
  C16. After any sequence of accesses the list of \<^verbatim>\<open>LRUEvictionPolicy\<close> holds the most recently
  used distinct ids, the most recent first, as many as fit, and no access is undefined.
\<close>

theorem lru_keeps_most_recent:
  assumes "0 < n"
  shows "\<exists>vs p. lru_gets oids (LRUEvictionPolicy n) = Ok vs p
     \<and> map snd (object_list p) = take (unat n) (rev (remdups oids)) \<and> lru_invar (unat n) p"
proof (induction oids rule: rev_induct)
  case Nil
  then show ?case using lru_invar_new [of n] by (simp add: LRUEvictionPolicy_def)
next
  case (snoc x xs)
  let ?M = "rev (remdups xs)"
  have n: "0 < unat n" using assms by (simp add: word_less_nat_alt)
  then obtain k where k: "unat n = Suc k" by (cases "unat n") auto
  obtain vs p where p: "lru_gets xs (LRUEvictionPolicy n) = Ok vs p"
      "map snd (object_list p) = take (unat n) ?M" "lru_invar (unat n) p"
    using snoc by (elim exE conjE) (rule that)
  have tr: "lru_tracked p = set (take (unat n) ?M)" unfolding lru_tracked_def p(2) ..
  show ?case
  proof (cases "x \<in> lru_tracked p")
    case True
    obtain p' where p': "lru_process_oid x p = Ok [] p'" "lru_invar (unat n) p'"
        "map snd (object_list p') = x # removeAll x (map snd (object_list p))"
      using lru_process_hit [OF p(3) True] by (elim exE conjE) (rule that)
    have "removeAll x (take (unat n) ?M) = take (unat n - 1) (removeAll x ?M)"
      using True tr by (intro take_filter_neq) simp_all
    then show ?thesis using p p' k unfolding lru_gets_snoc rev_remdups_snoc lru_get_def by simp
  next
    case False
    obtain ws p' where p': "lru_process_oid x p = Ok ws p'" "lru_invar (unat n) p'"
        "map snd (object_list p') = take (unat n) (x # map snd (object_list p))"
      using lru_process_miss [OF p(3) n False] by (elim exE conjE) (rule that)
    have "take k (removeAll x ?M) = take k ?M"
      using False tr k by (intro take_removeAll_notin) simp
    then show ?thesis using p p' k unfolding lru_gets_snoc rev_remdups_snoc lru_get_def
      by (simp add: min_def)
  qed
qed

lemma lru_keeps_most_recent_witness:
  "\<exists>vs p. lru_gets [7, 8, 7, 9] (LRUEvictionPolicy 2) = Ok vs p \<and> map snd (object_list p) = [9, 7]"
  using lru_keeps_most_recent [of 2 "[7, 8, 7, 9]"] by (auto simp del: lru_gets.simps)

end
