(* ===== verification/Cache_Manager.thy ===== *)
theory Cache_Manager
  imports Object_Store Eviction_Policy
begin

text \<open>
  The client-side cache of \<^verbatim>\<open>src/src/cache_manager/CacheManager.h\<close> with its prefetch
  policies, over an object store and an eviction policy that are given by their virtual
  functions. The theorems relate a cache to the map a client expects: coherence of every
  sequence of operations, the capacity, and the calls that break them.
\<close>

section \<open>State\<close>

definition HIGH_PEND :: nat where
  "HIGH_PEND = 50"

datatype PrefetchMode = kNone | kOrdered | kCustom | kOtherMode int

text \<open>\<open>future\<close> is \<open>None\<close> for a default constructed future, which has no state to wait on.\<close>

record ('t, 'g) cache_entry =
  cached :: bool
  dirty :: bool
  obj :: 't
  future :: "'g option"

record ordered_policy =
  read_ahead :: u64
  op_first :: ObjectID
  op_last :: ObjectID

text \<open>What \<^verbatim>\<open>prefetch_policy\<close> points to; a custom policy carries its state.\<close>

datatype 'c prefetch_ptr = OffPolicy | OrderedPolicy | CustomPolicy 'c

record ('s, 't, 'g, 'p, 'e, 'c) cache_manager =
  store :: 's
  cache :: "(ObjectID \<times> ('t, 'g) cache_entry) list"
  pending_writes :: "(ObjectID \<times> 'p) list"
  cm_max_size :: u64
  evp :: 'e
  prefetch_policy :: "'c prefetch_ptr"
  ordered_policy :: ordered_policy
  defer_writes :: bool

text \<open>
  The code the cache is given: the store, the eviction policy, the \<^verbatim>\<open>get\<close> of a custom
  prefetch policy, and the object a default constructed entry holds.
\<close>

record ('s, 't, 'g, 'p, 'e, 'c) cache_env =
  ce_os :: "('s, 't, 'g, 'p) ostore"
  ce_ep :: "'e eviction_policy"
  ce_custom :: "ObjectID \<Rightarrow> 't \<Rightarrow> 'c \<Rightarrow> (ObjectID list, 'c) outcome"
  ce_default :: 't

text \<open>A default constructed \<^verbatim>\<open>cache_entry\<close>.\<close>

definition cache_entry_new :: "'t \<Rightarrow> ('t, 'g) cache_entry" where
  "cache_entry_new d = \<lparr>cached = True, dirty = False, obj = d, future = None\<rparr>"

text \<open>The range of a default constructed ordered policy is whatever the memory held.\<close>

definition CacheManager ::
  "'s \<Rightarrow> 'e \<Rightarrow> u64 \<Rightarrow> bool \<Rightarrow> ObjectID \<Rightarrow> ObjectID \<Rightarrow> exn + ('s, 't, 'g, 'p, 'e, 'c) cache_manager" where
  "CacheManager st eviction_policy cache_size defer first0 last0 =
     (if cache_size < 1 then Inl (CacheCapacityException ''Cache capacity must be at least one.'')
      else Inr \<lparr>store = st, cache = [], pending_writes = [], cm_max_size = cache_size,
                evp = eviction_policy, prefetch_policy = OffPolicy,
                ordered_policy = \<lparr>read_ahead = 5, op_first = first0, op_last = last0\<rparr>,
                defer_writes = defer\<rparr>)"

text \<open>Calls on the store and on the policy.\<close>

definition on_store ::
  "('s \<Rightarrow> ('a, 's) call) \<Rightarrow> ('s, 't, 'g, 'p, 'e, 'c) cache_manager
    \<Rightarrow> ('a, ('s, 't, 'g, 'p, 'e, 'c) cache_manager) call" where
  "on_store f s = liftW (\<lambda>st. s\<lparr>store := st\<rparr>) (f (store s))"

definition on_policy ::
  "('e \<Rightarrow> ('a, 'e) outcome) \<Rightarrow> ('s, 't, 'g, 'p, 'e, 'c) cache_manager
    \<Rightarrow> ('a, ('s, 't, 'g, 'p, 'e, 'c) cache_manager) call" where
  "on_policy f s = Some (liftO (\<lambda>e. s\<lparr>evp := e\<rparr>) (f (evp s)))"

section \<open>Prefetch policies\<close>

text \<open>
  The loop of \<^verbatim>\<open>OrderedPolicy::get\<close> from \<open>i\<close> on, \<open>k\<close> iterations left.
\<close>

fun ordered_loop :: "ordered_policy \<Rightarrow> ObjectID \<Rightarrow> u64 \<Rightarrow> nat \<Rightarrow> ObjectID list" where
  "ordered_loop op id' i 0 = []"
| "ordered_loop op id' i (Suc k) =
     (let tentative_fetch = id' + i;
          shifted = tentative_fetch - op_first op;
          modded = shifted mod (op_last op - op_first op + 1);
          to_prefetch = modded + op_first op
      in if to_prefetch = id' then [] else to_prefetch # ordered_loop op id' (i + 1) k)"

text \<open>
  \<^verbatim>\<open>reserve\<close> refuses more than \<open>2 ^ 60 - 1\<close> elements of eight bytes; the remainder by the
  size of the full range of ids, which is 0 in 64 bits, is undefined.
\<close>

definition ordered_get :: "ordered_policy \<Rightarrow> ObjectID \<Rightarrow> 's \<Rightarrow> (ObjectID list, 's) outcome" where
  "ordered_get op id' s =
     (if id' < op_first op \<or> id' > op_last op
      then Throw (Exception ''Attempting to get id outside of continuous range present at time of prefetch  mode specification.'') s
      else if read_ahead op > 2 ^ 60 - 1 then Throw (length_error ''vector::reserve'') s
      else if 0 < read_ahead op \<and> op_last op - op_first op + 1 = 0 then Undef
      else Ok (ordered_loop op id' 1 (unat (read_ahead op))) s)"

definition setRange :: "ObjectID \<Rightarrow> ObjectID \<Rightarrow> ordered_policy \<Rightarrow> ordered_policy" where
  "setRange first' last' op = op\<lparr>op_first := first', op_last := last'\<rparr>"

definition setReadAhead :: "u64 \<Rightarrow> ordered_policy \<Rightarrow> ordered_policy" where
  "setReadAhead n op = op\<lparr>read_ahead := n\<rparr>"

text \<open>\<^verbatim>\<open>prefetch_policy->get(oid, entry->obj)\<close>\<close>

definition policy_get ::
  "('s, 't, 'g, 'p, 'e, 'c) cache_env \<Rightarrow> ObjectID \<Rightarrow> 't \<Rightarrow> ('s, 't, 'g, 'p, 'e, 'c) cache_manager
    \<Rightarrow> (ObjectID list, ('s, 't, 'g, 'p, 'e, 'c) cache_manager) call" where
  "policy_get env oid v s =
     (case prefetch_policy s of
        OffPolicy \<Rightarrow> Some (Ok [] s)
      | OrderedPolicy \<Rightarrow> Some (ordered_get (ordered_policy s) oid s)
      | CustomPolicy c \<Rightarrow>
          Some (liftO (\<lambda>c'. s\<lparr>prefetch_policy := CustomPolicy c'\<rparr>) (ce_custom env oid v c)))"

section \<open>Eviction\<close>

text \<open>
  The loop that cleans \<^verbatim>\<open>pending_writes\<close>, over the entries not yet visited, in the order of
  the list (the order of a hash table is not specified). After an erase the iterator already
  points to the next entry, and the loop moves it once more: that entry is skipped, and
  after an erase of the last one the iterator is moved past the end.
\<close>

fun clean_pending ::
  "('s, 't, 'g, 'p) ostore \<Rightarrow> (ObjectID \<times> 'p) list \<Rightarrow> 's \<Rightarrow> ((ObjectID \<times> 'p) list, 's) call" where
  "clean_pending os [] st = Some (Ok [] st)"
| "clean_pending os [x] st =
     bindW (putf_try_wait os (snd x) st) (\<lambda>b st1. if b then Some Undef else Some (Ok [x] st1))"
| "clean_pending os (x # y # ws) st =
     bindW (putf_try_wait os (snd x) st) (\<lambda>b st1.
       if b then bindW (clean_pending os ws st1) (\<lambda>rest st2. Some (Ok (y # rest) st2))
       else bindW (clean_pending os (y # ws) st1) (\<lambda>rest st2. Some (Ok (x # rest) st2)))"

definition write_back ::
  "('s, 't, 'g, 'p, 'e, 'c) cache_env \<Rightarrow> ObjectID \<Rightarrow> ('t, 'g) cache_entry
    \<Rightarrow> ('s, 't, 'g, 'p, 'e, 'c) cache_manager \<Rightarrow> (unit, ('s, 't, 'g, 'p, 'e, 'c) cache_manager) call" where
  "write_back env oid entry s =
     (if dirty entry
      then bindW (on_store (os_put_async (ce_os env) oid (obj entry)) s)
             (\<lambda>f s1. Some (Ok () (s1\<lparr>pending_writes := AList.update oid f (pending_writes s1)\<rparr>)))
      else Some (Ok () s))"

definition clean ::
  "('s, 't, 'g, 'p, 'e, 'c) cache_env \<Rightarrow> ('s, 't, 'g, 'p, 'e, 'c) cache_manager
    \<Rightarrow> (unit, ('s, 't, 'g, 'p, 'e, 'c) cache_manager) call" where
  "clean env s =
     (if length (pending_writes s) > HIGH_PEND
      then bindW (on_store (clean_pending (ce_os env) (pending_writes s)) s)
             (\<lambda>ws s1. Some (Ok () (s1\<lparr>pending_writes := ws\<rparr>)))
      else Some (Ok () s))"

definition evict ::
  "('s, 't, 'g, 'p, 'e, 'c) cache_env \<Rightarrow> ObjectID \<Rightarrow> ('s, 't, 'g, 'p, 'e, 'c) cache_manager
    \<Rightarrow> (unit, ('s, 't, 'g, 'p, 'e, 'c) cache_manager) call" where
  "evict env oid s =
     (case map_of (cache s) oid of
        None \<Rightarrow> Some (Throw (Exception ''Attempted to remove item not in cache.'') s)
      | Some entry \<Rightarrow>
          bindW (if defer_writes s then bindW (write_back env oid entry s) (\<lambda>_. clean env)
                 else Some (Ok () s))
            (\<lambda>_ s1. Some (Ok () (s1\<lparr>cache := AList.delete oid (cache s1)\<rparr>))))"

fun evict_vector ::
  "('s, 't, 'g, 'p, 'e, 'c) cache_env \<Rightarrow> ObjectID list \<Rightarrow> ('s, 't, 'g, 'p, 'e, 'c) cache_manager
    \<Rightarrow> (unit, ('s, 't, 'g, 'p, 'e, 'c) cache_manager) call" where
  "evict_vector env [] s = Some (Ok () s)"
| "evict_vector env (oid # oids) s = bindW (evict env oid s) (\<lambda>_. evict_vector env oids)"

section \<open>Prefetch\<close>

text \<open>The two halves of \<^verbatim>\<open>prefetch\<close>: make room, then start the read.\<close>

definition prefetch_evict ::
  "('s, 't, 'g, 'p, 'e, 'c) cache_env \<Rightarrow> ObjectID \<Rightarrow> ('s, 't, 'g, 'p, 'e, 'c) cache_manager
    \<Rightarrow> (unit, ('s, 't, 'g, 'p, 'e, 'c) cache_manager) call" where
  "prefetch_evict env oid s =
     bindW (on_policy (ep_prefetch (ce_ep env) oid) s) (evict_vector env)"

definition prefetch_fetch ::
  "('s, 't, 'g, 'p, 'e, 'c) cache_env \<Rightarrow> ObjectID \<Rightarrow> ('s, 't, 'g, 'p, 'e, 'c) cache_manager
    \<Rightarrow> (unit, ('s, 't, 'g, 'p, 'e, 'c) cache_manager) call" where
  "prefetch_fetch env oid s =
     (if map_of (cache s) oid = None then
        let e = (cache_entry_new (ce_default env))\<lparr>cached := False\<rparr>;
            s1 = s\<lparr>cache := AList.update oid e (cache s)\<rparr>
        in bindW (on_store (os_get_async (ce_os env) oid) s1)
             (\<lambda>g s2. Some (Ok () (s2\<lparr>cache := AList.update oid (e\<lparr>future := Some g\<rparr>) (cache s2)\<rparr>)))
      else Some (Ok () s))"

definition prefetch ::
  "('s, 't, 'g, 'p, 'e, 'c) cache_env \<Rightarrow> ObjectID \<Rightarrow> ('s, 't, 'g, 'p, 'e, 'c) cache_manager
    \<Rightarrow> (unit, ('s, 't, 'g, 'p, 'e, 'c) cache_manager) call" where
  "prefetch env oid s = bindW (prefetch_evict env oid s) (\<lambda>_. prefetch_fetch env oid)"

text \<open>
  The loop of \<^verbatim>\<open>get\<close> over the ids to prefetch. It tells whether the entry of \<open>oid\<close> that
  \<^verbatim>\<open>get\<close> still points to has survived: an eviction destroys it.
\<close>

fun prefetch_all ::
  "('s, 't, 'g, 'p, 'e, 'c) cache_env \<Rightarrow> ObjectID \<Rightarrow> ObjectID list \<Rightarrow> ('s, 't, 'g, 'p, 'e, 'c) cache_manager
    \<Rightarrow> (bool, ('s, 't, 'g, 'p, 'e, 'c) cache_manager) call" where
  "prefetch_all env oid [] s = Some (Ok True s)"
| "prefetch_all env oid (i # ids) s =
     bindW (prefetch_evict env i s) (\<lambda>_ s1.
     bindW (prefetch_fetch env i s1) (\<lambda>_ s2.
     bindW (prefetch_all env oid ids s2) (\<lambda>alive s3.
       Some (Ok (alive \<and> map_of (cache s1) oid \<noteq> None) s3))))"

section \<open>Get, put and remove\<close>

definition await_write ::
  "('s, 't, 'g, 'p, 'e, 'c) cache_env \<Rightarrow> ObjectID \<Rightarrow> ('s, 't, 'g, 'p, 'e, 'c) cache_manager
    \<Rightarrow> (unit, ('s, 't, 'g, 'p, 'e, 'c) cache_manager) call" where
  "await_write env oid s =
     (if defer_writes s then
        (case map_of (pending_writes s) oid of
           None \<Rightarrow> Some (Ok () s)
         | Some f \<Rightarrow>
             bindW (on_store (putf_wait (ce_os env) f) s)
               (\<lambda>_ s1. Some (Ok () (s1\<lparr>pending_writes := AList.delete oid (pending_writes s1)\<rparr>))))
      else Some (Ok () s))"

definition set_entry ::
  "ObjectID \<Rightarrow> ('t, 'g) cache_entry \<Rightarrow> ('s, 't, 'g, 'p, 'e, 'c) cache_manager
    \<Rightarrow> ('s, 't, 'g, 'p, 'e, 'c) cache_manager" where
  "set_entry oid e s = s\<lparr>cache := AList.update oid e (cache s)\<rparr>"

text \<open>The entry of \<open>oid\<close>, filled; the value is \<^verbatim>\<open>entry->obj\<close>.\<close>

definition lookup_entry ::
  "('s, 't, 'g, 'p, 'e, 'c) cache_env \<Rightarrow> ObjectID \<Rightarrow> ('s, 't, 'g, 'p, 'e, 'c) cache_manager
    \<Rightarrow> ('t, ('s, 't, 'g, 'p, 'e, 'c) cache_manager) call" where
  "lookup_entry env oid s =
     (case map_of (cache s) oid of
        Some e \<Rightarrow>
          if \<not> cached e then
            (case future e of
               None \<Rightarrow> Some Undef
             | Some g \<Rightarrow>
                 bindW (on_store (getf_get (ce_os env) g) s)
                   (\<lambda>v s1. Some (Ok v (set_entry oid (e\<lparr>obj := v, cached := True\<rparr>) s1))))
          else Some (Ok (obj e) s)
      | None \<Rightarrow>
          if length (cache s) = unat (cm_max_size s)
          then Some (Throw (CacheCapacityException ''Get operation would put cache over capacity.'') s)
          else
            let e = cache_entry_new (ce_default env) in
            bindW (on_store (os_get (ce_os env) oid) (set_entry oid e s))
              (\<lambda>v s1. Some (Ok v (set_entry oid (e\<lparr>obj := v\<rparr>) s1))))"

text \<open>The end of \<^verbatim>\<open>get\<close>: prefetch, then return the entry it points to.\<close>

definition get_prefetch ::
  "('s, 't, 'g, 'p, 'e, 'c) cache_env \<Rightarrow> ObjectID \<Rightarrow> 't \<Rightarrow> ('s, 't, 'g, 'p, 'e, 'c) cache_manager
    \<Rightarrow> ('t, ('s, 't, 'g, 'p, 'e, 'c) cache_manager) call" where
  "get_prefetch env oid v s =
     bindW (policy_get env oid v s) (\<lambda>to_prefetch s1.
     bindW (prefetch_all env oid to_prefetch s1) (\<lambda>alive s2.
       if \<not> alive then Some Undef
       else case map_of (cache s2) oid of None \<Rightarrow> Some Undef | Some e \<Rightarrow> Some (Ok (obj e) s2)))"

definition get ::
  "('s, 't, 'g, 'p, 'e, 'c) cache_env \<Rightarrow> ObjectID \<Rightarrow> ('s, 't, 'g, 'p, 'e, 'c) cache_manager
    \<Rightarrow> ('t, ('s, 't, 'g, 'p, 'e, 'c) cache_manager) call" where
  "get env oid s =
     bindW (on_policy (ep_get (ce_ep env) oid) s) (\<lambda>to_remove s1.
     bindW (evict_vector env to_remove s1) (\<lambda>_ s2.
     bindW (await_write env oid s2) (\<lambda>_ s3.
     bindW (lookup_entry env oid s3) (get_prefetch env oid))))"

definition put_entry ::
  "('s, 't, 'g, 'p, 'e, 'c) cache_env \<Rightarrow> ObjectID \<Rightarrow> 't \<Rightarrow> ('s, 't, 'g, 'p, 'e, 'c) cache_manager
    \<Rightarrow> (unit, ('s, 't, 'g, 'p, 'e, 'c) cache_manager) call" where
  "put_entry env oid v s =
     (case map_of (cache s) oid of
        Some e \<Rightarrow> Some (Ok () (set_entry oid (e\<lparr>obj := v, dirty := True\<rparr>) s))
      | None \<Rightarrow>
          if length (cache s) = unat (cm_max_size s)
          then Some (Throw (CacheCapacityException ''Put operation would put cache over capacity.'') s)
          else Some (Ok () (set_entry oid ((cache_entry_new (ce_default env))\<lparr>obj := v, dirty := True\<rparr>) s)))"

definition put ::
  "('s, 't, 'g, 'p, 'e, 'c) cache_env \<Rightarrow> ObjectID \<Rightarrow> 't \<Rightarrow> ('s, 't, 'g, 'p, 'e, 'c) cache_manager
    \<Rightarrow> (unit, ('s, 't, 'g, 'p, 'e, 'c) cache_manager) call" where
  "put env oid v s =
     bindW (on_policy (ep_put (ce_ep env) oid) s) (\<lambda>to_remove s1.
     bindW (evict_vector env to_remove s1) (\<lambda>_ s2.
     bindW (put_entry env oid v s2) (\<lambda>_ s3.
       if \<not> defer_writes s3
       then bindW (on_store (os_put (ce_os env) oid v) s3) (\<lambda>_ s4. Some (Ok () s4))
       else Some (Ok () s3))))"

definition remove ::
  "('s, 't, 'g, 'p, 'e, 'c) cache_env \<Rightarrow> ObjectID \<Rightarrow> ('s, 't, 'g, 'p, 'e, 'c) cache_manager
    \<Rightarrow> (unit, ('s, 't, 'g, 'p, 'e, 'c) cache_manager) call" where
  "remove env oid s =
     bindW (on_store (os_remove (ce_os env) oid) s) (\<lambda>_ s1.
     let s2 = (if map_of (cache s1) oid \<noteq> None then s1\<lparr>cache := AList.delete oid (cache s1)\<rparr> else s1)
     in on_policy (ep_remove (ce_ep env) oid) s2)"

section \<open>Ranges\<close>

fun get_each ::
  "('s, 't, 'g, 'p, 'e, 'c) cache_env \<Rightarrow> ObjectID list \<Rightarrow> ('s, 't, 'g, 'p, 'e, 'c) cache_manager
    \<Rightarrow> ('t list, ('s, 't, 'g, 'p, 'e, 'c) cache_manager) call" where
  "get_each env [] s = Some (Ok [] s)"
| "get_each env (oid # oids) s =
     bindW (get env oid s) (\<lambda>v s1. bindW (get_each env oids s1) (\<lambda>vs s2. Some (Ok (v # vs) s2)))"

text \<open>The value is what is written to \<^verbatim>\<open>data[0]\<close>, \<^verbatim>\<open>data[1]\<close>, ...\<close>

definition get_bulk ::
  "('s, 't, 'g, 'p, 'e, 'c) cache_env \<Rightarrow> ObjectID \<Rightarrow> ObjectID \<Rightarrow> ('s, 't, 'g, 'p, 'e, 'c) cache_manager
    \<Rightarrow> ('t list, ('s, 't, 'g, 'p, 'e, 'c) cache_manager) call" where
  "get_bulk env start last' s =
     (if last' < start
      then Some (Throw (Exception ''Last objectID for get_bulk must be greater than start objectID.'') s)
      else get_each env (object_ids start (num_objects start last')) s)"

text \<open>\<open>data\<close> are the elements of the array; reading past them is undefined.\<close>

fun put_each ::
  "('s, 't, 'g, 'p, 'e, 'c) cache_env \<Rightarrow> ObjectID list \<Rightarrow> 't list \<Rightarrow> ('s, 't, 'g, 'p, 'e, 'c) cache_manager
    \<Rightarrow> (unit, ('s, 't, 'g, 'p, 'e, 'c) cache_manager) call" where
  "put_each env [] data s = Some (Ok () s)"
| "put_each env (oid # oids) [] s = Some Undef"
| "put_each env (oid # oids) (v # vs) s = bindW (put env oid v s) (\<lambda>_. put_each env oids vs)"

definition put_bulk ::
  "('s, 't, 'g, 'p, 'e, 'c) cache_env \<Rightarrow> ObjectID \<Rightarrow> ObjectID \<Rightarrow> 't list
    \<Rightarrow> ('s, 't, 'g, 'p, 'e, 'c) cache_manager \<Rightarrow> (unit, ('s, 't, 'g, 'p, 'e, 'c) cache_manager) call" where
  "put_bulk env start last' data s =
     (if last' < start
      then Some (Throw (Exception ''Last objectID for put_bulk must be greater than start objectID.'') s)
      else put_each env (object_ids start (num_objects start last')) data s)"

text \<open>
  \<^verbatim>\<open>for (unsigned int oid = first; oid <= last; oid++)\<close>: the counter has 32 bits and is
  compared with a bound of 64 bits.
\<close>

partial_function (option) each_oid ::
  "(ObjectID \<Rightarrow> 'm \<Rightarrow> (unit, 'm) call) \<Rightarrow> u32 \<Rightarrow> ObjectID \<Rightarrow> 'm \<Rightarrow> (unit, 'm) call" where
  "each_oid f oid last' s =
     (if (ucast oid :: u64) \<le> last'
      then (case f (ucast oid) s of
              None \<Rightarrow> None
            | Some r \<Rightarrow>
                (case r of
                   Ok _ s' \<Rightarrow> each_oid f (oid + 1) last' s'
                 | Throw e s' \<Rightarrow> Some (Throw e s')
                 | Undef \<Rightarrow> Some Undef))
      else Some (Ok () s))"

definition prefetchBulk ::
  "('s, 't, 'g, 'p, 'e, 'c) cache_env \<Rightarrow> ObjectID \<Rightarrow> ObjectID \<Rightarrow> ('s, 't, 'g, 'p, 'e, 'c) cache_manager
    \<Rightarrow> (unit, ('s, 't, 'g, 'p, 'e, 'c) cache_manager) call" where
  "prefetchBulk env first' last' s =
     (if first' > last' then Some (Throw (Exception ''Last ObjectID to prefetch must be leq first.'') s)
      else each_oid (prefetch env) (ucast first') last' s)"

definition removeBulk ::
  "('s, 't, 'g, 'p, 'e, 'c) cache_env \<Rightarrow> ObjectID \<Rightarrow> ObjectID \<Rightarrow> ('s, 't, 'g, 'p, 'e, 'c) cache_manager
    \<Rightarrow> (unit, ('s, 't, 'g, 'p, 'e, 'c) cache_manager) call" where
  "removeBulk env first' last' s =
     (if first' > last' then Some (Throw (Exception ''Last ObjectID to remove must be leq first.'') s)
      else each_oid (remove env) (ucast first') last' s)"

section \<open>Prefetch modes\<close>

text \<open>\<open>policy\<close> is \<open>None\<close> for a null pointer.\<close>

definition setMode ::
  "PrefetchMode \<Rightarrow> 'c option \<Rightarrow> ('s, 't, 'g, 'p, 'e, 'c) cache_manager
    \<Rightarrow> (unit, ('s, 't, 'g, 'p, 'e, 'c) cache_manager) outcome" where
  "setMode mode policy s =
     (case mode of
        kNone \<Rightarrow> Ok () (s\<lparr>prefetch_policy := OffPolicy\<rparr>)
      | kOrdered \<Rightarrow> Throw (Exception ''Ordered prefetching specified without a range and read ahead.'') s
      | kCustom \<Rightarrow>
          (case policy of
             None \<Rightarrow> Throw (Exception ''Custom mode specified without a policy.'') s
           | Some c \<Rightarrow> Ok () (s\<lparr>prefetch_policy := CustomPolicy c\<rparr>))
      | kOtherMode _ \<Rightarrow> Throw (Exception ''Unrecognized prefetch mode during setMode().'') s)"

definition setMode_ordered ::
  "PrefetchMode \<Rightarrow> ObjectID \<Rightarrow> ObjectID \<Rightarrow> u64 \<Rightarrow> ('s, 't, 'g, 'p, 'e, 'c) cache_manager
    \<Rightarrow> (unit, ('s, 't, 'g, 'p, 'e, 'c) cache_manager) outcome" where
  "setMode_ordered mode first' last' n s =
     (case mode of
        kOrdered \<Rightarrow>
          if first' > last' then Throw (Exception ''Last oid must be >= first'') s
          else Ok () (s\<lparr>ordered_policy := setReadAhead n (setRange first' last' (ordered_policy s)),
                        prefetch_policy := OrderedPolicy\<rparr>)
      | _ \<Rightarrow> Throw (Exception ''First/last/read_ahead arguments passed for nonordered policy.'') s)"

section \<open>What the ordered policy prefetches\<close>

lemma unat_word_of_mod:
  "0 < N \<Longrightarrow> N < 2 ^ 64 \<Longrightarrow> unat (word_of_nat (m mod N) :: u64) = m mod N"
  using less_trans [OF mod_less_divisor [of N m]] by (simp add: unat_of_nat)

lemma unat_step:
  fixes f id' :: ObjectID
  assumes "N = Suc (unat (l - f))" "k = unat (id' - f)" "k < N" "k + i < 2 ^ 64" "N < 2 ^ 64"
  shows "(id' + word_of_nat i - f) mod (l - f + 1) + f = f + word_of_nat ((k + i) mod N)"
proof -
  have "unat (l - f + 1) = N"
    using assms(1,5) by (simp add: unat_word_ariths)
  moreover have "unat (id' + word_of_nat i - f) = k + i"
  proof -
    have "id' + word_of_nat i - f = (id' - f) + word_of_nat i" by simp
    then have "unat (id' + word_of_nat i - f) = (k + i mod 2 ^ 64) mod 2 ^ 64"
      unfolding assms(2) by (simp only: unat_word_ariths(1) unat_of_nat) simp
    then show ?thesis using assms(4) by simp
  qed
  ultimately have "(id' + word_of_nat i - f) mod (l - f + 1) = word_of_nat ((k + i) mod N)"
    using unat_word_of_mod [of N "k + i"] assms(1,5) by (simp add: word_unat_eq_iff unat_mod)
  then show ?thesis by (simp add: add.commute)
qed

lemma add_in_range:
  fixes f l w :: u64
  assumes "f \<le> l" "unat w \<le> unat (l - f)"
  shows "f + w \<in> {f..l}"
proof -
  have "unat f + unat w \<le> unat l" using assms by (simp add: unat_sub word_le_nat_alt)
  moreover from this have "unat (f + w) = unat f + unat w"
    using unsigned_less [of l, where 'a = nat] by (intro unat_add_lem [THEN iffD1]) simp
  ultimately show ?thesis by (simp add: word_le_nat_alt)
qed

lemma cyclic_eq_iff:
  fixes f id' :: ObjectID
  assumes "k = unat (id' - f)" "k < N" "N < 2 ^ 64" "0 < i" "i \<le> N"
  shows "f + word_of_nat ((k + i) mod N) = id' \<longleftrightarrow> i = N"
proof -
  have "f + word_of_nat ((k + i) mod N) = id' \<longleftrightarrow> (word_of_nat ((k + i) mod N) :: u64) = id' - f"
    by (auto simp: algebra_simps)
  also have "\<dots> \<longleftrightarrow> (k + i) mod N = k"
    using unat_word_of_mod [of N "k + i"] assms(1-3) by (simp add: word_unat_eq_iff)
  also have "\<dots> \<longleftrightarrow> i = N"
  proof
    assume e: "(k + i) mod N = k"
    show "i = N"
    proof (cases "k + i < N")
      case True
      then show ?thesis using e assms(4) by simp
    next
      case False
      then have "(k + i) mod N = (k + i - N) mod N" by (simp add: mod_if)
      then show ?thesis using e assms(2,5) False by simp
    qed
  qed (use assms(2) in simp)
  finally show ?thesis .
qed

lemma ordered_loop_eq:
  assumes "N = Suc (unat (op_last op - op_first op))" "k = unat (id' - op_first op)" "k < N"
    and "N < 2 ^ 64" and "0 < i" "i \<le> N" "k + i + m < 2 ^ 64"
  shows "ordered_loop op id' (word_of_nat i) m =
    map (\<lambda>j. op_first op + word_of_nat ((k + j) mod N)) [i..<min (i + m) N]"
  using assms(5-7)
proof (induction m arbitrary: i)
  case (Suc m)
  have s: "(id' + word_of_nat i - op_first op) mod (op_last op - op_first op + 1) + op_first op =
      op_first op + word_of_nat ((k + i) mod N)"
    using Suc.prems(3) by (intro unat_step [OF assms(1-3) _ assms(4)]) simp
  have e: "op_first op + word_of_nat ((k + i) mod N) = id' \<longleftrightarrow> i = N"
    using cyclic_eq_iff [OF assms(2,3,4) Suc.prems(1,2)] .
  show ?case
  proof (cases "i = N")
    case True
    then show ?thesis using e unfolding ordered_loop.simps Let_def s by simp
  next
    case False
    have "ordered_loop op id' (word_of_nat i) (Suc m) =
        (op_first op + word_of_nat ((k + i) mod N)) # ordered_loop op id' (word_of_nat (Suc i)) m"
      unfolding ordered_loop.simps Let_def s using e False by (simp add: add.commute)
    moreover have "ordered_loop op id' (word_of_nat (Suc i)) m =
        map (\<lambda>j. op_first op + word_of_nat ((k + j) mod N)) [Suc i..<min (Suc i + m) N]"
      using Suc.prems False by (intro Suc.IH) simp_all
    moreover have "[i..<min (i + Suc m) N] = i # [Suc i..<min (Suc i + m) N]"
      using False Suc.prems(2) by (subst upt_conv_Cons) simp_all
    ultimately show ?thesis by simp
  qed
qed simp

lemma ordered_get_list:
  assumes "op_first op \<le> id'" "id' \<le> op_last op" "read_ahead op \<le> 2 ^ 60 - 1"
    and "N = Suc (unat (op_last op - op_first op))" "N + unat (read_ahead op) < 2 ^ 64"
  shows "\<exists>ids. ordered_get op id' s = Ok ids s
     \<and> ids = map (\<lambda>j. op_first op + word_of_nat ((unat (id' - op_first op) + j) mod N))
                 [1..<min (Suc (unat (read_ahead op))) N]
     \<and> distinct ids \<and> set ids \<subseteq> {op_first op..op_last op} - {id'}"
proof -
  let ?k = "unat (id' - op_first op)" and ?r = "unat (read_ahead op)"
  let ?g = "\<lambda>j. op_first op + (word_of_nat ((?k + j) mod N) :: u64)"
  have k: "?k < N" using assms(1,2,4) by (simp add: unat_sub word_le_nat_alt less_Suc_eq_le diff_le_mono)
  have N: "N < 2 ^ 64" "0 < N" using assms(4,5) by simp_all
  have le: "ordered_get op id' s = Ok (ordered_loop op id' 1 ?r) s"
  proof -
    have "unat (op_last op - op_first op + 1) = N" using assms(4) N by (simp add: unat_word_ariths)
    then have "op_last op - op_first op + 1 \<noteq> 0" using N(2) by auto
    then show ?thesis using assms(1-3) by (simp add: ordered_get_def not_less)
  qed
  have eq: "ordered_loop op id' 1 ?r = map ?g [1..<min (Suc ?r) N]"
    using ordered_loop_eq [OF assms(4) refl k N(1), of 1 ?r] k N assms(5) by simp
  have inj: "i = j" if "?g i = ?g j" "i < N" "j < N" for i j
  proof -
    have "(word_of_nat ((?k + i) mod N) :: u64) = word_of_nat ((?k + j) mod N)"
      using that(1) by (rule add_left_imp_eq)
    then have "(?k + i) mod N = (?k + j) mod N"
      using unat_word_of_mod [OF N(2,1)] by metis
    moreover have "(?k + x) mod N = (if ?k + x < N then ?k + x else ?k + x - N)" if "x < N" for x
      using k that by (simp add: mod_if)
    ultimately show ?thesis using that(2,3) k by (auto split: if_splits)
  qed
  have "inj_on ?g {1..<min (Suc ?r) N}" using inj by (auto simp: inj_on_def)
  then have "distinct (map ?g [1..<min (Suc ?r) N])" by (simp add: distinct_map)
  moreover have "?g j \<in> {op_first op..op_last op} - {id'}" if "j \<in> {1..<min (Suc ?r) N}" for j
  proof -
    have "?g j \<noteq> id'" using cyclic_eq_iff [OF refl k N(1), of j] that by simp
    moreover have "unat (word_of_nat ((?k + j) mod N) :: u64) \<le> unat (op_last op - op_first op)"
      using unat_word_of_mod [OF N(2,1), of "?k + j"] mod_less_divisor [OF N(2), of "?k + j"] assms(4) by simp
    moreover have "op_first op \<le> op_last op" using assms(1,2) by simp
    ultimately show ?thesis using add_in_range by blast
  qed
  ultimately show ?thesis using le eq by (auto simp: image_subset_iff)
qed

text \<open>
  C17. For an id of its range the ordered policy names the next \<^verbatim>\<open>read_ahead\<close> ids, going around
  at the end of the range and stopping before it comes back to the id itself: all of them are
  in the range, none is named twice.
\<close>

theorem ordered_get_ids:
  assumes "op_first op \<le> id'" "id' \<le> op_last op" "read_ahead op \<le> 2 ^ 60 - 1"
    and "N = Suc (unat (op_last op - op_first op))" "N + unat (read_ahead op) < 2 ^ 64"
  shows "\<exists>ids. ordered_get op id' s = Ok ids s
     \<and> ids = map (\<lambda>j. op_first op + word_of_nat ((unat (id' - op_first op) + j) mod N))
                 [1..<min (Suc (unat (read_ahead op))) N]
     \<and> distinct ids \<and> set ids \<subseteq> {op_first op..op_last op} - {id'}"
  using ordered_get_list [OF assms] .

lemma ordered_get_ids_witness:
  "\<exists>ids. ordered_get \<lparr>read_ahead = 2, op_first = 10, op_last = 13\<rparr> 12 () = Ok ids () \<and> length ids = 2
     \<and> distinct ids \<and> set ids \<subseteq> {10..13} - {12}"
proof -
  let ?op = "\<lparr>read_ahead = 2, op_first = 10, op_last = 13\<rparr> :: ordered_policy"
  have "op_first ?op \<le> 12" "12 \<le> op_last ?op" "read_ahead ?op \<le> 2 ^ 60 - 1"
      "4 = Suc (unat (op_last ?op - op_first ?op))" "4 + unat (read_ahead ?op) < 2 ^ 64"
    by simp_all
  from ordered_get_ids [OF this, of "()"] obtain ids where "ordered_get ?op 12 () = Ok ids ()"
      "ids = map (\<lambda>j. op_first ?op + word_of_nat ((unat (12 - op_first ?op) + j) mod 4))
         [1..<min (Suc (unat (read_ahead ?op))) 4]"
      "distinct ids" "set ids \<subseteq> {op_first ?op..op_last ?op} - {12}"
    by (elim exE conjE) (rule that)
  moreover from this(2) have "length ids = 2" by (simp only: length_map length_upt) simp
  ultimately show ?thesis by (simp only: ordered_policy.simps) blast
qed

text \<open>
  Prefetching over the whole range of ids is accepted by \<^verbatim>\<open>setMode\<close>, but the first
  lookup divides by the size of the range, which is 0 in 64 bits.
\<close>

lemma ordered_full_range_undefined:
  assumes "0 < n" "n \<le> 2 ^ 60 - 1"
  shows "\<exists>s'. setMode_ordered kOrdered 0 (- 1) n s = Ok () s' \<and> policy_get env oid v s' = Some Undef"
  using assms
  by (simp add: setMode_ordered_def policy_get_def ordered_get_def setRange_def setReadAhead_def not_less)

section \<open>Loops over ranges of ids\<close>

fun each_call :: "(ObjectID \<Rightarrow> 'm \<Rightarrow> (unit, 'm) call) \<Rightarrow> ObjectID list \<Rightarrow> 'm \<Rightarrow> (unit, 'm) call" where
  "each_call f [] s = Some (Ok () s)"
| "each_call f (x # xs) s = bindW (f x s) (\<lambda>_. each_call f xs)"

lemma each_oid_unfold:
  "each_oid f oid last' s =
     (if (ucast oid :: u64) \<le> last' then bindW (f (ucast oid) s) (\<lambda>_. each_oid f (oid + 1) last')
      else Some (Ok () s))"
  by (subst each_oid.simps) (simp add: bindW_def split: option.split outcome.split)

lemma unat_widen: "i < 2 ^ 32 \<Longrightarrow> unat (ucast (word_of_nat i :: u32) :: u64) = i"
  by (simp add: unsigned_ucast_eq unat_of_nat take_bit_eq_mod)

lemma each_oid_calls:
  assumes "unat last' < 2 ^ 32 - 1" "i \<le> Suc (unat last')"
  shows "each_oid f (word_of_nat i) last' s = each_call f (map word_of_nat [i..<Suc (unat last')]) s"
  using assms(2)
proof (induction "Suc (unat last') - i" arbitrary: i s)
  case 0
  then have i: "i = Suc (unat last')" by simp
  then have "unat (ucast (word_of_nat i :: u32) :: u64) = Suc (unat last')"
    using assms(1) unat_widen [of i] by simp
  then have "\<not> (ucast (word_of_nat i :: u32) :: u64) \<le> last'" by (simp add: word_le_nat_alt)
  then show ?case using i by (subst each_oid_unfold) simp
next
  case (Suc d)
  then have i: "i \<le> unat last'" by simp
  then have un: "unat (ucast (word_of_nat i :: u32) :: u64) = i"
    using assms(1) unat_widen [of i] by simp
  then have w: "(ucast (word_of_nat i :: u32) :: u64) = word_of_nat i"
    by (metis of_nat_unat ucast_id)
  have "each_oid f (word_of_nat i + 1) last' = each_call f (map word_of_nat [Suc i..<Suc (unat last')])"
  proof
    fix s
    have "d = Suc (unat last') - Suc i" "Suc i \<le> Suc (unat last')" using Suc.hyps(2) i by simp_all
    from Suc.hyps(1) [OF this] show "each_oid f (word_of_nat i + 1) last' s =
        each_call f (map word_of_nat [Suc i..<Suc (unat last')]) s"
      by (simp only: of_nat_Suc add.commute)
  qed
  moreover have "(ucast (word_of_nat i :: u32) :: u64) \<le> last'" using un i by (simp add: word_le_nat_alt)
  moreover have "[i..<Suc (unat last')] = i # [Suc i..<Suc (unat last')]" using i by (simp add: upt_conv_Cons)
  ultimately show ?case using w by (subst each_oid_unfold) simp
qed

text \<open>
  C24. Below \<open>2 ^ 32 - 1\<close> the bulk operations of the cache are the sequence of the single
  operations on the ids from \<^verbatim>\<open>first\<close> to \<^verbatim>\<open>last\<close>, so they return whenever those do.
\<close>

theorem bulk_visits_range:
  assumes "first' \<le> last'" "unat last' < 2 ^ 32 - 1"
  shows "prefetchBulk env first' last' s =
           each_call (prefetch env) (map word_of_nat [unat first'..<Suc (unat last')]) s
       \<and> removeBulk env first' last' s =
           each_call (remove env) (map word_of_nat [unat first'..<Suc (unat last')]) s"
proof -
  have u: "(ucast first' :: u32) = word_of_nat (unat first')" by simp
  have i: "unat first' \<le> Suc (unat last')" using assms(1) by (simp add: word_le_nat_alt)
  have "\<not> last' < first'" using assms(1) by simp
  then show ?thesis
    unfolding prefetchBulk_def removeBulk_def u each_oid_calls [OF assms(2) i] by (simp only: if_False)
qed

lemma each_oid_endless:
  assumes "2 ^ 32 - 1 \<le> last'"
  shows "each_oid f oid last' s \<noteq> Some (Ok () s')"
proof -
  have "\<forall>s'. r \<noteq> Ok () s'" if "each_oid f oid last' s = Some r" for r
  proof -
    have "2 ^ 32 - 1 \<le> last' \<longrightarrow> (\<forall>s'. r \<noteq> Ok () s')"
    proof (rule each_oid.raw_induct [where P = "\<lambda>f oid last' s r.
          2 ^ 32 - 1 \<le> last' \<longrightarrow> (\<forall>s'. r \<noteq> Ok () s')", OF _ that])
      fix rec :: "(ObjectID \<Rightarrow> 'a \<Rightarrow> (unit, 'a) call) \<Rightarrow> u32 \<Rightarrow> ObjectID \<Rightarrow> 'a \<Rightarrow> (unit, 'a) call"
        and f oid last' s r
      assume ih: "\<And>f oid last' s r. rec f oid last' s = Some r \<Longrightarrow>
          2 ^ 32 - 1 \<le> last' \<longrightarrow> (\<forall>s'. r \<noteq> Ok () s')"
        and body: "(if (ucast oid :: u64) \<le> last'
          then case f (ucast oid) s of None \<Rightarrow> None
            | Some (Ok _ s') \<Rightarrow> rec f (oid + 1) last' s'
            | Some (Throw e s') \<Rightarrow> Some (Throw e s')
            | Some Undef \<Rightarrow> Some Undef
          else Some (Ok () s)) = Some r"
      show "2 ^ 32 - 1 \<le> last' \<longrightarrow> (\<forall>s'. r \<noteq> Ok () s')"
      proof
        assume l: "2 ^ 32 - 1 \<le> last'"
        have "unat (ucast oid :: u64) \<le> 2 ^ 32 - 1"
          using unsigned_less [of oid, where 'a = nat] by (simp add: unsigned_ucast_eq take_bit_eq_mod)
        then have "(ucast oid :: u64) \<le> last'" using l by (simp add: word_le_nat_alt)
        with body l ih show "\<forall>s'. r \<noteq> Ok () s'" by (auto split: option.splits outcome.splits)
      qed
    qed
    then show ?thesis using assms by blast
  qed
  then show ?thesis by blast
qed

text \<open>
  C37. From \<open>2 ^ 32 - 1\<close> on the counter of the loop, an \<^verbatim>\<open>unsigned int\<close>, wraps around before it
  passes the bound: the bulk operations of the cache never return normally, whatever the
  store and the policies do.
\<close>

theorem bulk_never_returns:
  assumes "2 ^ 32 - 1 \<le> last'"
  shows "prefetchBulk env first' last' s \<noteq> Some (Ok () s') \<and> removeBulk env first' last' s \<noteq> Some (Ok () s')"
  using each_oid_endless [OF assms, of "prefetch env" "ucast first'" s s']
    each_oid_endless [OF assms, of "remove env" "ucast first'" s s']
  by (simp add: prefetchBulk_def removeBulk_def)

section \<open>Cleaning the pending writes\<close>

text \<open>A future on which \<^verbatim>\<open>try_wait\<close> succeeds: completed, or never waited on.\<close>

definition try_wait_succeeds :: "'b session \<Rightarrow> nat \<Rightarrow> bool" where
  "try_wait_succeeds s f \<longleftrightarrow> result_available (future_at f s) \<or> \<not> sem (future_at f s)"

lemma fb_try_wait_succeeds:
  assumes "try_wait_succeeds s f"
  shows "\<exists>l. fb_try_wait fb f s = Some (Ok True (set_sem l f s))"
  using assms
  by (auto simp: fb_try_wait_def future_try_wait_def spin_trywait_def test_and_set_def try_wait_succeeds_def
      split: prod.split)

lemma try_wait_succeeds_other:
  "g \<noteq> f \<Longrightarrow> try_wait_succeeds (set_sem l f s) g \<longleftrightarrow> try_wait_succeeds s g"
  by (simp add: try_wait_succeeds_def future_at_def set_sem_def)

text \<open>
  C35. The loop that cleans the pending writes erases through an iterator and then moves it
  once more. When \<^verbatim>\<open>try_wait\<close> succeeds on every future, as it does on futures that were never
  waited on, an odd number of pending writes, such as the 51 that first start the loop, ends
  with an increment of the end iterator.
\<close>

theorem clean_odd_undefined:
  assumes "odd (length ws)" "distinct (map snd ws)" "\<forall>w \<in> set ws. try_wait_succeeds s (snd w)"
  shows "clean_pending (fb_ostore fb) ws s = Some Undef"
  using assms
proof (induction "fb_ostore fb" ws s rule: clean_pending.induct)
  case (2 x st)
  then show ?case using fb_try_wait_succeeds [of st "snd x" fb] by (auto simp: fb_ostore_def)
next
  case (3 x y ws st)
  obtain l where l: "fb_try_wait fb (snd x) st = Some (Ok True (set_sem l (snd x) st))"
    using 3(5) fb_try_wait_succeeds [of st "snd x" fb] by auto
  have "try_wait_succeeds (set_sem l (snd x) st) (snd w)" if "w \<in> set ws" for w
  proof -
    have "snd w \<in> snd ` set ws" "snd x \<notin> snd ` set ws" using that 3(4) by auto
    then have "snd w \<noteq> snd x" by metis
    then show ?thesis using 3(5) that by (simp add: try_wait_succeeds_other)
  qed
  then have "clean_pending (fb_ostore fb) ws (set_sem l (snd x) st) = Some Undef"
    using 3(1) [of True "set_sem l (snd x) st"] 3(3,4) by simp
  with l show ?case by (simp add: fb_ostore_def)
qed simp

section \<open>The least recently used policy and the capacity\<close>

text \<open>
  C36. \<^verbatim>\<open>LRUEvictionPolicy::put\<close> evicts nothing and tracks nothing: a put of a new object into a
  full cache always throws, although the policy claims that a put never needs space.
\<close>

theorem lru_put_full_throws:
  assumes "ce_ep env = lru_policy" "map_of (cache s) oid = None" "length (cache s) = unat (cm_max_size s)"
  shows "put env oid v s =
    Some (Throw (CacheCapacityException ''Put operation would put cache over capacity.'') s)"
  using assms by (simp add: put_def lru_policy_def lru_put_def on_policy_def put_entry_def)

text \<open>
  As objects that were put are not tracked, the policy does not know that the cache is
  full, and \<^verbatim>\<open>prefetch\<close> does not look at the capacity: the cache grows beyond the maximum it is
  documented never to exceed.
\<close>

lemma lru_prefetch_over_capacity:
  assumes "ce_ep env = lru_policy" "lru_invar (unat (cm_max_size s)) (evp s)"
    and "length (object_list (evp s)) < unat (cm_max_size s)" "oid \<notin> lru_tracked (evp s)"
    and "map_of (cache s) oid = None" "length (cache s) = unat (cm_max_size s)"
    and "os_get_async (ce_os env) oid (store s) = Some (Ok g st)"
  shows "\<exists>s'. prefetch env oid s = Some (Ok () s') \<and> length (cache s') = Suc (unat (cm_max_size s'))"
proof -
  obtain p' where "lru_process_oid oid (evp s) = Ok [] p'"
    using lru_process_miss [OF assms(2) _ assms(4)] assms(3) by auto
  then have "prefetch_evict env oid s = Some (Ok () (s\<lparr>evp := p'\<rparr>))"
    using assms(1) by (simp add: prefetch_evict_def lru_policy_def lru_prefetch_def on_policy_def)
  then show ?thesis
    using assms(5-7) by (simp add: prefetch_def prefetch_fetch_def on_store_def Let_def length_update_new)
qed

end
