(* ===== verification/Cache_Coherence.thy ===== *)
theory Cache_Coherence
  imports Cache_Manager
begin

text \<open>
  What the cache promises its client, proved over the contracts of the object store and of
  the eviction policy: every sequence of operations that respects the conditions below gives
  the answers of a plain map, in both write modes, and the cache stays within its capacity.
\<close>

section \<open>The abstraction\<close>

text \<open>
  The client's view is a map \<open>L\<close>. A cached entry holds the value of \<open>L\<close>, and unless its write
  is deferred the store has it too; an entry that is still being fetched has a future that
  will deliver it. \<open>Q\<close> are the ids that may have such an entry and \<open>D\<close> those that may have
  been written while writes are deferred.
\<close>

definition entry_ok ::
  "bool \<Rightarrow> (ObjectID \<rightharpoonup> 't) \<Rightarrow> ('g \<rightharpoonup> 't option) \<Rightarrow> (ObjectID \<rightharpoonup> 't) \<Rightarrow> ObjectID set \<Rightarrow> ObjectID set
    \<Rightarrow> ObjectID \<Rightarrow> ('t, 'g) cache_entry \<Rightarrow> bool" where
  "entry_ok defer va F L Q D oid e \<longleftrightarrow>
     (if cached e
      then L oid = Some (obj e) \<and> (if defer \<and> dirty e then oid \<in> D else va oid = L oid)
      else oid \<in> Q \<and> \<not> dirty e \<and> va oid = L oid \<and> (\<exists>g. future e = Some g \<and> F g = Some (L oid)))"

definition data_ok ::
  "('s \<Rightarrow> 'a \<Rightarrow> ('g \<rightharpoonup> 't option) \<Rightarrow> ('p \<rightharpoonup> bool) \<Rightarrow> nat \<Rightarrow> bool) \<Rightarrow> ('a \<Rightarrow> (ObjectID \<rightharpoonup> 't)) \<Rightarrow> ('t \<Rightarrow> bool)
    \<Rightarrow> ('s, 't, 'g, 'p, 'e, 'c) cache_manager \<Rightarrow> (ObjectID \<rightharpoonup> 't) \<Rightarrow> ObjectID set \<Rightarrow> ObjectID set
    \<Rightarrow> 'a \<Rightarrow> ('g \<rightharpoonup> 't option) \<Rightarrow> ('p \<rightharpoonup> bool) \<Rightarrow> nat \<Rightarrow> bool" where
  "data_ok R view valid s L Q D a F W n \<longleftrightarrow>
     R (store s) a F W n \<and> wf_alist (cache s)
     \<and> (\<forall>oid. map_of (cache s) oid = None \<longrightarrow> view a oid = L oid)
     \<and> (\<forall>oid e. map_of (cache s) oid = Some e \<longrightarrow> entry_ok (defer_writes s) (view a) F L Q D oid e)
     \<and> (\<forall>oid v. L oid = Some v \<longrightarrow> valid v)
     \<and> wf_alist (pending_writes s) \<and> dom (map_of (pending_writes s)) \<subseteq> D
     \<and> ran (map_of (pending_writes s)) \<subseteq> dom W \<and> finite D \<and> card D \<le> HIGH_PEND"

text \<open>The entries of the cache are what the policy tracks, apart from \<open>X\<close>.\<close>

definition track_ok ::
  "('e \<Rightarrow> ObjectID set) \<Rightarrow> ('e \<Rightarrow> bool) \<Rightarrow> nat \<Rightarrow> ('s, 't, 'g, 'p, 'e, 'c) cache_manager \<Rightarrow> ObjectID set \<Rightarrow> bool" where
  "track_ok tracked einv cap s X \<longleftrightarrow>
     einv (evp s) \<and> tracked (evp s) = dom (map_of (cache s)) \<union> X \<and> unat (cm_max_size s) = cap"

definition coherent ::
  "('s \<Rightarrow> 'a \<Rightarrow> ('g \<rightharpoonup> 't option) \<Rightarrow> ('p \<rightharpoonup> bool) \<Rightarrow> nat \<Rightarrow> bool) \<Rightarrow> ('a \<Rightarrow> (ObjectID \<rightharpoonup> 't)) \<Rightarrow> ('t \<Rightarrow> bool)
    \<Rightarrow> ('e \<Rightarrow> ObjectID set) \<Rightarrow> ('e \<Rightarrow> bool) \<Rightarrow> nat
    \<Rightarrow> ('s, 't, 'g, 'p, 'e, 'c) cache_manager \<Rightarrow> (ObjectID \<rightharpoonup> 't) \<Rightarrow> ObjectID set \<Rightarrow> ObjectID set \<Rightarrow> nat \<Rightarrow> bool" where
  "coherent R view valid tracked einv cap s L Q D n \<longleftrightarrow>
     (\<exists>a F W. data_ok R view valid s L Q D a F W n) \<and> track_ok tracked einv cap s {}
     \<and> prefetch_policy s = OffPolicy"

text \<open>What eviction leaves alone.\<close>

definition same_config ::
  "('s, 't, 'g, 'p, 'e, 'c) cache_manager \<Rightarrow> ('s, 't, 'g, 'p, 'e, 'c) cache_manager \<Rightarrow> bool" where
  "same_config s s' \<longleftrightarrow> cm_max_size s' = cm_max_size s \<and> prefetch_policy s' = prefetch_policy s
     \<and> ordered_policy s' = ordered_policy s \<and> defer_writes s' = defer_writes s \<and> evp s' = evp s"

lemma pending_short:
  assumes "data_ok R view valid s L Q D a F W n"
  shows "length (pending_writes s) \<le> HIGH_PEND"
proof -
  have "card (dom (map_of (pending_writes s))) \<le> card D"
    using assms by (intro card_mono) (auto simp: data_ok_def)
  then show ?thesis using assms card_dom_alist [of "pending_writes s"] by (simp add: data_ok_def)
qed

lemma clean_idle:
  "data_ok R view valid s L Q D a F W n \<Longrightarrow> clean env s = Some (Ok () s)"
  using pending_short [of R view valid s L Q D a F W n] by (simp add: clean_def)

lemma data_okI:
  assumes "R (store s) a F W n" "wf_alist (cache s)"
    "\<And>oid. map_of (cache s) oid = None \<Longrightarrow> view a oid = L oid"
    "\<And>oid e. map_of (cache s) oid = Some e \<Longrightarrow> entry_ok (defer_writes s) (view a) F L Q D oid e"
    "\<And>oid v. L oid = Some v \<Longrightarrow> valid v"
    "wf_alist (pending_writes s)" "dom (map_of (pending_writes s)) \<subseteq> D"
    "ran (map_of (pending_writes s)) \<subseteq> dom W" "finite D" "card D \<le> HIGH_PEND"
  shows "data_ok R view valid s L Q D a F W n"
  using assms by (simp add: data_ok_def)

lemma data_okD:
  assumes "data_ok R view valid s L Q D a F W n"
  shows "R (store s) a F W n" "wf_alist (cache s)"
    "map_of (cache s) oid = None \<Longrightarrow> view a oid = L oid"
    "map_of (cache s) oid = Some e \<Longrightarrow> entry_ok (defer_writes s) (view a) F L Q D oid e"
    "L oid = Some v \<Longrightarrow> valid v"
    "wf_alist (pending_writes s)" "dom (map_of (pending_writes s)) \<subseteq> D"
    "ran (map_of (pending_writes s)) \<subseteq> dom W" "finite D" "card D \<le> HIGH_PEND"
  using assms by (simp_all add: data_ok_def)

lemma entry_ok_future:
  assumes e: "entry_ok defer va F L Q D x e" and g: "F g = None"
  shows "entry_ok defer va (F(g \<mapsto> y)) L (insert oid Q) D x e"
proof (cases "cached e")
  case True
  then show ?thesis using e by (simp add: entry_ok_def)
next
  case False
  then obtain h where h: "future e = Some h" "F h = Some (L x)" using e by (auto simp: entry_ok_def)
  then have "(F(g \<mapsto> y)) h = Some (L x)" using g by auto
  then show ?thesis using e False h by (simp add: entry_ok_def del: fun_upd_apply)
qed

lemma data_ok_drop:
  assumes d: "data_ok R view valid s L Q D a F W n" and va: "view a oid = L oid"
  shows "data_ok R view valid (s\<lparr>cache := AList.delete oid (cache s)\<rparr>) L Q D a F W n"
proof (rule data_okI, goal_cases)
  case (3 x)
  then show ?case using data_okD(3) [OF d, of x] va by (auto split: if_splits)
next
  case (4 x e)
  then show ?case using data_okD(4) [OF d, of x] by (auto split: if_splits)
next
  case (5 x v)
  then show ?case using data_okD(5) [OF d] by blast
qed (use data_okD(1,2,6-10) [OF d] in simp_all)

lemma data_ok_set:
  assumes d: "data_ok R view valid s L Q D a F W n"
    and e: "entry_ok (defer_writes s) (view a) F L Q D oid e"
  shows "data_ok R view valid (set_entry oid e s) L Q D a F W n"
proof (rule data_okI, goal_cases)
  case (3 x)
  then show ?case using data_okD(3) [OF d, of x] by (auto simp: set_entry_def split: if_splits)
next
  case (4 x e')
  then show ?case using data_okD(4) [OF d, of x] e by (auto simp: set_entry_def split: if_splits)
next
  case (5 x v)
  then show ?case using data_okD(5) [OF d] by blast
qed (use data_okD(1,2,6-10) [OF d] in \<open>simp_all add: set_entry_def\<close>)

section \<open>Sequences of operations\<close>

datatype 't cache_op = OpGet ObjectID | OpPut ObjectID 't | OpPrefetch ObjectID | OpRemove ObjectID

definition run_op ::
  "('s, 't, 'g, 'p, 'e, 'c) cache_env \<Rightarrow> 't cache_op \<Rightarrow> ('s, 't, 'g, 'p, 'e, 'c) cache_manager
    \<Rightarrow> ('t option, ('s, 't, 'g, 'p, 'e, 'c) cache_manager) call" where
  "run_op env p s =
     (case p of
        OpGet oid \<Rightarrow> bindW (get env oid s) (\<lambda>v s'. Some (Ok (Some v) s'))
      | OpPut oid v \<Rightarrow> bindW (put env oid v s) (\<lambda>_ s'. Some (Ok None s'))
      | OpPrefetch oid \<Rightarrow> bindW (prefetch env oid s) (\<lambda>_ s'. Some (Ok None s'))
      | OpRemove oid \<Rightarrow> bindW (remove env oid s) (\<lambda>_ s'. Some (Ok None s')))"

fun run_ops ::
  "('s, 't, 'g, 'p, 'e, 'c) cache_env \<Rightarrow> 't cache_op list \<Rightarrow> ('s, 't, 'g, 'p, 'e, 'c) cache_manager
    \<Rightarrow> ('t option list, ('s, 't, 'g, 'p, 'e, 'c) cache_manager) call" where
  "run_ops env [] s = Some (Ok [] s)"
| "run_ops env (p # ps) s =
     bindW (run_op env p s) (\<lambda>r s1. bindW (run_ops env ps s1) (\<lambda>rs s2. Some (Ok (r # rs) s2)))"

text \<open>The same on a plain map.\<close>

fun map_op :: "'t cache_op \<Rightarrow> (ObjectID \<rightharpoonup> 't) \<Rightarrow> 't option \<times> (ObjectID \<rightharpoonup> 't)" where
  "map_op (OpGet oid) L = (L oid, L)"
| "map_op (OpPut oid v) L = (None, L(oid \<mapsto> v))"
| "map_op (OpPrefetch oid) L = (None, L)"
| "map_op (OpRemove oid) L = (None, L(oid := None))"

fun map_ops :: "'t cache_op list \<Rightarrow> (ObjectID \<rightharpoonup> 't) \<Rightarrow> 't option list \<times> (ObjectID \<rightharpoonup> 't)" where
  "map_ops [] L = ([], L)"
| "map_ops (p # ps) L =
     (let (r, L1) = map_op p L; (rs, L2) = map_ops ps L1 in (r # rs, L2))"

text \<open>
  The sequences for which the cache keeps its promise: gets are of existing objects, and an
  object that was prefetched is read before it is overwritten. \<open>Q\<close> are the ids prefetched
  and not read since.
\<close>

fun proper :: "('t \<Rightarrow> bool) \<Rightarrow> 't cache_op list \<Rightarrow> (ObjectID \<rightharpoonup> 't) \<Rightarrow> ObjectID set \<Rightarrow> bool" where
  "proper valid [] L Q \<longleftrightarrow> True"
| "proper valid (OpGet oid # ps) L Q \<longleftrightarrow> L oid \<noteq> None \<and> proper valid ps L (Q - {oid})"
| "proper valid (OpPut oid v # ps) L Q \<longleftrightarrow> valid v \<and> oid \<notin> Q \<and> proper valid ps (L(oid \<mapsto> v)) Q"
| "proper valid (OpPrefetch oid # ps) L Q \<longleftrightarrow> proper valid ps L (insert oid Q)"
| "proper valid (OpRemove oid # ps) L Q \<longleftrightarrow> proper valid ps (L(oid := None)) (Q - {oid})"

fun put_ids :: "'t cache_op list \<Rightarrow> ObjectID list" where
  "put_ids [] = []"
| "put_ids (OpPut oid v # ps) = oid # put_ids ps"
| "put_ids (p # ps) = put_ids ps"

section \<open>Operations over the contracts\<close>

locale coherent_cache =
  roomy_store os R view room valid + cache_tracking ep tracked einv cap
  for os :: "('s, 't, 'g, 'p) ostore"
    and R :: "'s \<Rightarrow> 'a \<Rightarrow> ('g \<rightharpoonup> 't option) \<Rightarrow> ('p \<rightharpoonup> bool) \<Rightarrow> nat \<Rightarrow> bool"
    and view :: "'a \<Rightarrow> (ObjectID \<rightharpoonup> 't)"
    and room :: "'a \<Rightarrow> ObjectID \<Rightarrow> 't \<Rightarrow> bool"
    and valid :: "'t \<Rightarrow> bool"
    and ep :: "'e eviction_policy"
    and tracked :: "'e \<Rightarrow> ObjectID set"
    and einv :: "'e \<Rightarrow> bool"
    and cap :: nat
begin

lemma data_ok_less:
  "data_ok R view valid s L Q D a F W (Suc n) \<Longrightarrow> data_ok R view valid s L Q D a F W n"
  using os_less by (simp add: data_ok_def)

lemma evict_ok:
  assumes d: "data_ok R view valid s L Q D a F W (Suc n)" and e: "map_of (cache s) oid = Some e"
    and env: "ce_os env = os"
  shows "\<exists>s' a' W'. evict env oid s = Some (Ok () s') \<and> data_ok R view valid s' L Q D a' F W' n
           \<and> cache s' = AList.delete oid (cache s) \<and> same_config s s'"
proof -
  note D = data_okD [OF d]
  have eo: "entry_ok (defer_writes s) (view a) F L Q D oid e" using D(4) e .
  show ?thesis
  proof (cases "defer_writes s \<and> dirty e")
    case True
    then have cached: "cached e" "L oid = Some (obj e)" "oid \<in> D" using eo by (auto simp: entry_ok_def split: if_splits)
    then have v: "valid (obj e)" using D(5) by blast
    obtain st p a' where p: "os_put_async os oid (obj e) (store s) = Some (Ok p st)"
        "R st a' F (W(p \<mapsto> True)) n" "view a' = (view a)(oid \<mapsto> obj e)"
      using os_put_async [OF D(1) v, of oid] os_roomy [OF D(1) v, of oid] by auto
    let ?s = "s\<lparr>store := st, pending_writes := AList.update oid p (pending_writes s)\<rparr>"
    have do: "data_ok R view valid ?s L Q D a' F (W(p \<mapsto> True)) n"
    proof (rule data_okI, goal_cases)
      case (3 x)
      then show ?case using D(3) [of x] e p(3) by auto
    next
      case (4 x ex)
      then show ?case using D(4) [of x ex] e p(3) cached True by (auto simp: entry_ok_def)
    qed (use D p cached in \<open>auto simp: ran_def\<close>)
    let ?t = "?s\<lparr>cache := AList.delete oid (cache s)\<rparr>"
    have "evict env oid s = Some (Ok () ?t)"
      using e True p env clean_idle [OF do]
      by (simp add: evict_def write_back_def on_store_def)
    moreover have "data_ok R view valid ?t L Q D a' F (W(p \<mapsto> True)) n"
      using data_ok_drop [OF do, of oid] p(3) cached by simp
    ultimately show ?thesis by (auto simp: same_config_def)
  next
    case False
    let ?t = "s\<lparr>cache := AList.delete oid (cache s)\<rparr>"
    have va: "view a oid = L oid" using eo False by (auto simp: entry_ok_def split: if_splits)
    have "evict env oid s = Some (Ok () ?t)"
      using e False clean_idle [OF d, of env] by (auto simp: evict_def write_back_def)
    moreover have "data_ok R view valid ?t L Q D a F W n"
      using data_ok_drop [OF data_ok_less [OF d] va] .
    ultimately show ?thesis by (auto simp: same_config_def)
  qed
qed

text \<open>
  The first half of \<^verbatim>\<open>get\<close>, \<^verbatim>\<open>put\<close> and \<^verbatim>\<open>prefetch\<close>: the policy admits the id, and what it
  names goes. Afterwards there is room for the entry.
\<close>

lemma make_room:
  assumes d: "data_ok R view valid s L Q D a F W (Suc n)" and t: "track_ok tracked einv cap s {}"
    and adm: "admits tracked einv oid (f (evp s)) (evp s)" and env: "ce_os env = os"
  shows "\<exists>s' a' W'. bindW (on_policy f s) (evict_vector env) = Some (Ok () s')
           \<and> data_ok R view valid s' L Q D a' F W' n \<and> track_ok tracked einv cap s' {oid}
           \<and> prefetch_policy s' = prefetch_policy s \<and> ordered_policy s' = ordered_policy s
           \<and> defer_writes s' = defer_writes s \<and> map_of (cache s') oid = map_of (cache s) oid
           \<and> (map_of (cache s') oid = None \<longrightarrow> length (cache s') < cap)"
proof -
  obtain vs e' where e': "f (evp s) = Ok vs e'" "einv e'" "length vs \<le> 1" "set vs \<subseteq> tracked (evp s) - {oid}"
      "tracked e' = insert oid (tracked (evp s)) - set vs"
    using adm by (auto simp: admits_def)
  let ?s = "s\<lparr>evp := e'\<rparr>"
  have d': "data_ok R view valid ?s L Q D a F W (Suc n)" using d by (simp add: data_ok_def)
  have tr: "tracked (evp s) = dom (map_of (cache s))" "einv (evp s)" using t by (simp_all add: track_ok_def)
  have small: "length (cache s') < cap"
    if "map_of (cache s') = map_of (cache s) |` (- set vs)" "wf_alist (cache s')" "map_of (cache s') oid = None"
    for s' :: "('s, 't, 'g, 'p, 'e, 'f) cache_manager"
  proof -
    have "oid \<notin> tracked (evp s)" using that(1,3) e'(4) tr(1) by (auto simp: restrict_map_def split: if_splits)
    then have "card (tracked (evp s) - set vs) < cap" using admits_room [OF tr(2) adm e'(1)] by blast
    moreover have "dom (map_of (cache s')) = tracked (evp s) - set vs" using that(1) tr(1) by auto
    ultimately show ?thesis using card_dom_alist [OF that(2)] by simp
  qed
  consider "vs = []" | v where "vs = [v]" using e'(3) by (cases vs) auto
  then show ?thesis
  proof cases
    case 1
    have "bindW (on_policy f s) (evict_vector env) = Some (Ok () ?s)"
      using e'(1) 1 by (simp add: on_policy_def)
    moreover have "track_ok tracked einv cap ?s {oid}"
      using t e' 1 by (auto simp: track_ok_def)
    moreover have "map_of (cache s) oid = None \<longrightarrow> length (cache s) < cap"
      using small [of ?s] 1 data_okD(2) [OF d] by (simp add: restrict_map_def)
    ultimately show ?thesis using data_ok_less [OF d'] by auto
  next
    case (2 v)
    then obtain e where "map_of (cache ?s) v = Some e" using e'(4) tr(1) by auto
    from evict_ok [OF d' this env] obtain s' a' W' where s': "evict env v ?s = Some (Ok () s')"
        "data_ok R view valid s' L Q D a' F W' n" "cache s' = AList.delete v (cache s)" "same_config ?s s'"
      by auto
    have "bindW (on_policy f s) (evict_vector env) = Some (Ok () s')"
      using e'(1) 2 s'(1) by (simp add: on_policy_def)
    moreover have "track_ok tracked einv cap s' {oid}"
      using t e' 2 s'(3,4) by (auto simp: track_ok_def same_config_def)
    moreover have "map_of (cache s') oid = None \<longrightarrow> length (cache s') < cap"
      using small [of s'] 2 s'(3) data_okD(2) [OF s'(2)]
      by (auto simp: restrict_map_def fun_eq_iff)
    moreover have "map_of (cache s') oid = map_of (cache s) oid"
      using 2 e'(4) s'(3) by auto
    ultimately show ?thesis using s'(2,4) by (auto simp: same_config_def)
  qed
qed

lemma await_ok:
  assumes d: "data_ok R view valid s L Q D a F W n" and env: "ce_os env = os"
  shows "\<exists>s'. await_write env oid s = Some (Ok () s') \<and> data_ok R view valid s' L Q D a F W n
           \<and> cache s' = cache s \<and> same_config s s'
           \<and> (defer_writes s \<longrightarrow> map_of (pending_writes s') oid = None)"
proof (cases "if defer_writes s then map_of (pending_writes s) oid else None")
  case None
  then show ?thesis using d by (auto simp: await_write_def same_config_def split: if_splits)
next
  case (Some f)
  note D = data_okD [OF d]
  have f: "defer_writes s" "map_of (pending_writes s) oid = Some f" "W f \<noteq> None"
    using Some D(8) by (auto simp: ran_def split: if_splits)
  then obtain st where st: "putf_wait os f (store s) = Some (Ok () st)" "R st a F W n"
    using putf_wait [OF D(1)] by blast
  let ?s = "s\<lparr>store := st, pending_writes := AList.delete oid (pending_writes s)\<rparr>"
  have "await_write env oid s = Some (Ok () ?s)"
    using f st(1) env by (simp add: await_write_def on_store_def)
  moreover have "data_ok R view valid ?s L Q D a F W n"
    using D(2-10) st(2) by (intro data_okI) (auto simp: ran_def split: if_splits)
  ultimately show ?thesis by (auto simp: same_config_def)
qed

lemma lookup_ok:
  assumes d: "data_ok R view valid s L Q D a F W (Suc n)" and env: "ce_os env = os"
    and v: "L oid = Some v" and cap: "map_of (cache s) oid = None \<longrightarrow> length (cache s) < unat (cm_max_size s)"
  shows "\<exists>s' e. lookup_entry env oid s = Some (Ok v s') \<and> data_ok R view valid s' L Q D a F W n
           \<and> map_of (cache s') = (map_of (cache s))(oid \<mapsto> e) \<and> cached e \<and> obj e = v \<and> same_config s s'"
proof (cases "map_of (cache s) oid")
  case None
  note D = data_okD [OF d]
  have va: "view a oid = Some v" using D(3) [OF None] v by simp
  obtain st where st: "os_get os oid (store s) = Some (Ok v st)" "R st a F W n"
    using os_get [OF D(1), of oid] va by auto
  let ?e = "(cache_entry_new (ce_default env))\<lparr>obj := v\<rparr>"
  let ?s = "set_entry oid ?e (s\<lparr>store := st\<rparr>)"
  have "data_ok R view valid (s\<lparr>store := st\<rparr>) L Q D a F W n" using d st(2) by (simp add: data_ok_def)
  then have "data_ok R view valid ?s L Q D a F W n"
    by (rule data_ok_set) (simp add: entry_ok_def cache_entry_new_def va v)
  moreover have "lookup_entry env oid s =
      Some (Ok v (set_entry oid ?e (set_entry oid (cache_entry_new (ce_default env)) (s\<lparr>store := st\<rparr>))))"
    using None cap st(1) env
    by (simp add: lookup_entry_def on_store_def set_entry_def Let_def)
  ultimately show ?thesis
    by (intro exI [of _ ?s] exI [of _ ?e])
      (simp add: set_entry_def same_config_def cache_entry_new_def)
next
  case (Some e)
  note D = data_okD [OF d]
  have eo: "entry_ok (defer_writes s) (view a) F L Q D oid e" using D(4) Some .
  show ?thesis
  proof (cases "cached e")
    case True
    then have "obj e = v" using eo v by (simp add: entry_ok_def)
    with True Some data_ok_less [OF d] show ?thesis
      by (intro exI [of _ s] exI [of _ e])
        (simp add: lookup_entry_def same_config_def fun_upd_idem)
  next
    case False
    then obtain g where g: "future e = Some g" "F g = Some (Some v)" "\<not> dirty e" "view a oid = Some v"
      using eo v by (auto simp: entry_ok_def)
    obtain st where st: "getf_get os g (store s) = Some (Ok v st)" "R st a F W (Suc n)"
      using getf_get [OF D(1) g(2)] by auto
    let ?e = "e\<lparr>obj := v, cached := True\<rparr>"
    let ?s = "set_entry oid ?e (s\<lparr>store := st\<rparr>)"
    have "data_ok R view valid (s\<lparr>store := st\<rparr>) L Q D a F W n"
      using data_ok_less [OF d] os_less [OF st(2)] by (simp add: data_ok_def)
    then have "data_ok R view valid ?s L Q D a F W n"
      by (rule data_ok_set) (simp add: entry_ok_def g v)
    then show ?thesis using Some False g(1) st(1) env
      by (intro exI [of _ ?s] exI [of _ ?e])
        (simp add: lookup_entry_def on_store_def set_entry_def same_config_def)
  qed
qed

lemma track_ok_add:
  assumes "track_ok tracked einv cap s {oid}" "map_of (cache s') = (map_of (cache s))(oid \<mapsto> e)"
    "evp s' = evp s" "cm_max_size s' = cm_max_size s"
  shows "track_ok tracked einv cap s' {}"
  using assms by (auto simp: track_ok_def)

text \<open>The part of \<^verbatim>\<open>get\<close> before the prefetching, under every prefetch policy.\<close>

lemma get_fetch:
  assumes d: "data_ok R view valid s L Q D a F W (Suc (Suc n))" and t: "track_ok tracked einv cap s {}"
    and env: "ce_os env = os" "ce_ep env = ep" and v: "L oid = Some v"
  shows "\<exists>s' a' W' e. get env oid s = get_prefetch env oid v s' \<and> data_ok R view valid s' L Q D a' F W' n
           \<and> track_ok tracked einv cap s' {} \<and> map_of (cache s') oid = Some e \<and> cached e \<and> obj e = v
           \<and> prefetch_policy s' = prefetch_policy s \<and> ordered_policy s' = ordered_policy s
           \<and> defer_writes s' = defer_writes s"
proof -
  have "admits tracked einv oid (ep_get ep oid (evp s)) (evp s)"
    using ep_get t by (simp add: track_ok_def)
  from make_room [where f = "ep_get ep oid", OF d t this env(1)] obtain s1 a1 W1 where
      s1: "bindW (on_policy (ep_get ep oid) s) (evict_vector env) = Some (Ok () s1)"
        "data_ok R view valid s1 L Q D a1 F W1 (Suc n)" "track_ok tracked einv cap s1 {oid}"
        "prefetch_policy s1 = prefetch_policy s" "ordered_policy s1 = ordered_policy s"
        "defer_writes s1 = defer_writes s" "map_of (cache s1) oid = None \<longrightarrow> length (cache s1) < cap"
    by (elim exE conjE) (rule that)
  obtain s2 where s2: "await_write env oid s1 = Some (Ok () s2)"
      "data_ok R view valid s2 L Q D a1 F W1 (Suc n)" "cache s2 = cache s1" "same_config s1 s2"
    using await_ok [OF s1(2) env(1), of oid] by (elim exE conjE) (rule that)
  have "map_of (cache s2) oid = None \<longrightarrow> length (cache s2) < unat (cm_max_size s2)"
    using s1(3,7) s2(3,4) by (simp add: track_ok_def same_config_def)
  from lookup_ok [OF s2(2) env(1) v this] obtain s3 e where
      s3: "lookup_entry env oid s2 = Some (Ok v s3)" "data_ok R view valid s3 L Q D a1 F W1 n"
        "map_of (cache s3) = (map_of (cache s2))(oid \<mapsto> e)" "cached e" "obj e = v" "same_config s2 s3"
    by (elim exE conjE) (rule that)
  have "get env oid s = get_prefetch env oid v s3"
    using s1(1) s2(1) s3(1) env(2) by (simp add: get_def bindW_assoc [symmetric])
  moreover have "track_ok tracked einv cap s3 {}"
    using s2(3,4) s3(3,6) by (intro track_ok_add [OF s1(3)]) (simp_all add: same_config_def)
  ultimately show ?thesis
    using s1(4-6) s2(4) s3(2-6)
    by (intro exI [of _ s3] exI [of _ a1] exI [of _ W1] exI [of _ e]) (simp add: same_config_def)
qed

lemma get_coherent:
  assumes c: "coherent R view valid tracked einv cap s L Q D (Suc (Suc n))"
    and env: "ce_os env = os" "ce_ep env = ep" and v: "L oid = Some v"
  shows "\<exists>s'. get env oid s = Some (Ok v s') \<and> defer_writes s' = defer_writes s
           \<and> coherent R view valid tracked einv cap s' L (Q - {oid}) D n"
proof -
  obtain a F W where d: "data_ok R view valid s L Q D a F W (Suc (Suc n))"
      and t: "track_ok tracked einv cap s {}" and off: "prefetch_policy s = OffPolicy"
    using c by (auto simp: coherent_def)
  from get_fetch [OF d t env v] obtain s3 a1 W1 e where
      s3: "get env oid s = get_prefetch env oid v s3" "data_ok R view valid s3 L Q D a1 F W1 n"
        "track_ok tracked einv cap s3 {}" "map_of (cache s3) oid = Some e" "cached e" "obj e = v"
        "prefetch_policy s3 = prefetch_policy s" "defer_writes s3 = defer_writes s"
    by (elim exE conjE) (rule that)
  have "get env oid s = Some (Ok v s3)"
    using s3(1,4,6,7) off by (simp add: get_prefetch_def policy_get_def)
  moreover have "data_ok R view valid s3 L (Q - {oid}) D a1 F W1 n"
  proof (rule data_okI, goal_cases)
    case (4 x ex)
    then show ?case using data_okD(4) [OF s3(2), of x ex] s3(4,5) by (auto simp: entry_ok_def split: if_splits)
  qed (use data_okD [OF s3(2)] in auto)
  ultimately show ?thesis
    using s3(3,7,8) off by (auto simp: coherent_def)
qed

lemma prefetch_coherent:
  assumes c: "coherent R view valid tracked einv cap s L Q D (Suc (Suc n))"
    and env: "ce_os env = os" "ce_ep env = ep"
  shows "\<exists>s'. prefetch env oid s = Some (Ok () s') \<and> defer_writes s' = defer_writes s
           \<and> coherent R view valid tracked einv cap s' L (insert oid Q) D n
           \<and> (map_of (cache s) oid = None \<longrightarrow> (\<exists>e. map_of (cache s') oid = Some e \<and> \<not> cached e))"
proof -
  obtain a F W where d: "data_ok R view valid s L Q D a F W (Suc (Suc n))"
      and t: "track_ok tracked einv cap s {}" and off: "prefetch_policy s = OffPolicy"
    using c by (auto simp: coherent_def)
  have "admits tracked einv oid (ep_prefetch ep oid (evp s)) (evp s)"
    using ep_prefetch t by (simp add: track_ok_def)
  from make_room [where f = "ep_prefetch ep oid", OF d t this env(1)] obtain s1 a1 W1 where
      s1: "bindW (on_policy (ep_prefetch ep oid) s) (evict_vector env) = Some (Ok () s1)"
        "data_ok R view valid s1 L Q D a1 F W1 (Suc n)" "track_ok tracked einv cap s1 {oid}"
        "prefetch_policy s1 = prefetch_policy s" "defer_writes s1 = defer_writes s"
        "map_of (cache s1) oid = map_of (cache s) oid"
    by (elim exE conjE) (rule that)
  then have pe: "prefetch_evict env oid s = Some (Ok () s1)" by (simp add: prefetch_evict_def env(2))
  show ?thesis
  proof (cases "map_of (cache s1) oid")
    case (Some e)
    have "data_ok R view valid s1 L (insert oid Q) D a1 F W1 n"
      using data_ok_less [OF s1(2)] by (auto simp: data_ok_def entry_ok_def)
    moreover have "track_ok tracked einv cap s1 {}" using s1(3) Some by (auto simp: track_ok_def)
    moreover have "map_of (cache s) oid = Some e" using Some s1(6) by simp
    ultimately show ?thesis using s1 Some off
      by (intro exI [of _ s1]) (auto simp: prefetch_def pe prefetch_fetch_def coherent_def)
  next
    case None
    note D = data_okD [OF s1(2)]
    obtain st g where g: "os_get_async os oid (store s1) = Some (Ok g st)" "F g = None"
        "R st a1 (F(g \<mapsto> L oid)) W1 n"
      using os_get_async [OF D(1), of oid] D(3) [OF None] by auto
    let ?e = "(cache_entry_new (ce_default env))\<lparr>cached := False\<rparr>"
    let ?f = "?e\<lparr>future := Some g\<rparr>"
    let ?s = "set_entry oid ?f (s1\<lparr>store := st\<rparr>)"
    have "data_ok R view valid (s1\<lparr>store := st\<rparr>) L (insert oid Q) D a1 (F(g \<mapsto> L oid)) W1 n"
    proof (rule data_okI, goal_cases)
      case (4 x e)
      then show ?case using entry_ok_future [OF D(4) [of x e] g(2)] by simp
    qed (use D g(3) in auto)
    then have "data_ok R view valid ?s L (insert oid Q) D a1 (F(g \<mapsto> L oid)) W1 n"
      by (rule data_ok_set) (simp add: entry_ok_def cache_entry_new_def D(3) [OF None])
    moreover have "track_ok tracked einv cap ?s {}"
      by (rule track_ok_add [OF s1(3)]) (simp_all add: set_entry_def)
    moreover have "prefetch env oid s = Some (Ok () ?s)"
      using pe None g(1) env(1)
      by (simp add: prefetch_def prefetch_fetch_def on_store_def set_entry_def Let_def)
    ultimately show ?thesis using s1(4,5) off
      by (intro exI [of _ ?s]) (auto simp: coherent_def set_entry_def cache_entry_new_def)
  qed
qed

lemma put_coherent:
  assumes c: "coherent R view valid tracked einv cap s L Q D (Suc (Suc n))"
    and env: "ce_os env = os" "ce_ep env = ep"
    and v: "valid v" and q: "oid \<notin> Q" and D: "defer_writes s \<longrightarrow> oid \<in> D"
  shows "\<exists>s'. put env oid v s = Some (Ok () s') \<and> defer_writes s' = defer_writes s
           \<and> coherent R view valid tracked einv cap s' (L(oid \<mapsto> v)) Q D n"
proof -
  obtain a F W where d: "data_ok R view valid s L Q D a F W (Suc (Suc n))"
      and t: "track_ok tracked einv cap s {}" and off: "prefetch_policy s = OffPolicy"
    using c by (auto simp: coherent_def)
  have "admits tracked einv oid (ep_put ep oid (evp s)) (evp s)"
    using ep_put_admits t by (simp add: track_ok_def)
  from make_room [where f = "ep_put ep oid", OF d t this env(1)] obtain s1 a1 W1 where
      s1: "bindW (on_policy (ep_put ep oid) s) (evict_vector env) = Some (Ok () s1)"
        "data_ok R view valid s1 L Q D a1 F W1 (Suc n)" "track_ok tracked einv cap s1 {oid}"
        "prefetch_policy s1 = prefetch_policy s" "defer_writes s1 = defer_writes s"
        "map_of (cache s1) oid = None \<longrightarrow> length (cache s1) < cap"
    by (elim exE conjE) (rule that)
  note I = data_okD [OF s1(2)]
  obtain e where e: "put_entry env oid v s1 = Some (Ok () (set_entry oid e s1))"
      "cached e" "obj e = v" "dirty e"
  proof (cases "map_of (cache s1) oid")
    case None
    then show ?thesis using that s1(3,6) by (auto simp: put_entry_def cache_entry_new_def track_ok_def)
  next
    case (Some e)
    then have "cached e" using I(4) [OF Some] q by (auto simp: entry_ok_def split: if_splits)
    then show ?thesis using that Some by (auto simp: put_entry_def)
  qed
  let ?s = "set_entry oid e s1"
  have t2: "track_ok tracked einv cap ?s {}"
    by (rule track_ok_add [OF s1(3)]) (simp_all add: set_entry_def)
  obtain st a2 where s2: "put env oid v s = Some (Ok () (?s\<lparr>store := st\<rparr>))" "R st a2 F W1 n"
      "view a2 = (if defer_writes s then view a1 else (view a1)(oid \<mapsto> v))"
  proof (cases "defer_writes s")
    case True
    then have "put env oid v s = Some (Ok () ?s)"
      using s1(1,5) e(1) env(2) by (simp add: put_def bindW_assoc [symmetric] set_entry_def)
    then show ?thesis using that [of "store s1" a1] True os_less [OF I(1)] by (simp add: set_entry_def)
  next
    case False
    obtain st a2 where st: "os_put os oid v (store s1) = Some (Ok True st)" "R st a2 F W1 n"
        "view a2 = (view a1)(oid \<mapsto> v)"
      using os_put [OF I(1) v, of oid] os_roomy [OF I(1) v, of oid] by auto
    then have "put env oid v s = Some (Ok () (?s\<lparr>store := st\<rparr>))"
      using s1(1,5) e(1) env False
      by (simp add: put_def bindW_assoc [symmetric] set_entry_def on_store_def)
    then show ?thesis using that st False by simp
  qed
  have "data_ok R view valid (?s\<lparr>store := st\<rparr>) (L(oid \<mapsto> v)) Q D a2 F W1 n"
  proof (rule data_okI, goal_cases)
    case (3 x)
    then show ?case using I(3) [of x] s2(3) by (auto simp: set_entry_def split: if_splits)
  next
    case (4 x ex)
    then show ?case using I(4) [of x ex] s2(3) e(2-4) D s1(5)
      by (auto simp: set_entry_def entry_ok_def split: if_splits)
  next
    case (5 x w)
    then show ?case using I(5) [of x w] v by (auto split: if_splits)
  qed (use I s2(2) in \<open>auto simp: set_entry_def\<close>)
  with t2 s2(1) s1(4,5) off show ?thesis
    by (intro exI [of _ "?s\<lparr>store := st\<rparr>"]) (auto simp: coherent_def track_ok_def set_entry_def)
qed

lemma remove_coherent:
  assumes c: "coherent R view valid tracked einv cap s L Q D (Suc n)"
    and env: "ce_os env = os" "ce_ep env = ep"
  shows "\<exists>s'. remove env oid s = Some (Ok () s') \<and> defer_writes s' = defer_writes s
           \<and> coherent R view valid tracked einv cap s' (L(oid := None)) (Q - {oid}) D n"
proof -
  obtain a F W where d: "data_ok R view valid s L Q D a F W (Suc n)"
      and t: "track_ok tracked einv cap s {}" and off: "prefetch_policy s = OffPolicy"
    using c by (auto simp: coherent_def)
  note I = data_okD [OF d]
  obtain st a' where st: "os_remove os oid (store s) = Some (Ok (view a oid \<noteq> None) st)" "R st a' F W n"
      "view a' = (view a)(oid := None)"
    using os_remove [OF I(1), of oid] by (elim exE conjE) (rule that)
  obtain e' where e': "ep_remove ep oid (evp s) = Ok () e'" "einv e'" "tracked e' = tracked (evp s) - {oid}"
    using ep_remove [of "evp s" oid] t by (auto simp: track_ok_def)
  let ?s = "s\<lparr>store := st, cache := AList.delete oid (cache s), evp := e'\<rparr>"
  have "remove env oid s = Some (Ok () ?s)"
    using st(1) e'(1) env by (simp add: remove_def on_store_def on_policy_def Let_def)
  moreover have "data_ok R view valid ?s (L(oid := None)) (Q - {oid}) D a' F W n"
  proof (rule data_okI, goal_cases)
    case (3 x)
    then show ?case using I(3) [of x] st(3) by (auto split: if_splits)
  next
    case (4 x ex)
    then show ?case using I(4) [of x ex] st(3) by (auto simp: entry_ok_def split: if_splits)
  next
    case (5 x w)
    then show ?case using I(5) [of x w] by (auto split: if_splits)
  qed (use I st(2) in auto)
  moreover have "track_ok tracked einv cap ?s {}" using t e' by (auto simp: track_ok_def)
  ultimately show ?thesis using off by (auto simp: coherent_def)
qed

lemma coherent_less:
  "coherent R view valid tracked einv cap s L Q D (Suc n) \<Longrightarrow> coherent R view valid tracked einv cap s L Q D n"
  using data_ok_less unfolding coherent_def by blast

lemma coherent_capacity:
  assumes "coherent R view valid tracked einv cap s L Q D n"
  shows "length (cache s) \<le> unat (cm_max_size s)"
proof -
  have "wf_alist (cache s)" "tracked (evp s) = dom (map_of (cache s))" "einv (evp s)"
      "unat (cm_max_size s) = cap"
    using assms by (auto simp: coherent_def data_ok_def track_ok_def)
  then show ?thesis using ep_finite [of "evp s"] card_dom_alist [of "cache s"] by simp
qed

lemma run_op_coherent:
  assumes c: "coherent R view valid tracked einv cap s L Q D (Suc (Suc n))"
    and env: "ce_os env = os" "ce_ep env = ep"
    and p: "proper valid (p # ps) L Q" and D: "defer_writes s \<longrightarrow> set (put_ids [p]) \<subseteq> D"
  shows "\<exists>s' Q'. run_op env p s = Some (Ok (fst (map_op p L)) s') \<and> defer_writes s' = defer_writes s
     \<and> coherent R view valid tracked einv cap s' (snd (map_op p L)) Q' D n
     \<and> proper valid ps (snd (map_op p L)) Q'"
proof (cases p)
  case (OpGet oid)
  then obtain v where "L oid = Some v" using p by auto
  with get_coherent [OF c env this] OpGet p show ?thesis by (auto simp: run_op_def)
next
  case (OpPut oid v)
  then show ?thesis using put_coherent [OF c env, of v oid] p D by (auto simp: run_op_def)
next
  case (OpPrefetch oid)
  then show ?thesis using prefetch_coherent [OF c env, of oid] p by (auto simp: run_op_def)
next
  case (OpRemove oid)
  then show ?thesis using remove_coherent [OF coherent_less [OF c] env, of oid] p
    by (auto simp: run_op_def)
qed

lemma run_ops_coherent:
  assumes "coherent R view valid tracked einv cap s L Q D (2 * length ps + n)"
    and env: "ce_os env = os" "ce_ep env = ep"
    and "proper valid ps L Q" and "defer_writes s \<longrightarrow> set (put_ids ps) \<subseteq> D"
  shows "\<exists>s' Q'. run_ops env ps s = Some (Ok (fst (map_ops ps L)) s')
     \<and> coherent R view valid tracked einv cap s' (snd (map_ops ps L)) Q' D n"
  using assms
proof (induction ps arbitrary: s L Q)
  case (Cons p ps)
  have c: "coherent R view valid tracked einv cap s L Q D (Suc (Suc (2 * length ps + n)))"
    using Cons.prems(1) by simp
  have "defer_writes s \<longrightarrow> set (put_ids [p]) \<subseteq> D" "defer_writes s \<longrightarrow> set (put_ids ps) \<subseteq> D"
    using Cons.prems(5) by (cases p; simp)+
  with run_op_coherent [OF c env Cons.prems(4)] obtain s1 Q1 where
      1: "run_op env p s = Some (Ok (fst (map_op p L)) s1)" "defer_writes s1 \<longrightarrow> set (put_ids ps) \<subseteq> D"
        "coherent R view valid tracked einv cap s1 (snd (map_op p L)) Q1 D (2 * length ps + n)"
        "proper valid ps (snd (map_op p L)) Q1"
    by auto
  from Cons.IH [OF 1(3) env 1(4,2)] 1(1) show ?case
    by (auto simp: split_def Let_def)
qed auto

subsection \<open>Calls that break the promise\<close>

lemma policy_hit:
  assumes "track_ok tracked einv cap s X" "oid \<in> dom (map_of (cache s)) \<union> X"
  shows "\<exists>e'. ep_get ep oid (evp s) = Ok [] e' \<and> einv e' \<and> tracked e' = tracked (evp s)"
  using assms ep_get [of "evp s" oid] by (fastforce simp: track_ok_def admits_def)

text \<open>A get of an object that does not exist leaves a default entry behind.\<close>

lemma get_missing_then_default:
  assumes c: "coherent R view valid tracked einv cap s L Q D (Suc (Suc n))"
    and env: "ce_os env = os" "ce_ep env = ep" and v: "L oid = None" "oid \<notin> Q"
  shows "\<exists>s' s''. get env oid s = Some (Throw no_such_id s') \<and> get env oid s' = Some (Ok (ce_default env) s'')"
proof -
  obtain a F W where d: "data_ok R view valid s L Q D a F W (Suc (Suc n))"
      and t: "track_ok tracked einv cap s {}" and off: "prefetch_policy s = OffPolicy"
    using c by (auto simp: coherent_def)
  have "map_of (cache s) oid = None"
    using data_okD(4) [OF d, of oid] v by (cases "map_of (cache s) oid") (auto simp: entry_ok_def split: if_splits)
  moreover have "admits tracked einv oid (ep_get ep oid (evp s)) (evp s)"
    using ep_get t by (simp add: track_ok_def)
  from make_room [where f = "ep_get ep oid", OF d t this env(1)] obtain s1 a1 W1 where
      s1: "bindW (on_policy (ep_get ep oid) s) (evict_vector env) = Some (Ok () s1)"
        "data_ok R view valid s1 L Q D a1 F W1 (Suc n)" "track_ok tracked einv cap s1 {oid}"
        "prefetch_policy s1 = prefetch_policy s" "defer_writes s1 = defer_writes s"
        "map_of (cache s1) oid = map_of (cache s) oid"
        "map_of (cache s1) oid = None \<longrightarrow> length (cache s1) < cap"
    by (elim exE conjE) (rule that)
  moreover obtain s2 where s2: "await_write env oid s1 = Some (Ok () s2)"
      "data_ok R view valid s2 L Q D a1 F W1 (Suc n)" "cache s2 = cache s1" "same_config s1 s2"
      "defer_writes s1 \<longrightarrow> map_of (pending_writes s2) oid = None"
    using await_ok [OF s1(2) env(1), of oid] by (elim exE conjE) (rule that)
  ultimately have none: "map_of (cache s2) oid = None" "length (cache s2) < unat (cm_max_size s2)"
    by (simp_all add: track_ok_def same_config_def)
  have "view a1 oid = None" using data_okD(3) [OF s2(2) none(1)] v(1) by simp
  then obtain st where st: "os_get os oid (store s2) = Some (Throw no_such_id st)"
    using os_get [OF data_okD(1) [OF s2(2)], of oid] by auto
  let ?s = "set_entry oid (cache_entry_new (ce_default env)) (s2\<lparr>store := st\<rparr>)"
  have g: "get env oid s = Some (Throw no_such_id ?s)"
    using s1(1) s2(1) none st env
    by (simp add: get_def lookup_entry_def on_store_def set_entry_def Let_def bindW_assoc [symmetric])
  have "track_ok tracked einv cap ?s {}"
    using s1(3) s2(3,4) by (intro track_ok_add [OF s1(3)]) (simp_all add: set_entry_def same_config_def)
  then obtain e' where e': "ep_get ep oid (evp s2) = Ok [] e'"
    using policy_hit [of ?s "{}" oid] by (auto simp: set_entry_def)
  have "get env oid ?s = Some (Ok (ce_default env) (?s\<lparr>evp := e'\<rparr>))"
    using s1(4,5) s2(4,5) off env(2) e'
    by (simp add: get_def on_policy_def set_entry_def await_write_def lookup_entry_def policy_get_def
        cache_entry_new_def same_config_def get_prefetch_def)
  with g show ?thesis by blast
qed

text \<open>A put on an object that is being prefetched is undone by the next get.\<close>

lemma put_over_prefetch_lost:
  assumes c: "coherent R view valid tracked einv cap s L Q D (Suc (Suc (Suc (Suc n))))"
    and env: "ce_os env = os" "ce_ep env = ep"
    and new: "map_of (cache s) oid = None" and v: "valid v" and old: "L oid = Some w"
    and wt: "\<not> defer_writes s"
  shows "\<exists>s1 s2 s3. prefetch env oid s = Some (Ok () s1) \<and> put env oid v s1 = Some (Ok () s2)
           \<and> get env oid s2 = Some (Ok w s3)"
proof -
  obtain s1 e where s1: "prefetch env oid s = Some (Ok () s1)" "defer_writes s1 = defer_writes s"
      "coherent R view valid tracked einv cap s1 L (insert oid Q) D (Suc (Suc n))"
      "map_of (cache s1) oid = Some e" "\<not> cached e"
    using prefetch_coherent [OF c env, of oid] new by auto
  then obtain a F W where d: "data_ok R view valid s1 L (insert oid Q) D a F W (Suc (Suc n))"
      and t: "track_ok tracked einv cap s1 {}" and off: "prefetch_policy s1 = OffPolicy"
    by (auto simp: coherent_def)
  obtain g where g: "future e = Some g" "F g = Some (Some w)"
    using data_okD(4) [OF d s1(4)] s1(5) old by (auto simp: entry_ok_def)
  have "admits tracked einv oid (ep_put ep oid (evp s1)) (evp s1)"
    using ep_put_admits t by (simp add: track_ok_def)
  from make_room [where f = "ep_put ep oid", OF d t this env(1)] obtain s2 a2 W2 where
      s2: "bindW (on_policy (ep_put ep oid) s1) (evict_vector env) = Some (Ok () s2)"
        "data_ok R view valid s2 L (insert oid Q) D a2 F W2 (Suc n)" "track_ok tracked einv cap s2 {oid}"
        "prefetch_policy s2 = prefetch_policy s1" "defer_writes s2 = defer_writes s1"
        "map_of (cache s2) oid = map_of (cache s1) oid"
    by (elim exE conjE) (rule that)
  obtain st a3 where st: "os_put os oid v (store s2) = Some (Ok True st)" "R st a3 F W2 n"
    using os_put [OF data_okD(1) [OF s2(2)] v, of oid] os_roomy [OF data_okD(1) [OF s2(2)] v, of oid] by auto
  obtain st' where st': "getf_get os g st = Some (Ok w st')" using getf_get [OF st(2) g(2)] by auto
  let ?e = "e\<lparr>obj := v, dirty := True\<rparr>"
  let ?s = "(set_entry oid ?e s2)\<lparr>store := st\<rparr>"
  have p: "put env oid v s1 = Some (Ok () ?s)"
    using s2(1,5,6) s1(2,4) env wt st(1)
    by (simp add: put_def put_entry_def on_store_def set_entry_def bindW_assoc [symmetric])
  have "track_ok tracked einv cap ?s {}"
    by (rule track_ok_add [OF s2(3)]) (simp_all add: set_entry_def)
  then obtain e' where e': "ep_get ep oid (evp s2) = Ok [] e'"
    using policy_hit [of ?s "{}" oid] by (auto simp: set_entry_def)
  have "\<exists>s3. get env oid ?s = Some (Ok w s3)"
    using s1(2,5) s2(4,5) off wt env e' g(1) st'
    by (simp add: get_def on_policy_def set_entry_def await_write_def lookup_entry_def policy_get_def on_store_def
        get_prefetch_def)
  with s1(1) p show ?thesis by blast
qed

text \<open>Prefetching into a cache of one entry evicts the entry that is about to be returned.\<close>

lemma ordered_prefetch_dangles:
  assumes c: "coherent R view valid tracked einv cap s L Q D (Suc (Suc (Suc (Suc n))))"
    and env: "ce_os env = os" "ce_ep env = ep" and one: "cap = 1"
    and m: "setMode_ordered kOrdered f l 1 s = Ok () s'"
    and r: "f < l" "f \<le> oid" "oid \<le> l" "unat (l - f) + 2 < 2 ^ 64" and v: "L oid = Some v"
  shows "get env oid s' = Some Undef"
proof -
  obtain a F W where d0: "data_ok R view valid s L Q D a F W (Suc (Suc (Suc (Suc n))))"
      and t0: "track_ok tracked einv cap s {}"
    using c by (auto simp: coherent_def)
  have s': "s' = s\<lparr>ordered_policy := \<lparr>read_ahead = 1, op_first = f, op_last = l\<rparr>, prefetch_policy := OrderedPolicy\<rparr>"
    using m r(1) by (auto simp: setMode_ordered_def setRange_def setReadAhead_def split: if_splits)
  have "data_ok R view valid s' L Q D a F W (Suc (Suc (Suc (Suc n))))" "track_ok tracked einv cap s' {}"
    using d0 t0 by (simp_all add: s' data_ok_def track_ok_def)
  from get_fetch [OF this env v] obtain s3 a1 W1 where
      s3: "get env oid s' = get_prefetch env oid v s3" "data_ok R view valid s3 L Q D a1 F W1 (Suc (Suc n))"
        "track_ok tracked einv cap s3 {}" "prefetch_policy s3 = prefetch_policy s'"
        "ordered_policy s3 = ordered_policy s'"
    by (elim exE conjE) (rule that)
  let ?op = "ordered_policy s3"
  have op: "read_ahead ?op = 1" "op_first ?op = f" "op_last ?op = l" using s3(5) s' by simp_all
  have "0 < unat (l - f)" using r(1) by (simp add: unat_gt_0)
  then obtain x where x: "ordered_get ?op oid s3 = Ok [x] s3" "x \<noteq> oid"
    using ordered_get_list [of ?op oid "Suc (unat (l - f))" s3] r(2-4) op by (auto simp: min_def)
  have "admits tracked einv x (ep_prefetch ep x (evp s3)) (evp s3)"
    using ep_prefetch s3(3) by (simp add: track_ok_def)
  from make_room [where f = "ep_prefetch ep x", OF s3(2,3) this env(1)] obtain s4 a2 W2 where
      s4: "bindW (on_policy (ep_prefetch ep x) s3) (evict_vector env) = Some (Ok () s4)"
        "data_ok R view valid s4 L Q D a2 F W2 (Suc n)" "track_ok tracked einv cap s4 {x}"
    by (elim exE conjE) (rule that)
  have "tracked (evp s4) = insert x (dom (map_of (cache s4)))" "finite (tracked (evp s4))"
      "card (tracked (evp s4)) \<le> 1"
    using s4(3) ep_finite [of "evp s4"] one by (auto simp: track_ok_def)
  then have "dom (map_of (cache s4)) \<subseteq> {x}"
    by (metis card_le_Suc0_iff_eq One_nat_def insertI1 insertI2 singletonI subsetI)
  then have gone: "map_of (cache s4) oid = None" using x(2) by auto
  obtain st g where g: "os_get_async os x (store s4) = Some (Ok g st)"
    using os_get_async [OF data_okD(1) [OF s4(2)], of x] by auto
  have "\<exists>s5. prefetch_fetch env x s4 = Some (Ok () s5)"
    using g env(1) by (auto simp: prefetch_fetch_def on_store_def Let_def)
  moreover have "prefetch_evict env x s3 = Some (Ok () s4)"
    using s4(1) env(2) by (simp add: prefetch_evict_def)
  ultimately show ?thesis
    using s3(1,4) s' x(1) gone by (auto simp: get_prefetch_def policy_get_def)
qed

end

end
