(* ===== verification/Graph_Vertex.thy ===== *)
theory Graph_Vertex
  imports Cirrus_Serializer
begin

text \<open>
  The vertices of the two graph programs under \<^verbatim>\<open>src/examples/graphs\<close>, \<^verbatim>\<open>wcc/Vertex.h\<close>,
  \<^verbatim>\<open>wcc/Vertex.cpp\<close>, \<^verbatim>\<open>page_rank/Vertex.h\<close> and \<^verbatim>\<open>page_rank/Vertex.cpp\<close>, with the
  serializers and deserializers they give to the store. These are the serializers on which
  the contract \<open>object_serializer\<close> is interpreted.
\<close>

section \<open>Sets of integers\<close>

text \<open>
  \<^verbatim>\<open>std::set<int>\<close> is the list of its elements in the order of iteration, which is
  increasing as signed integers.
\<close>

definition sless :: "u32 \<Rightarrow> u32 \<Rightarrow> bool" where
  "sless a b \<longleftrightarrow> sint a < sint b"

fun set_add :: "u32 \<Rightarrow> u32 list \<Rightarrow> u32 list" where
  "set_add x [] = [x]"
| "set_add x (y # ys) = (if x = y then y # ys else if sless x y then x # y # ys else y # set_add x ys)"

lemma sless_trans: "sless a b \<Longrightarrow> sless b c \<Longrightarrow> sless a c"
  by (simp add: sless_def)

lemma sless_irrefl [simp]: "\<not> sless a a"
  by (simp add: sless_def)

lemma sless_linear: "a \<noteq> b \<Longrightarrow> sless a b \<or> sless b a"
  unfolding sless_def by (metis linorder_neqE signed_word_eqI)

lemma set_set_add [simp]: "set (set_add x xs) = insert x (set xs)"
  by (induction xs) auto

lemma sorted_set_add: "sorted_wrt sless xs \<Longrightarrow> sorted_wrt sless (set_add x xs)"
proof (induction xs)
  case (Cons y ys)
  then show ?case using sless_linear [of x y] by (auto intro: sless_trans)
qed simp

lemma set_add_last:
  "sorted_wrt sless (xs @ [x]) \<Longrightarrow> set_add x xs = xs @ [x]"
proof (induction xs)
  case (Cons y ys)
  then have "sless y x" by simp
  then have "x \<noteq> y" "\<not> sless x y" by (auto simp: sless_def)
  with Cons show ?case by simp
qed simp

section \<open>Arrays of integers in network order\<close>

definition be32 :: "u32 \<Rightarrow> byte list" where
  "be32 w = store32 (htonl w)"

lemma length_be32 [simp]: "length (be32 w) = 4"
  by (simp add: be32_def)

lemma load_be32 [simp]: "ntohl (load32 (be32 w)) = w"
  by (simp add: be32_def)

lemma length_concat_be32 [simp]: "length (concat (map be32 ns)) = 4 * length ns"
  by (induction ns) simp_all

text \<open>The loop of the deserializers: \<open>n\<close> more integers to read, each added to the set.\<close>

fun read_neighbors :: "nat \<Rightarrow> byte list \<Rightarrow> u32 list \<Rightarrow> (u32 list, unit) outcome" where
  "read_neighbors 0 ptr ns = Ok ns ()"
| "read_neighbors (Suc n) ptr ns =
     (if length ptr < 4 then Undef
      else read_neighbors n (drop 4 ptr) (set_add (ntohl (load32 (take 4 ptr))) ns))"

lemma read_neighbors_be32:
  assumes "sorted_wrt sless (ns @ ms)"
  shows "read_neighbors (length ms) (concat (map be32 ms) @ rest) ns = Ok (ns @ ms) ()"
  using assms
proof (induction ms arbitrary: ns)
  case (Cons m ms)
  have "set_add m ns = ns @ [m]"
    using Cons.prems by (intro set_add_last) (auto simp: sorted_wrt_append)
  then show ?case using Cons.IH [of "ns @ [m]"] Cons.prems by simp
qed simp

text \<open>Reading \<open>n\<close> integers needs \<open>n\<close> of them: otherwise it reads past the end.\<close>

lemma read_neighbors_short:
  "length ptr < 4 * n \<Longrightarrow> read_neighbors n ptr ns = Undef"
  by (induction n arbitrary: ptr ns) auto

section \<open>Weakly connected components\<close>

record wcc_vertex =
  wv_seen :: bool
  wv_cc :: u32
  wv_neighbors :: "u32 list"
  wv_id :: u32

definition wcc_Vertex :: "u32 \<Rightarrow> wcc_vertex" where
  "wcc_Vertex i = \<lparr>wv_seen = False, wv_cc = - 1, wv_neighbors = [], wv_id = i\<rparr>"

definition wcc_addNeighbor :: "u32 \<Rightarrow> wcc_vertex \<Rightarrow> wcc_vertex" where
  "wcc_addNeighbor i v = v\<lparr>wv_neighbors := set_add i (wv_neighbors v)\<rparr>"

fun wcc_setNeighbors :: "u32 list \<Rightarrow> wcc_vertex \<Rightarrow> wcc_vertex" where
  "wcc_setNeighbors [] v = v"
| "wcc_setNeighbors (i # is') v = wcc_setNeighbors is' (wcc_addNeighbor i v)"

definition wcc_Vertex_list :: "u32 \<Rightarrow> u32 list \<Rightarrow> wcc_vertex" where
  "wcc_Vertex_list i ns = wcc_setNeighbors ns (wcc_Vertex i)"

definition wcc_getNeighbors :: "wcc_vertex \<Rightarrow> u32 list" where
  "wcc_getNeighbors v = wv_neighbors v"

definition wcc_getNeighborsSize :: "wcc_vertex \<Rightarrow> u64" where
  "wcc_getNeighborsSize v = word_of_nat (length (wv_neighbors v))"

definition wcc_getId :: "wcc_vertex \<Rightarrow> u32" where
  "wcc_getId v = wv_id v"

definition wcc_setId :: "u32 \<Rightarrow> wcc_vertex \<Rightarrow> wcc_vertex" where
  "wcc_setId i v = v\<lparr>wv_id := i\<rparr>"

definition wcc_hasNeighbor :: "u32 \<Rightarrow> wcc_vertex \<Rightarrow> bool" where
  "wcc_hasNeighbor i v \<longleftrightarrow> i \<in> set (wv_neighbors v)"

definition wcc_size :: "wcc_vertex \<Rightarrow> u64" where
  "wcc_size v = 4 * 2 + 4 * wcc_getNeighborsSize v"

definition wcc_serialize :: "wcc_vertex \<Rightarrow> byte list" where
  "wcc_serialize v =
     be32 (wcc_getId v) @ be32 (ucast (wcc_getNeighborsSize v)) @ concat (map be32 (wcc_getNeighbors v))"

definition wcc_serializer :: "wcc_vertex serializer" where
  "wcc_serializer = \<lparr>ser_size = wcc_size, ser_bytes = wcc_serialize\<rparr>"

text \<open>
  The deserializer reads the two integers before it looks at the size; the expected size is
  computed from \<open>2 + n\<close> in 32 bits and cut to 32 bits again.
\<close>

definition wcc_deserializer :: "wcc_vertex deserializer" where
  "wcc_deserializer data =
     (if length data < 8 then Undef
      else
        let v = wcc_setId (ntohl (load32 (take 4 data))) (wcc_Vertex 0);
            n = ntohl (load32 (take 4 (drop 4 data)));
            expected_size = ucast (4 * (ucast (2 + n) :: u64)) :: u32
        in if (word_of_nat (length data) :: u32) \<noteq> expected_size
           then Throw (runtime_error ''Incorrect size'') ()
           else bindO (read_neighbors (unat n) (drop 8 data) (wv_neighbors v))
                  (\<lambda>ns _. Ok (v\<lparr>wv_neighbors := ns\<rparr>) ()))"

text \<open>The vertices that survive: not yet visited, and small enough for a message.\<close>

definition wcc_valid :: "wcc_vertex \<Rightarrow> bool" where
  "wcc_valid v \<longleftrightarrow> \<not> wv_seen v \<and> wv_cc v = - 1 \<and> sorted_wrt sless (wv_neighbors v)
     \<and> length (wv_neighbors v) < 2 ^ 28 - 2"

lemma vertex_sizes:
  assumes "n < 2 ^ 28"
  shows "(ucast (word_of_nat n :: u64) :: u32) = word_of_nat n"
    and "unat (word_of_nat n :: u32) = n"
    and "unat (8 + 4 * word_of_nat n :: u64) = 8 + 4 * n"
    and "4 * (ucast (2 + word_of_nat n :: u32) :: u64) = 8 + 4 * word_of_nat n"
proof -
  show "(ucast (word_of_nat n :: u64) :: u32) = word_of_nat n"
    using assms by (simp add: word_unat_eq_iff unsigned_ucast_eq unat_of_nat take_bit_eq_mod)
  show "unat (word_of_nat n :: u32) = n" using assms by (simp add: unat_of_nat)
  show u: "unat (8 + 4 * word_of_nat n :: u64) = 8 + 4 * n"
    using assms by (simp add: unat_word_ariths unat_of_nat)
  have "unat (ucast (2 + word_of_nat n :: u32) :: u64) = 2 + n"
    using assms by (simp add: unsigned_ucast_eq take_bit_eq_mod unat_word_ariths unat_of_nat)
  then have "unat (4 * (ucast (2 + word_of_nat n :: u32) :: u64)) = 8 + 4 * n"
    using assms by (simp add: unat_word_ariths)
  with u show "4 * (ucast (2 + word_of_nat n :: u32) :: u64) = 8 + 4 * word_of_nat n"
    by (simp add: word_unat_eq_iff)
qed

lemma word_of_unat_u32: "(word_of_nat (unat (w :: u64)) :: u32) = ucast w"
  by simp

lemma wcc_deserialize_serialize:
  assumes "sorted_wrt sless (wv_neighbors v)" "length (wv_neighbors v) < 2 ^ 28"
  shows "wcc_deserializer (wcc_serialize v) = Ok (v\<lparr>wv_seen := False, wv_cc := - 1\<rparr>) ()"
proof -
  let ?n = "length (wv_neighbors v)"
  note S = vertex_sizes [OF assms(2)]
  have ser: "wcc_serialize v = be32 (wv_id v) @ be32 (word_of_nat ?n) @ concat (map be32 (wv_neighbors v))"
    by (simp add: wcc_serialize_def wcc_getId_def wcc_getNeighborsSize_def wcc_getNeighbors_def S(1))
  have len: "word_of_nat (length (wcc_serialize v)) = (ucast (8 + 4 * word_of_nat ?n :: u64) :: u32)"
    using word_of_unat_u32 [of "8 + 4 * word_of_nat ?n"] S(3) by (simp add: ser)
  have rd: "read_neighbors ?n (concat (map be32 (wv_neighbors v))) [] = Ok (wv_neighbors v) ()"
    using read_neighbors_be32 [of "[]" "wv_neighbors v" "[]"] assms(1) by simp
  have "wcc_deserializer (wcc_serialize v) =
      Ok ((wcc_setId (wv_id v) (wcc_Vertex 0))\<lparr>wv_neighbors := wv_neighbors v\<rparr>) ()"
    unfolding wcc_deserializer_def Let_def len
    by (simp add: ser S rd wcc_setId_def wcc_Vertex_def)
  then show ?thesis by (simp add: wcc_setId_def wcc_Vertex_def)
qed

interpretation wcc: object_serializer wcc_serializer wcc_deserializer wcc_valid
proof
  fix v assume v: "wcc_valid v"
  then have n: "length (wv_neighbors v) < 2 ^ 28" by (simp add: wcc_valid_def)
  show "length (ser_bytes wcc_serializer v) = unat (ser_size wcc_serializer v)"
    using vertex_sizes(3) [OF n]
    by (simp add: wcc_serializer_def wcc_serialize_def wcc_size_def wcc_getNeighborsSize_def wcc_getNeighbors_def)
  show "unat (ser_size wcc_serializer v) < 2 ^ 30"
    using vertex_sizes(3) [OF n] v
    by (simp add: wcc_serializer_def wcc_size_def wcc_getNeighborsSize_def wcc_valid_def)
  show "wcc_deserializer (ser_bytes wcc_serializer v) = Ok v ()"
    using wcc_deserialize_serialize [OF _ n] v by (simp add: wcc_serializer_def wcc_valid_def)
qed

section \<open>PageRank\<close>

text \<open>A \<^verbatim>\<open>double\<close> is its 64 bits: the serializer copies them and computes nothing.\<close>

record pr_vertex =
  pv_neighbors :: "u32 list"
  pv_id :: u32
  p_curr :: u64
  p_next :: u64

text \<open>The bits of \<open>1.0\<close>.\<close>

definition double_one :: u64 where
  "double_one = 0x3FF0000000000000"

definition pr_Vertex :: "u32 \<Rightarrow> pr_vertex" where
  "pr_Vertex i = \<lparr>pv_neighbors = [], pv_id = i, p_curr = double_one, p_next = 0\<rparr>"

definition pr_addNeighbor :: "u32 \<Rightarrow> pr_vertex \<Rightarrow> pr_vertex" where
  "pr_addNeighbor i v = v\<lparr>pv_neighbors := set_add i (pv_neighbors v)\<rparr>"

fun pr_setNeighbors :: "u32 list \<Rightarrow> pr_vertex \<Rightarrow> pr_vertex" where
  "pr_setNeighbors [] v = v"
| "pr_setNeighbors (i # is') v = pr_setNeighbors is' (pr_addNeighbor i v)"

definition pr_Vertex_list :: "u32 \<Rightarrow> u32 list \<Rightarrow> pr_vertex" where
  "pr_Vertex_list i ns = pr_setNeighbors ns (pr_Vertex i)"

definition pr_getNeighbors :: "pr_vertex \<Rightarrow> u32 list" where
  "pr_getNeighbors v = pv_neighbors v"

definition pr_getNeighborsSize :: "pr_vertex \<Rightarrow> u64" where
  "pr_getNeighborsSize v = word_of_nat (length (pv_neighbors v))"

definition pr_getId :: "pr_vertex \<Rightarrow> u32" where
  "pr_getId v = pv_id v"

definition pr_setId :: "u32 \<Rightarrow> pr_vertex \<Rightarrow> pr_vertex" where
  "pr_setId i v = v\<lparr>pv_id := i\<rparr>"

definition pr_hasNeighbor :: "u32 \<Rightarrow> pr_vertex \<Rightarrow> bool" where
  "pr_hasNeighbor i v \<longleftrightarrow> i \<in> set (pv_neighbors v)"

definition pr_setCurrProb :: "u64 \<Rightarrow> pr_vertex \<Rightarrow> pr_vertex" where
  "pr_setCurrProb p v = v\<lparr>p_curr := p\<rparr>"

definition pr_setNextProb :: "u64 \<Rightarrow> pr_vertex \<Rightarrow> pr_vertex" where
  "pr_setNextProb p v = v\<lparr>p_next := p\<rparr>"

definition pr_size :: "pr_vertex \<Rightarrow> u64" where
  "pr_size v = 4 * 2 + 8 * 2 + 4 * pr_getNeighborsSize v"

definition pr_serialize :: "pr_vertex \<Rightarrow> byte list" where
  "pr_serialize v =
     store64 (p_curr v) @ store64 (p_next v) @ be32 (pr_getId v) @ be32 (ucast (pr_getNeighborsSize v))
     @ concat (map be32 (pr_getNeighbors v))"

definition pr_serializer :: "pr_vertex serializer" where
  "pr_serializer = \<lparr>ser_size = pr_size, ser_bytes = pr_serialize\<rparr>"

definition pr_deserializer :: "pr_vertex deserializer" where
  "pr_deserializer data =
     (if length data < 24 then Undef
      else
        let v = pr_setId (ntohl (load32 (take 4 (drop 16 data))))
                  (pr_setNextProb (load64 (take 8 (drop 8 data)))
                     (pr_setCurrProb (load64 (take 8 data)) (pr_Vertex 0)));
            n = ntohl (load32 (take 4 (drop 20 data)));
            expected_size = ucast (2 * 8 + 4 * (ucast (2 + n) :: u64)) :: u32
        in if (word_of_nat (length data) :: u32) \<noteq> expected_size
           then Throw (runtime_error ''Incorrect size'') ()
           else bindO (read_neighbors (unat n) (drop 24 data) (pv_neighbors v))
                  (\<lambda>ns _. Ok (v\<lparr>pv_neighbors := ns\<rparr>) ()))"

definition pr_valid :: "pr_vertex \<Rightarrow> bool" where
  "pr_valid v \<longleftrightarrow> sorted_wrt sless (pv_neighbors v) \<and> length (pv_neighbors v) < 2 ^ 28 - 6"

lemma pr_deserialize_serialize:
  assumes "sorted_wrt sless (pv_neighbors v)" "length (pv_neighbors v) < 2 ^ 28 - 6"
  shows "pr_deserializer (pr_serialize v) = Ok v ()"
    and "length (pr_serialize v) = unat (pr_size v)" "unat (pr_size v) < 2 ^ 30"
proof -
  let ?n = "length (pv_neighbors v)"
  have small: "?n < 2 ^ 28" using assms(2) by simp
  note S = vertex_sizes [OF small]
  have u: "unat (24 + 4 * word_of_nat ?n :: u64) = 24 + 4 * ?n"
    using assms(2) by (simp add: unat_word_ariths unat_of_nat)
  have ser: "pr_serialize v = store64 (p_curr v) @ store64 (p_next v) @ be32 (pv_id v)
      @ be32 (word_of_nat ?n) @ concat (map be32 (pv_neighbors v))"
    by (simp add: pr_serialize_def pr_getId_def pr_getNeighborsSize_def pr_getNeighbors_def S(1))
  have len: "word_of_nat (length (pr_serialize v)) = (ucast (24 + 4 * word_of_nat ?n :: u64) :: u32)"
    using word_of_unat_u32 [of "24 + 4 * word_of_nat ?n"] u by (simp add: ser)
  have rd: "read_neighbors ?n (concat (map be32 (pv_neighbors v))) [] = Ok (pv_neighbors v) ()"
    using read_neighbors_be32 [of "[]" "pv_neighbors v" "[]"] assms(1) by simp
  show "length (pr_serialize v) = unat (pr_size v)" "unat (pr_size v) < 2 ^ 30"
    using u assms(2) by (simp_all add: ser pr_size_def pr_getNeighborsSize_def)
  have e: "2 * 8 + 4 * (ucast (2 + word_of_nat ?n :: u32) :: u64) = 24 + 4 * word_of_nat ?n"
    unfolding S(4) by simp
  show "pr_deserializer (pr_serialize v) = Ok v ()"
    unfolding pr_deserializer_def Let_def len
    by (simp add: ser e [simplified] S(2) rd pr_setId_def pr_setCurrProb_def pr_setNextProb_def pr_Vertex_def)
qed

interpretation pr: object_serializer pr_serializer pr_deserializer pr_valid
proof
  fix v assume "pr_valid v"
  then have v: "sorted_wrt sless (pv_neighbors v)" "length (pv_neighbors v) < 2 ^ 28 - 6"
    by (simp_all add: pr_valid_def)
  show "length (ser_bytes pr_serializer v) = unat (ser_size pr_serializer v)"
    "unat (ser_size pr_serializer v) < 2 ^ 30" "pr_deserializer (ser_bytes pr_serializer v) = Ok v ()"
    using pr_deserialize_serialize [OF v] by (simp_all add: pr_serializer_def)
qed

section \<open>Properties\<close>

text \<open>
  C19. Every vertex of PageRank with a bounded number of neighbours comes back from its
  serialized form unchanged, with the announced size.
\<close>

theorem pr_roundtrip:
  assumes "pr_valid v"
  shows "pr_deserializer (pr_serialize v) = Ok v () \<and> length (pr_serialize v) = unat (pr_size v)"
  using pr_deserialize_serialize [of v] assms by (simp add: pr_valid_def)

lemma pr_roundtrip_witness:
  "pr_deserializer (pr_serialize (pr_Vertex_list 3 [5, 2, 5])) = Ok (pr_Vertex_list 3 [2, 5]) ()"
proof -
  have v: "pr_Vertex_list 3 [5, 2, 5] = pr_Vertex_list 3 [2, 5]" "pr_valid (pr_Vertex_list 3 [2, 5])"
    by (simp_all add: pr_Vertex_list_def pr_addNeighbor_def pr_Vertex_def sless_def pr_valid_def)
  show ?thesis using pr_roundtrip [OF v(2)] v(1) by simp
qed

text \<open>
  The serializer of the connected components drops the two fields the algorithm works
  with: a vertex that was visited and labelled comes back unvisited and unlabelled.
\<close>

lemma wcc_forgets_progress:
  assumes "sorted_wrt sless (wv_neighbors v)" "length (wv_neighbors v) < 2 ^ 28"
  shows "\<exists>u. wcc_deserializer (wcc_serialize v) = Ok u () \<and> \<not> wv_seen u \<and> wv_cc u = - 1
     \<and> wv_id u = wv_id v \<and> wv_neighbors u = wv_neighbors v"
  using wcc_deserialize_serialize [OF assms] by simp

lemma wcc_forgets_progress_witness:
  "\<exists>u. wcc_deserializer (wcc_serialize ((wcc_Vertex 7)\<lparr>wv_seen := True, wv_cc := 1\<rparr>)) = Ok u ()
     \<and> \<not> wv_seen u"
  using wcc_forgets_progress [of "(wcc_Vertex 7)\<lparr>wv_seen := True, wv_cc := 1\<rparr>"]
  by (auto simp: wcc_Vertex_def)

text \<open>
  C39. The size check of the deserializer wraps around: eight bytes that announce \<open>2 ^ 30\<close>
  neighbours pass it, and the loop reads past the end of the data.
\<close>

theorem wcc_deserializer_overreads:
  "wcc_deserializer (be32 i @ be32 (2 ^ 30)) = Undef"
proof -
  have "read_neighbors (2 ^ 30) [] ns = Undef" for ns
    by (rule read_neighbors_short) simp
  moreover have "unat (2 ^ 30 :: u32) = 2 ^ 30" by simp
  ultimately show ?thesis
    by (simp add: wcc_deserializer_def Let_def)
qed

end
