(* ===== verification/Cache_System.thy ===== *)
theory Cache_System
  imports Cache_Coherence Graph_Vertex
begin

text \<open>
  The whole client stack: a cache with the policy \<^verbatim>\<open>LRAddedEvictionPolicy\<close> on a
  \<^verbatim>\<open>FullBladeObjectStore\<close> whose client session talks to a server with the in-memory
  backend. The contracts of the components are put together here, once for any serializer
  and once, without hypotheses, for the vertices of the graph programs.
\<close>

section \<open>Putting the contracts together\<close>

definition fb_cache_env ::
  "('b, 't) full_blade \<Rightarrow> 't \<Rightarrow> (ObjectID \<Rightarrow> 't \<Rightarrow> 'c \<Rightarrow> (ObjectID list, 'c) outcome)
    \<Rightarrow> ('b session, 't, nat, nat, lradded, 'c) cache_env" where
  "fb_cache_env fb d cust = \<lparr>ce_os = fb_ostore fb, ce_ep = lra_policy, ce_custom = cust, ce_default = d\<rparr>"

lemma fb_cache_env_simps [simp]:
  "ce_os (fb_cache_env fb d cust) = fb_ostore fb" "ce_ep (fb_cache_env fb d cust) = lra_policy"
  "ce_default (fb_cache_env fb d cust) = d"
  by (simp_all add: fb_cache_env_def)

text \<open>The relation of the store below and the invariant of a cache on it.\<close>

abbreviation mem_R ::
  "(memory_backend, 't) full_blade \<Rightarrow> ('t \<Rightarrow> bool) \<Rightarrow> memory_backend session \<Rightarrow> abs_server
    \<Rightarrow> (nat \<rightharpoonup> 't option) \<Rightarrow> (nat \<rightharpoonup> bool) \<Rightarrow> nat \<Rightarrow> bool" where
  "mem_R fb valid \<equiv> fb_ample_R memory_kv memory_inv fb valid"

definition stack_ok :: "(memory_backend, 't) full_blade \<Rightarrow> ('t \<Rightarrow> bool) \<Rightarrow> bool" where
  "stack_ok fb valid \<longleftrightarrow> flatbuffers_documented (fb_enc fb) (fb_dec fb) \<and> fb_vt fb = memory_vt
     \<and> object_serializer (serializer fb) (deserializer fb) valid"

lemma stack_store:
  "stack_ok fb valid \<Longrightarrow>
     roomy_store (fb_ostore fb) (mem_R fb valid) (fb_view (deserializer fb)) (fb_room (serializer fb)) valid"
  using mb.full_blade_roomy [of fb valid] by (simp add: stack_ok_def)

lemma stack_cache:
  assumes "stack_ok fb valid" "0 < cap"
  shows "coherent_cache (fb_ostore fb) (mem_R fb valid) (fb_view (deserializer fb)) (fb_room (serializer fb))
           valid lra_policy object_set (lra_invar cap) cap"
  using mb.full_blade_roomy assms lra_tracking [of cap]
  by (auto simp: stack_ok_def intro!: coherent_cache.intro)

text \<open>A cache is coherent with what the server holds when it is constructed.\<close>

definition fresh_cache ::
  "(memory_backend, 't) full_blade \<Rightarrow> ('t \<Rightarrow> bool) \<Rightarrow> u64 \<Rightarrow> nat \<Rightarrow> abs_server
    \<Rightarrow> (memory_backend session, 't, nat, nat, lradded, 'c) cache_manager \<Rightarrow> bool" where
  "fresh_cache fb valid n k a cm \<longleftrightarrow>
     (\<exists>st dw f0 l0. CacheManager st (LRAddedEvictionPolicy n) n dw f0 l0 = Inr cm
        \<and> mem_R fb valid st a Map.empty Map.empty k)"

lemma fresh_coherent:
  assumes st: "stack_ok fb valid" and cm: "fresh_cache fb valid n k a cm"
    and D: "finite D" "card D \<le> HIGH_PEND"
  shows "coherent (mem_R fb valid) (fb_view (deserializer fb)) valid object_set (lra_invar (unat n)) (unat n)
           cm (fb_view (deserializer fb) a) {} D k"
    and "0 < unat n" "map_of (cache cm) oid = None"
proof -
  obtain ses dw f0 l0 where c: "CacheManager ses (LRAddedEvictionPolicy n) n dw f0 l0 = Inr cm"
      and R: "mem_R fb valid ses a Map.empty Map.empty k"
    using cm by (auto simp: fresh_cache_def)
  then have n: "\<not> n < 1" by (auto simp: CacheManager_def split: if_splits)
  then show n0: "0 < unat n" by (simp add: word_less_nat_alt)
  have s: "store cm = ses" "cache cm = []" "pending_writes cm = []" "cm_max_size cm = n"
      "evp cm = LRAddedEvictionPolicy n" "prefetch_policy cm = OffPolicy"
    using c n by (auto simp: CacheManager_def)
  then show "map_of (cache cm) oid = None" by simp
  have os: "object_store (fb_ostore fb) (mem_R fb valid) (fb_view (deserializer fb)) (fb_room (serializer fb)) valid"
    using roomy_store.axioms(1) coherent_cache.axioms(1) stack_cache [OF st n0] by blast
  show "coherent (mem_R fb valid) (fb_view (deserializer fb)) valid object_set (lra_invar (unat n)) (unat n)
           cm (fb_view (deserializer fb) a) {} D k"
    using s R object_store.os_valid [OF os R] D lra_invar_new [of n]
    by (auto simp: coherent_def data_ok_def track_ok_def LRAddedEvictionPolicy_def)
qed
section \<open>A graph on a server\<close>

text \<open>
  A server that holds one vertex, the session of a client that has just connected, and a
  store of vertices over it.
\<close>

definition vertex_server :: "memory_backend tcp_server" where
  "vertex_server = demo_server\<lparr>pool_size := 2 ^ 40, curr_size := 8,
     mem := (MemoryBackend 1)\<lparr>memory_backend.store := [(5, wcc_serialize (wcc_Vertex 5))]\<rparr>\<rparr>"

definition vertex_store :: "(memory_backend, wcc_vertex) full_blade" where
  "vertex_store = \<lparr>fb_vt = memory_vt, fb_enc = wire_encode, fb_dec = wire_decode, fb_uninit = (\<lambda>_. 0),
     serializer = wcc_serializer, deserializer = wcc_deserializer\<rparr>"

definition vertex_session :: "memory_backend session" where
  "vertex_session = new_session vertex_server []"

definition vertex_cache :: "u64 \<Rightarrow> bool
    \<Rightarrow> (memory_backend session, wcc_vertex, nat, nat, lradded, unit) cache_manager" where
  "vertex_cache n dw = \<lparr>store = vertex_session, cache = [], pending_writes = [], cm_max_size = n,
     evp = LRAddedEvictionPolicy n, prefetch_policy = OffPolicy,
     ordered_policy = \<lparr>read_ahead = 5, op_first = 0, op_last = 0\<rparr>, defer_writes = dw\<rparr>"

abbreviation vertex_env ::
  "(memory_backend session, wcc_vertex, nat, nat, lradded, unit) cache_env" where
  "vertex_env \<equiv> fb_cache_env vertex_store (wcc_Vertex 0) (\<lambda>_ _ _. Ok [] ())"

lemma vertex_stack: "stack_ok vertex_store wcc_valid"
  using wire_documented wcc.object_serializer_axioms by (simp add: stack_ok_def vertex_store_def)

interpretation vertices: roomy_store "fb_ostore vertex_store" "mem_R vertex_store wcc_valid"
  "fb_view wcc_deserializer" "fb_room wcc_serializer" wcc_valid
  using mb.full_blade_roomy [of vertex_store wcc_valid] vertex_stack
  by (simp add: stack_ok_def vertex_store_def)

interpretation vertex_caches: coherent_cache "fb_ostore vertex_store" "mem_R vertex_store wcc_valid"
  "fb_view wcc_deserializer" "fb_room wcc_serializer" wcc_valid lra_policy object_set "lra_invar (Suc n)" "Suc n"
  for n
  using stack_cache [OF vertex_stack, of "Suc n"] by (simp add: vertex_store_def)

lemma vertex_kv: "memory_kv (mem vertex_server) = [5 \<mapsto> wcc_serialize (wcc_Vertex 5)]"
  by (simp add: vertex_server_def memory_kv_def)

lemma length_vertex [simp]: "length (wcc_serialize (wcc_Vertex i)) = 8"
  by (simp add: wcc_serialize_def wcc_getNeighbors_def wcc_Vertex_def)

lemma vertex_valid [simp]: "wcc_valid (wcc_Vertex i)"
  by (simp add: wcc_valid_def wcc_Vertex_def)

lemma vertex_view:
  "fb_view wcc_deserializer (abs_of memory_kv vertex_server) = [5 \<mapsto> wcc_Vertex 5]"
  using wcc.deser_bytes [OF vertex_valid, of 5]
  by (auto simp: fb_view_def vertex_kv wcc_serializer_def fun_eq_iff)

lemma vertex_ample:
  assumes "k \<le> 1000"
  shows "mem_R vertex_store wcc_valid vertex_session (abs_of memory_kv vertex_server) Map.empty Map.empty k"
proof -
  let ?a = "abs_of memory_kv vertex_server"
  have inv: "memory_inv (mem vertex_server)"
    by (simp add: vertex_server_def memory_inv_def fits_memory_def MemoryBackend_def wf_alist_def)
  have "session_view memory_kv memory_inv wire_encode vertex_session ?a Map.empty k"
    unfolding vertex_session_def using inv assms by (intro new_session_view) simp_all
  moreover have "stored_ok wcc_serializer wcc_valid ?a"
    by (auto simp: stored_ok_def vertex_kv wcc_serializer_def intro!: exI [of _ "wcc_Vertex 5"])
  moreover have "total_bytes (ab_kv ?a) = 8"
    using total_bytes_update [of Map.empty 5 "wcc_serialize (wcc_Vertex 5)"]
    unfolding abs_of_simps vertex_kv by (simp add: total_bytes_def [of Map.empty])
  then have "ample k ?a"
    using assms by (simp add: ample_def acct_ok_def vertex_kv) (simp add: vertex_server_def demo_server_def)
  ultimately show ?thesis
    by (auto simp: fb_ample_R_def fb_R_def promises_def vertex_store_def)
qed

lemma vertex_fresh:
  assumes "0 < n" "k \<le> 1000"
  shows "fresh_cache vertex_store wcc_valid n k (abs_of memory_kv vertex_server) (vertex_cache n dw)"
proof -
  have "\<not> n < 1" using assms(1) by (simp add: word_less_nat_alt)
  then have "CacheManager vertex_session (LRAddedEvictionPolicy n) n dw 0 0 = Inr (vertex_cache n dw)"
    by (simp add: CacheManager_def vertex_cache_def)
  then show ?thesis using vertex_ample [OF assms(2)] unfolding fresh_cache_def by blast
qed

section \<open>What a client of the cache sees\<close>



text \<open>
  C32. A get of an object that does not exist throws \<^verbatim>\<open>NoSuchIDException\<close>, but it leaves a
  default constructed entry in the cache: the next get returns that entry as if the object
  existed.
\<close>

theorem get_missing_returns_default:
  assumes "stack_ok fb valid" "fresh_cache fb valid n (2 + k) a cm" "fb_view (deserializer fb) a oid = None"
  shows "\<exists>cm1 cm2. get (fb_cache_env fb d cust) oid cm = Some (Throw no_such_id cm1)
           \<and> get (fb_cache_env fb d cust) oid cm1 = Some (Ok d cm2)"
proof -
  note c = fresh_coherent [OF assms(1,2), of "{}"]
  have "coherent (mem_R fb valid) (fb_view (deserializer fb)) valid object_set (lra_invar (unat n)) (unat n)
      cm (fb_view (deserializer fb) a) {} {} (Suc (Suc k))"
    using c(1) by simp
  from coherent_cache.get_missing_then_default [OF stack_cache [OF assms(1) c(2)] this, of "fb_cache_env fb d cust" oid]
    assms(3)
  show ?thesis by auto
qed

lemma get_missing_returns_default_witness:
  "\<exists>cm1 cm2. get vertex_env 9 (vertex_cache 3 False) = Some (Throw no_such_id cm1)
     \<and> get vertex_env 9 cm1 = Some (Ok (wcc_Vertex 0) cm2)"
  using get_missing_returns_default [OF vertex_stack vertex_fresh [of 3 "2 + 0" False], of 9 "wcc_Vertex 0"
      "\<lambda>_ _ _. Ok [] ()"] vertex_view
  by (simp add: vertex_store_def)

text \<open>
  C33. A put on an object whose prefetch is under way is lost to the client: with immediate
  writes the server has the new value, yet the next get returns the old one, because the
  entry is still marked as not cached and is filled from the prefetch.
\<close>

theorem put_after_prefetch_is_lost:
  assumes "stack_ok fb valid" "fresh_cache fb valid n (4 + k) a cm" "\<not> defer_writes cm"
    and "fb_view (deserializer fb) a oid = Some old" "valid new"
  shows "\<exists>cm1 cm2 cm3. prefetch (fb_cache_env fb d cust) oid cm = Some (Ok () cm1)
           \<and> put (fb_cache_env fb d cust) oid new cm1 = Some (Ok () cm2)
           \<and> get (fb_cache_env fb d cust) oid cm2 = Some (Ok old cm3)"
proof -
  note c = fresh_coherent [OF assms(1,2), of "{}"]
  have "coherent (mem_R fb valid) (fb_view (deserializer fb)) valid object_set (lra_invar (unat n)) (unat n)
      cm (fb_view (deserializer fb) a) {} {} (Suc (Suc (Suc (Suc k))))"
    using c(1) by (simp add: numeral_eq_Suc)
  from coherent_cache.put_over_prefetch_lost [OF stack_cache [OF assms(1) c(2)] this, of "fb_cache_env fb d cust" oid new]
    assms(3-5) c(3)
  show ?thesis by auto
qed

lemma put_after_prefetch_is_lost_witness:
  "\<exists>cm1 cm2 cm3. prefetch vertex_env 5 (vertex_cache 3 False) = Some (Ok () cm1)
     \<and> put vertex_env 5 (wcc_Vertex 55) cm1 = Some (Ok () cm2)
     \<and> get vertex_env 5 cm2 = Some (Ok (wcc_Vertex 5) cm3)"
  using put_after_prefetch_is_lost [OF vertex_stack vertex_fresh [of 3 "4 + 0" False], of 5 "wcc_Vertex 5"
      "wcc_Vertex 55" "wcc_Vertex 0" "\<lambda>_ _ _. Ok [] ()"] vertex_view
  by (simp add: vertex_store_def vertex_cache_def)

text \<open>
  C34. With ordered prefetching a get keeps a pointer to its entry while it prefetches. In a
  cache of one entry the first prefetch evicts that entry, and the get reads through a
  dangling pointer.
\<close>

theorem ordered_get_dangles:
  assumes "stack_ok fb valid" "fresh_cache fb valid 1 (4 + k) a cm"
    and "setMode_ordered kOrdered f l 1 cm = Ok () cm'"
    and "f < l" "f \<le> oid" "oid \<le> l" "unat (l - f) + 2 < 2 ^ 64" "fb_view (deserializer fb) a oid \<noteq> None"
  shows "get (fb_cache_env fb d cust) oid cm' = Some Undef"
proof -
  note c = fresh_coherent [OF assms(1,2), of "{}"]
  have "coherent (mem_R fb valid) (fb_view (deserializer fb)) valid object_set (lra_invar (unat 1)) (unat 1)
      cm (fb_view (deserializer fb) a) {} {} (Suc (Suc (Suc (Suc k))))"
    using c(1) by (simp add: numeral_eq_Suc)
  from coherent_cache.ordered_prefetch_dangles [OF stack_cache [OF assms(1) c(2)] this _ _ _ assms(3-7)]
    assms(8)
  show ?thesis by auto
qed

lemma ordered_get_dangles_witness:
  "\<exists>cm'. setMode_ordered kOrdered 5 6 1 (vertex_cache 1 False) = Ok () cm' \<and> get vertex_env 5 cm' = Some Undef"
proof -
  obtain cm' where m: "setMode_ordered kOrdered 5 6 1 (vertex_cache 1 False) = Ok () cm'"
    by (simp add: setMode_ordered_def)
  show ?thesis
    using ordered_get_dangles [OF vertex_stack vertex_fresh [of 1 "4 + 0" False] m, of 5] m vertex_view
    by (simp add: vertex_store_def)
qed

section \<open>Witnesses on the concrete stack\<close>

lemma ordered_full_range_undefined_witness:
  "\<exists>s'. setMode_ordered kOrdered 0 (- 1) 5 (vertex_cache 3 False) = Ok () s'
     \<and> policy_get vertex_env 7 (wcc_Vertex 7) s' = Some Undef"
  by (rule ordered_full_range_undefined) simp_all

lemma bulk_visits_range_witness:
  "prefetchBulk vertex_env 5 6 (vertex_cache 3 False) =
     each_call (prefetch vertex_env) [5, 6] (vertex_cache 3 False)"
proof -
  have "[unat (5 :: u64)..<Suc (unat (6 :: u64))] = [5, 6]" by (simp add: upt_conv_Cons)
  then show ?thesis
    using bulk_visits_range [of 5 6 vertex_env "vertex_cache 3 False"] by simp
qed

lemma bulk_never_returns_witness:
  "prefetchBulk vertex_env 0 (2 ^ 32) (vertex_cache 3 False) \<noteq> Some (Ok () (vertex_cache 3 False))"
  using bulk_never_returns [of "2 ^ 32" vertex_env 0 "vertex_cache 3 False" "vertex_cache 3 False"]
  by (simp add: word_le_nat_alt)

lemma clean_odd_undefined_witness:
  "clean_pending (fb_ostore vertex_store) [(1, 0), (2, 1), (3, 2)] vertex_session = Some Undef"
  by (rule clean_odd_undefined)
    (simp_all add: try_wait_succeeds_def future_at_def vertex_session_def new_session_def TCPClient_new_def
      FutureData_new_def SpinLock_new_def)

text \<open>The same cache with the least recently used policy.\<close>

definition lru_vertex_env :: "(memory_backend session, wcc_vertex, nat, nat, lru, unit) cache_env" where
  "lru_vertex_env = \<lparr>ce_os = fb_ostore vertex_store, ce_ep = lru_policy, ce_custom = (\<lambda>_ _ _. Ok [] ()),
     ce_default = wcc_Vertex 0\<rparr>"

definition lru_vertex_cache :: "(memory_backend session, wcc_vertex, nat, nat, lru, unit) cache_manager" where
  "lru_vertex_cache = \<lparr>store = vertex_session,
     cache = [(6, \<lparr>cached = True, dirty = True, obj = wcc_Vertex 6, future = None\<rparr>)],
     pending_writes = [], cm_max_size = 1, evp = LRUEvictionPolicy 1, prefetch_policy = OffPolicy,
     ordered_policy = \<lparr>read_ahead = 5, op_first = 0, op_last = 0\<rparr>, defer_writes = True\<rparr>"

lemma lru_put_full_throws_witness:
  "put lru_vertex_env 7 (wcc_Vertex 7) lru_vertex_cache =
     Some (Throw (CacheCapacityException ''Put operation would put cache over capacity.'') lru_vertex_cache)"
  by (rule lru_put_full_throws) (simp_all add: lru_vertex_env_def lru_vertex_cache_def)

lemma lru_prefetch_over_capacity_witness:
  "\<exists>s'. prefetch lru_vertex_env 5 lru_vertex_cache = Some (Ok () s')
     \<and> length (cache s') = Suc (unat (cm_max_size s'))"
proof -
  obtain g st where "os_get_async (fb_ostore vertex_store) 5 vertex_session = Some (Ok g st)"
    using vertices.os_get_async [OF vertex_ample [of "Suc 0"], of 5] by auto
  then show ?thesis
    using lru_prefetch_over_capacity [of lru_vertex_env lru_vertex_cache 5 g st] lru_invar_new [of 1]
    by (simp add: lru_vertex_env_def lru_vertex_cache_def LRUEvictionPolicy_def lru_tracked_def)
qed

end
