(* ===== verification/Bulk_Store.thy ===== *)
theory Bulk_Store
  imports Object_Store
begin

text \<open>
  The bulk operations of \<^verbatim>\<open>FullBladeObjectStore.h\<close> over the whole stack: what they write and
  read back, and the range loop of \<^verbatim>\<open>removeBulk\<close>.
\<close>

section \<open>Ranges of ids\<close>

lemma num_objects_eq:
  assumes "start \<le> last'" "unat (last' - start) < 2 ^ 31 - 1"
  shows "num_objects start last' = int (Suc (unat (last' - start)))"
proof -
  let ?k = "Suc (unat (last' - start))"
  have "unat (last' - start + 1) = ?k" using assms(2) by (simp add: unat_word_ariths)
  then have u: "unat (ucast (last' - start + 1) :: u32) = ?k"
    using assms(2) by (simp add: unsigned_ucast_eq take_bit_eq_mod)
  have "uint (ucast (last' - start + 1) :: u32) = int ?k" using u by (simp only: uint_nat)
  moreover have "int ?k < 2 ^ 31"
  proof -
    have "?k < 2 ^ 31" using assms(2) by simp
    then show ?thesis by (metis of_nat_less_iff of_nat_power of_nat_numeral)
  qed
  then have "signed_take_bit 31 (int ?k) = int ?k" by (intro signed_take_bit_int_eq_self) linarith+
  ultimately show ?thesis by (simp only: num_objects_def sint_uint len_num1 len_bit0) simp
qed

section \<open>Reading a range\<close>

lemma fb_ostore_simps [simp]:
  "os_get (fb_ostore fb) = fb_get fb" "os_put (fb_ostore fb) = fb_put fb"
  "os_remove (fb_ostore fb) = fb_remove fb" "os_get_async (fb_ostore fb) = fb_get_async fb"
  "os_put_async (fb_ostore fb) = fb_put_async fb" "getf_wait (fb_ostore fb) = fb_wait fb"
  "getf_get (fb_ostore fb) = fb_getf_get fb" "putf_wait (fb_ostore fb) = fb_wait fb"
  "putf_try_wait (fb_ostore fb) = fb_try_wait fb" "putf_get (fb_ostore fb) = fb_putf_get fb"
  by (simp_all add: fb_ostore_def)

lemma get_all_async_ok:
  assumes rs: "object_store (fb_ostore fb) R view room valid" and "R s a F W (length oids + n)"
  shows "\<exists>fs s' F'. get_all_async fb oids s = Some (Ok fs s') \<and> R s' a F' W n \<and> F \<subseteq>\<^sub>m F'
     \<and> list_all2 (\<lambda>f oid. F' f = Some (view a oid)) fs oids"
  using assms(2)
proof (induction oids arbitrary: s F)
  case (Cons oid oids)
  have R: "R s a F W (Suc (length oids + n))" using Cons.prems by simp
  obtain s1 g where g: "fb_get_async fb oid s = Some (Ok g s1)" "F g = None"
      "R s1 a (F(g \<mapsto> view a oid)) W (length oids + n)"
    using object_store.os_get_async [OF rs, OF R, of oid] unfolding fb_ostore_simps
    by (elim exE conjE) (rule that)
  obtain fs s' F' where r: "get_all_async fb oids s1 = Some (Ok fs s')" "R s' a F' W n"
      "F(g \<mapsto> view a oid) \<subseteq>\<^sub>m F'" "list_all2 (\<lambda>f oid. F' f = Some (view a oid)) fs oids"
    using Cons.IH [OF g(3)] by (elim exE conjE) (rule that)
  have "F' g = Some (view a oid)" using map_le_Some [OF r(3), of g] by simp
  moreover have "F \<subseteq>\<^sub>m F'" using r(3) g(2) by (metis map_le_trans map_le_imp_upd_le map_le_refl upd_None_map_le fun_upd_triv)
  ultimately show ?case using g(1) r(1,2,4)
    by (intro exI [of _ "g # fs"] exI [of _ s'] exI [of _ F']) simp
qed auto

lemma collect_all_ok:
  assumes rs: "object_store (fb_ostore fb) R view room valid"
    and "R s a F W n" "list_all2 (\<lambda>f v. F f = Some (Some v)) fs vs"
  shows "\<exists>s'. collect_all fb fs s = Some (Ok vs s') \<and> R s' a F W n"
  using assms(3,2)
proof (induction arbitrary: s rule: list_all2_induct)
  case (Cons f fs v vs)
  obtain s1 where 1: "fb_wait fb f s = Some (Ok () s1)" "R s1 a F W n"
    using object_store.getf_wait [OF rs, OF Cons.prems Cons.hyps(1)] unfolding fb_ostore_simps
    by (elim exE conjE) (rule that)
  obtain s2 where 2: "fb_getf_get fb f s1 = Some (Ok v s2)" "R s2 a F W n"
    using object_store.getf_get [OF rs, OF 1(2) Cons.hyps(1)] unfolding fb_ostore_simps option.case
    by (elim exE conjE) (rule that)
  obtain s' where "collect_all fb fs s2 = Some (Ok vs s')" "R s' a F W n"
    using Cons.IH [OF 2(2)] by (elim exE conjE) (rule that)
  with 1(1) 2(1) show ?case by (intro exI [of _ s']) simp
qed auto

text \<open>
  A range of existing objects is read whole, in order, as long as its size fits an \<^verbatim>\<open>int\<close>.
\<close>

lemma get_bulk_ok:
  assumes rs: "object_store (fb_ostore fb) R view room valid"
    and le: "start \<le> last'" "unat (last' - start) < 2 ^ 31 - 1"
    and R: "R s a F W (Suc (unat (last' - start)) + n)"
    and ex: "map (view a) (object_ids start (num_objects start last')) = map Some vs"
  shows "\<exists>s' F'. fb_get_bulk fb start last' s = Some (Ok vs s') \<and> R s' a F' W n"
proof -
  let ?oids = "object_ids start (num_objects start last')"
  have len: "length ?oids = Suc (unat (last' - start))"
    unfolding object_ids_def num_objects_eq [OF le] by (simp only: length_map length_upt nat_int)
  have "R s a F W (length ?oids + n)" using R unfolding len .
  from get_all_async_ok [OF rs this] obtain fs s1 F' where
      1: "get_all_async fb ?oids s = Some (Ok fs s1)" "R s1 a F' W n"
        "list_all2 (\<lambda>f oid. F' f = Some (view a oid)) fs ?oids"
    by (elim exE conjE) (rule that)
  have "list_all2 (\<lambda>f v. F' f = Some (Some v)) fs vs"
    using 1(3) ex unfolding list_all2_conv_all_nth
    by (metis length_map nth_map)
  from collect_all_ok [OF rs 1(2) this] obtain s' where "collect_all fb fs s1 = Some (Ok vs s')" "R s' a F' W n"
    by (elim exE conjE) (rule that)
  with 1(1) le num_objects_eq [OF le] show ?thesis by (auto simp: fb_get_bulk_def not_less)
qed

section \<open>Writing and reading lists of objects\<close>

lemma read_unit_length [simp]: "length (read_unit d) = 4 + length d"
  by (simp add: read_unit_def)

lemma length_bulk_answer: "length (bulk_answer ds) = 4 + 4 * length ds + length (concat ds)"
  by (induction ds) (simp_all add: bulk_answer_def)

context object_serializer
begin

lemma header_size: "valid v \<Longrightarrow> unat (read_bulk_header (bulk_header (ser_size s v))) = length (ser_bytes s v)"
  using size_bound [of v] size_bytes [of v] by (simp add: read_bulk_header ucast_64_32_64)

lemma split_units_concat:
  assumes "list_all valid vs"
  shows "split_units (length vs) (concat (map (unit_bytes s) vs)) = Some (map (ser_bytes s) vs)"
  using assms
proof (induction vs)
  case (Cons v vs)
  then have h: "unat (read_bulk_header (bulk_header (ser_size s v))) = length (ser_bytes s v)"
    using header_size by simp
  have "length (bulk_header (ser_size s v)) = 8" by (simp add: bulk_header_def)
  with Cons h show ?case by (simp add: unit_bytes_def Let_def)
qed simp

lemma length_units:
  "list_all valid vs \<Longrightarrow>
     length (concat (map (unit_bytes s) vs)) = 8 * length vs + length (concat (map (ser_bytes s) vs))"
  by (induction vs) (simp_all add: unit_bytes_def bulk_header_def)

lemma parse_objects_answer:
  assumes "deserializer fb = deser" "list_all valid vs"
  shows "parse_objects fb (length vs) (pre @ concat (map (\<lambda>v. read_unit (ser_bytes s v)) vs)) (length pre) st =
           Some (Ok vs st)"
  using assms(2)
proof (induction vs arbitrary: pre)
  case (Cons v vs)
  let ?d = "ser_bytes s v" and ?r = "concat (map (\<lambda>v. read_unit (ser_bytes s v)) vs)"
  let ?h = "store32 (htonl (word_of_nat (length ?d)))"
  have v: "valid v" using Cons.prems by simp
  have un: "unat (word_of_nat (length ?d) :: u32) = length ?d"
    using less_trans [OF size_bound [OF v], of "2 ^ 32"] unfolding size_bytes [OF v, symmetric]
    by (simp only: unat_of_nat) simp
  have pk: "peek (pre @ ?h @ ?d @ ?r) (length pre) 4 = Some ?h"
    using peek_cursor [of pre ?h "?d @ ?r"] by simp
  have ds: "deserialize fb (?d @ ?r, word_of_nat (length ?d)) st = Some (Ok v st)"
    using un deser_bytes [OF v] assms(1) by (simp add: deserialize_def)
  have "parse_objects fb (length vs) ((pre @ ?h @ ?d) @ ?r) (length (pre @ ?h @ ?d)) st = Some (Ok vs st)"
    using Cons.prems by (intro Cons.IH) simp
  then show ?case
    using pk ds un by (simp add: read_unit_def add.assoc)
qed simp

end

lemma spec_write_all_ample:
  assumes "acct_ok a" "total_bytes (ab_kv a) + length (concat (map snd ws)) \<le> unat (ab_pool a)"
    and "length (concat (map snd ws)) < 2 ^ 32"
  shows "\<exists>a'. spec_write_all ws a = (True, a') \<and> ab_kv a' = (ab_kv a)(map fst ws [\<mapsto>] map snd ws)"
  using assms
proof (induction ws arbitrary: a)
  case (Cons w ws)
  obtain oid d where w: "w = (oid, d)" by (cases w)
  have fin: "finite (dom (ab_kv a))" using Cons.prems(1) by (simp add: acct_ok_def)
  have d: "length d < 2 ^ 32" using Cons.prems(3) w by simp
  have le: "total_bytes ((ab_kv a)(oid := None)) + length d + length (concat (map snd ws)) \<le> unat (ab_pool a)"
    using Cons.prems(2) total_bytes_remove_le [OF fin, of oid] w by simp
  then have acc: "accepts oid d a"
    using unat_size_plus [OF Cons.prems(1) d, of oid] by (simp add: accepts_def word_le_nat_alt)
  have "acct_ok (spec_write oid d a)" using spec_write_acct [OF Cons.prems(1) d acc] .
  moreover have "ab_kv (spec_write oid d a) = (ab_kv a)(oid \<mapsto> d)" "ab_pool (spec_write oid d a) = ab_pool a"
    using acc by (simp_all add: spec_write_def)
  moreover have "total_bytes ((ab_kv a)(oid \<mapsto> d)) + length (concat (map snd ws)) \<le> unat (ab_pool a)"
    using le total_bytes_update [OF fin, of oid d] by simp
  ultimately show ?case
    using Cons.IH [of "spec_write oid d a"] Cons.prems(3) acc w by (auto simp del: fun_upd_apply)
qed simp

lemma map_upds_lookup:
  assumes "distinct ks" "length ks = length vs"
  shows "map (\<lambda>k. the ((m(ks [\<mapsto>] vs)) k)) ks = vs" and "set ks \<subseteq> dom (m(ks [\<mapsto>] vs))"
proof -
  show "map (\<lambda>k. the ((m(ks [\<mapsto>] vs)) k)) ks = vs"
    using assms
  proof (induction ks vs arbitrary: m rule: list_induct2')
    case (4 k ks v vs)
    have "(m(k \<mapsto> v, ks [\<mapsto>] vs)) k = Some v" using 4(2) by (simp add: map_upds_apply_nontin)
    moreover have "map (\<lambda>x. the ((m(k \<mapsto> v, ks [\<mapsto>] vs)) x)) ks = vs" using 4(1) [of "m(k \<mapsto> v)"] 4(2,3) by (simp only: distinct.simps length_Cons Suc_inject simp_thms)
    ultimately show ?case by (simp only: list.map map_upds_Cons option.sel)
  qed simp_all
  show "set ks \<subseteq> dom (m(ks [\<mapsto>] vs))" using assms(2) by (simp add: dom_map_upds)
qed

context kv_backend
begin

lemma bulk_fast_put_get:
  assumes fb: "flatbuffers_documented (fb_enc fb) (fb_dec fb)" "fb_vt fb = vt"
    and ser: "object_serializer (serializer fb) (deserializer fb) valid"
    and R: "fb_R kv invar fb valid s a F W (Suc (Suc n))" and acct: "acct_ok a"
    and ids: "oids \<noteq> []" "distinct oids" "length data = length oids" and v: "list_all valid data"
    and sz: "16 * length oids + length (concat (map (ser_bytes (serializer fb)) data)) < 2 ^ 30"
    and room: "total_bytes (ab_kv a) + length (concat (map (ser_bytes (serializer fb)) data)) \<le> unat (ab_pool a)"
  shows "\<exists>s1 s2. fb_put_bulk_fast fb oids data s = Some (Ok () s1)
           \<and> fb_get_bulk_fast fb oids s1 = Some (Ok data s2)"
proof -
  let ?ds = "map (ser_bytes (serializer fb)) data" and ?n = "word_of_nat (length oids) :: u64"
  let ?u = "concat (map (unit_bytes (serializer fb)) data)"
  let ?w = "WriteBulk (word_of_nat (length oids)) oids ?u" and ?r = "ReadBulk (word_of_nat (length oids)) oids"
  note S = object_serializer.length_units [OF ser v] object_serializer.split_units_concat [OF ser v]
  obtain P where P: "session_view kv invar (fb_enc fb) s a P (Suc (Suc n))" "stored_ok (serializer fb) valid a"
      "promises fb valid P F W"
    using R by (auto simp: fb_R_def)
  have ser_u: "serialized (fb_uninit fb) (WriteUnitsTemplate (serializer fb) data) = Some ?u"
    using object_serializer.write_units_bytes [OF ser] v S(1) sz ids(3) by (simp add: list_all_iff)
  obtain a' where a': "spec_write_all (zip oids ?ds) a = (True, a')" "ab_kv a' = (ab_kv a)(oids [\<mapsto>] ?ds)"
    using spec_write_all_ample [OF acct, of "zip oids ?ds"] room sz ids(3) by (auto simp: map_snd_zip map_fst_zip)
  have spw: "spec_message ?w a = ((kOk, WriteBulkAck 1), a')"
    using a'(1) S(2) ids(3) by (simp add: spec_message_def)
  have okw: "msg_ok ?w a"
    using S ids sz spw by (simp add: msg_ok_def request_ok_def payload_size_def)
  obtain s1 P' where s1: "bindW (client_call vt (fb_enc fb) (fb_dec fb) (fb_uninit fb)
        (write_async_bulk (fb_enc fb) (fb_uninit fb) oids (WriteUnitsTemplate (serializer fb) data)) s)
        (wait_get vt (fb_enc fb) (fb_dec fb) (fb_uninit fb)) = raise_or (get_result ?w a) s1"
      "session_view kv invar (fb_enc fb) s1 a' P' (Suc n)"
    using sync_get [OF fb(1) P(1) okw _ async_issue(4) [OF ser_u], of "fb_uninit fb"] spw by auto
  have put: "fb_put_bulk_fast fb oids data s = Some (Ok () s1)"
    using s1(1) a'(1) S(2) ids(3) fb(2) by (simp add: fb_put_bulk_fast_def write_sync_bulk_def get_result_def)
  have get_ds: "map (\<lambda>oid. the (ab_kv a' oid)) oids = ?ds" "set oids \<subseteq> dom (ab_kv a')"
    using map_upds_lookup [OF ids(2), of ?ds "ab_kv a"] a'(2) ids(3) by simp_all
  have un: "unat (word_of_nat (length oids) :: u64) = length oids" "unat (word_of_nat (length oids) :: u32) = length oids"
    using sz by (simp_all add: unat_of_nat)
  have len: "length (bulk_answer ?ds) < 2 ^ 30"
    using length_bulk_answer [of ?ds] sz ids(1,3) by (cases oids) simp_all
  have okr: "msg_ok ?r a'"
    using get_ds un len sz by (simp add: msg_ok_def request_ok_def payload_size_def spec_message_def)
  obtain s2 P'' where s2: "read_sync_bulk vt (fb_enc fb) (fb_dec fb) (fb_uninit fb) oids s1 =
        raise_or (data_result ?r a') s2"
    using sync_getDataPair [OF fb(1) s1(2) okr _ async_issue(2), of "fb_uninit fb"]
    by (auto simp: read_sync_bulk_def)
  have "parse_objects fb (length data) (store32 (word_of_nat (length oids))
      @ concat (map (\<lambda>v. read_unit (ser_bytes (serializer fb) v)) data)) 4 s2 = Some (Ok data s2)"
    using object_serializer.parse_objects_answer [OF ser refl v, of "store32 (word_of_nat (length oids))" s2] by simp
  then have "fb_get_bulk_fast fb oids s1 = Some (Ok data s2)"
    using s2 get_ds un ids(3) fb(2)
    by (simp add: fb_get_bulk_fast_def data_result_def Let_def bulk_answer_def peek_def o_def)
  with put show ?thesis by blast
qed

end

section \<open>Removing a range\<close>

lemma remove_loop_unfold:
  "remove_loop fb oid last' s =
     (if oid \<le> last' then bindW (fb_remove fb oid s) (\<lambda>_. remove_loop fb (oid + 1) last')
      else Some (Ok () s))"
  by (subst remove_loop.simps) (simp add: bindW_def split: option.split outcome.split)

lemma remove_loop_ok:
  assumes os: "object_store (fb_ostore fb) R view room valid" and last: "last' \<noteq> - 1"
    and "oid \<le> last'" "R s a F W (Suc (unat (last' - oid)) + n)"
  shows "\<exists>s' a'. remove_loop fb oid last' s = Some (Ok () s') \<and> R s' a' F W n
           \<and> view a' = (view a) |` (- {oid..last'})"
  using assms(3,4)
proof (induction "unat (last' - oid)" arbitrary: oid s a)
  case 0
  then have eq: "oid = last'" by (simp add: unat_eq_0)
  have R: "R s a F W (Suc n)" using 0 by simp
  obtain s' a' where 1: "fb_remove fb oid s = Some (Ok (view a oid \<noteq> None) s')" "R s' a' F W n"
      "view a' = (view a)(oid := None)"
    using object_store.os_remove [OF os, OF R, of oid] unfolding fb_ostore_simps
    by (elim exE conjE) (rule that)
  have "unat last' < 2 ^ 64 - 1" using unat_not_max [OF last] .
  then have "\<not> oid + 1 \<le> last'" using eq by (simp add: word_le_nat_alt unat_word_ariths)
  with 1(1) eq have "remove_loop fb oid last' s = Some (Ok () s')"
    by (subst remove_loop_unfold, simp) (subst remove_loop_unfold, simp)
  moreover have "view a' = (view a) |` (- {oid..last'})"
    using 1(3) eq by (auto simp: restrict_map_def fun_eq_iff)
  ultimately show ?case using 1(2) by (intro exI [of _ s'] exI [of _ a']) simp
next
  case (Suc k)
  have R: "R s a F W (Suc (Suc k + n))" using Suc.prems(2) Suc.hyps(2) by simp
  obtain s1 a1 where 1: "fb_remove fb oid s = Some (Ok (view a oid \<noteq> None) s1)" "R s1 a1 F W (Suc k + n)"
      "view a1 = (view a)(oid := None)"
    using object_store.os_remove [OF os, OF R, of oid] unfolding fb_ostore_simps
    by (elim exE conjE) (rule that)
  have lt: "oid < last'" using Suc.hyps(2) Suc.prems(1) by (cases "oid = last'") auto
  have u1: "unat (oid + 1) = Suc (unat oid)"
    using lt unsigned_less [of last', where 'a = nat] by (simp add: word_less_nat_alt unat_word_ariths)
  then have le: "oid + 1 \<le> last'" using lt by (simp add: word_le_nat_alt word_less_nat_alt)
  have k: "k = unat (last' - (oid + 1))"
    using Suc.hyps(2) le Suc.prems(1) u1 by (simp add: unat_sub word_le_nat_alt)
  obtain s' a' where 2: "remove_loop fb (oid + 1) last' s1 = Some (Ok () s')" "R s' a' F W n"
      "view a' = (view a1) |` (- {oid + 1..last'})"
    using Suc.hyps(1) [OF k le 1(2) [unfolded k]] by (elim exE conjE) (rule that)
  have "remove_loop fb oid last' s = Some (Ok () s')"
    using 1(1) 2(1) Suc.prems(1) by (subst remove_loop_unfold) simp
  moreover have "x \<in> {oid..last'} \<longleftrightarrow> x = oid \<or> x \<in> {oid + 1..last'}" for x
    using u1 lt by (auto simp: word_le_nat_alt word_less_nat_alt word_unat_eq_iff)
  then have "view a' = (view a) |` (- {oid..last'})"
    using 1(3) 2(3) by (auto simp: restrict_map_def fun_eq_iff)
  ultimately show ?case using 2(2) by (intro exI [of _ s'] exI [of _ a']) simp
qed

text \<open>
  A range that ends with the largest id is never left: the counter of \<^verbatim>\<open>removeBulk\<close> wraps
  around to 0 and stays below the bound. The call does not return normally.
\<close>

lemma removeBulk_never_returns:
  "fb_removeBulk fb first' (- 1) s \<noteq> Some (Ok () s')"
proof -
  have "\<forall>s'. r \<noteq> Ok () s'" if "remove_loop fb oid (- 1) s = Some r" for r oid
  proof -
    have "(- 1 :: u64) = - 1 \<longrightarrow> (\<forall>s'. r \<noteq> Ok () s')"
    proof (rule remove_loop.raw_induct [where P = "\<lambda>fb oid last' s r.
          last' = - 1 \<longrightarrow> (\<forall>s'. r \<noteq> Ok () s')", OF _ that])
      fix rec :: "('a, 'b) full_blade \<Rightarrow> ObjectID \<Rightarrow> ObjectID \<Rightarrow> 'a session \<Rightarrow> (unit, 'a session) call"
        and fb oid last' s r
      assume ih: "\<And>fb oid last' s r. rec fb oid last' s = Some r \<Longrightarrow> last' = - 1 \<longrightarrow> (\<forall>s'. r \<noteq> Ok () s')"
        and body: "(if oid \<le> last'
          then case fb_remove fb oid s of None \<Rightarrow> None
            | Some (Ok _ s') \<Rightarrow> rec fb (oid + 1) last' s'
            | Some (Throw e s') \<Rightarrow> Some (Throw e s')
            | Some Undef \<Rightarrow> Some Undef
          else Some (Ok () s)) = Some r"
      show "last' = - 1 \<longrightarrow> (\<forall>s'. r \<noteq> Ok () s')"
      proof (intro impI allI notI)
        fix s'
        assume "last' = - 1" "r = Ok () s'"
        then obtain b s1 where "rec fb (oid + 1) (- 1) s1 = Some (Ok () s')"
          using body by (auto split: option.splits outcome.splits)
        from ih [OF this] show False by simp
      qed
    qed
    then show ?thesis by simp
  qed
  then show ?thesis by (auto simp: fb_removeBulk_def)
qed

end
