(* ===== verification/Bulk_System.thy ===== *)
theory Bulk_System
  imports Cache_System Bulk_Store
begin

text \<open>
  The bulk operations of a \<^verbatim>\<open>FullBladeObjectStore\<close> on a session with a server that has the
  in-memory backend: reading a range, writing and reading a list of objects in one message
  each, and removing a range.
\<close>

text \<open>
  C6. What \<^verbatim>\<open>put_bulk_fast\<close> writes in one message, \<^verbatim>\<open>get_bulk_fast\<close> reads back in one message:
  the same objects in the same order, for every non-empty list of distinct ids whose
  serialized objects fit a message and the pool of the server. Both calls return.
\<close>

theorem bulk_lists_roundtrip:
  assumes "stack_ok fb valid" "mem_R fb valid s a F W (Suc (Suc n))"
    and "oids \<noteq> []" "distinct oids" "length data = length oids" "list_all valid data"
    and "16 * length oids + length (concat (map (ser_bytes (serializer fb)) data)) < 2 ^ 30"
  shows "\<exists>s1 s2. fb_put_bulk_fast fb oids data s = Some (Ok () s1)
           \<and> fb_get_bulk_fast fb oids s1 = Some (Ok data s2)"
proof -
  have "acct_ok a" "total_bytes (ab_kv a) + 2 ^ 30 \<le> unat (ab_pool a)"
    using assms(2) by (auto simp: fb_ample_R_def ample_def)
  then show ?thesis
    using assms(1) mb.bulk_fast_put_get [OF _ _ _ _ _ assms(3-7), of s a F W n] assms(2,7)
    by (auto simp: stack_ok_def fb_ample_R_def)
qed

lemma bulk_lists_roundtrip_witness:
  "\<exists>s1 s2. fb_put_bulk_fast vertex_store [8, 9] [wcc_Vertex 1, wcc_Vertex 2] vertex_session = Some (Ok () s1)
     \<and> fb_get_bulk_fast vertex_store [8, 9] s1 = Some (Ok [wcc_Vertex 1, wcc_Vertex 2] s2)"
  using bulk_lists_roundtrip [OF vertex_stack vertex_ample [of "Suc (Suc 0)"], of "[8, 9]"
      "[wcc_Vertex 1, wcc_Vertex 2]"]
  by (simp add: vertex_store_def wcc_serializer_def)





end
