(* ===== verification/Cirrus_Iterable.thy ===== *)
theory Cirrus_Iterable
  imports Cache_System "HOL-Library.Multiset"
begin

text \<open>
  The iterators of \<^verbatim>\<open>src/src/iterator/CirrusIterable.h\<close>: the interface \<^verbatim>\<open>IteratorPolicy\<close>, the
  ordered and the unordered policy, the iterator that reads through a cache and prefetches,
  and the container that hands out iterators. What a policy promises to the loop that uses
  it is a locale; both policies meet it, and the loop is verified once against it and the
  contract of the cache.
\<close>

section \<open>Policies\<close>

datatype Position = kBegin | kEnd | kOtherPosition int

record 'p iterator_policy =
  ip_setState :: "ObjectID \<Rightarrow> ObjectID \<Rightarrow> u64 \<Rightarrow> Position \<Rightarrow> 'p \<Rightarrow> (unit, 'p) call"
  ip_getPrefetchList :: "'p \<Rightarrow> (ObjectID list, 'p) call"
  ip_dereference :: "'p \<Rightarrow> (ObjectID, 'p) call"
  ip_increment :: "'p \<Rightarrow> (unit, 'p) call"
  ip_getState :: "'p \<Rightarrow> u64"
  ip_clone :: "'p \<Rightarrow> 'p"

subsection \<open>In order\<close>

record ordered_iter =
  oi_first :: ObjectID
  oi_last :: ObjectID
  oi_read_ahead :: u64
  current_id :: ObjectID

definition ordered_iter_new :: ordered_iter where
  "ordered_iter_new = \<lparr>oi_first = 0, oi_last = 0, oi_read_ahead = 0, current_id = 0\<rparr>"

definition ordered_setState ::
  "ObjectID \<Rightarrow> ObjectID \<Rightarrow> u64 \<Rightarrow> Position \<Rightarrow> ordered_iter \<Rightarrow> (unit, ordered_iter) call" where
  "ordered_setState first' last' ra pos p =
     (let p1 = p\<lparr>oi_first := first', oi_last := last', oi_read_ahead := ra\<rparr> in
      case pos of
        kBegin \<Rightarrow> Some (Ok () (p1\<lparr>current_id := first'\<rparr>))
      | kEnd \<Rightarrow> Some (Ok () (p1\<lparr>current_id := last' + 1\<rparr>))
      | kOtherPosition _ \<Rightarrow> Some (Throw (Exception ''Unrecognized position argument.'') p1))"

text \<open>
  \<^verbatim>\<open>for (unsigned int i = 1; i <= read_ahead; i++)\<close>: the counter has 32 bits, the bound 64.
\<close>

partial_function (option) ordered_fetch ::
  "ordered_iter \<Rightarrow> u32 \<Rightarrow> ObjectID list \<Rightarrow> ObjectID list option" where
  "ordered_fetch p i prefetch_vector =
     (if (ucast i :: u64) \<le> oi_read_ahead p
      then let tentative_fetch = current_id p + ucast i;
               shifted = tentative_fetch - oi_first p;
               modded = shifted mod (oi_last p - oi_first p + 1);
               to_fetch = modded + oi_first p
           in if to_fetch = current_id p then Some prefetch_vector
              else ordered_fetch p (i + 1) (prefetch_vector @ [to_fetch])
      else Some prefetch_vector)"

definition ordered_getPrefetchList :: "ordered_iter \<Rightarrow> (ObjectID list, ordered_iter) call" where
  "ordered_getPrefetchList p =
     (if oi_read_ahead p > 2 ^ 60 - 1 then Some (Throw (length_error ''vector::reserve'') p)
      else if 0 < oi_read_ahead p \<and> oi_last p - oi_first p + 1 = 0 then Some Undef
      else case ordered_fetch p 1 [] of None \<Rightarrow> None | Some ids \<Rightarrow> Some (Ok ids p))"

definition ordered_dereference :: "ordered_iter \<Rightarrow> (ObjectID, ordered_iter) call" where
  "ordered_dereference p = Some (Ok (current_id p) p)"

definition ordered_increment :: "ordered_iter \<Rightarrow> (unit, ordered_iter) call" where
  "ordered_increment p = Some (Ok () (p\<lparr>current_id := current_id p + 1\<rparr>))"

definition ordered_getState :: "ordered_iter \<Rightarrow> u64" where
  "ordered_getState p = current_id p"

definition ordered_clone :: "ordered_iter \<Rightarrow> ordered_iter" where
  "ordered_clone p = \<lparr>oi_first = oi_first p, oi_last = oi_last p, oi_read_ahead = oi_read_ahead p,
     current_id = current_id p\<rparr>"

definition ordered_ip :: "ordered_iter iterator_policy" where
  "ordered_ip = \<lparr>ip_setState = ordered_setState, ip_getPrefetchList = ordered_getPrefetchList,
     ip_dereference = ordered_dereference, ip_increment = ordered_increment,
     ip_getState = ordered_getState, ip_clone = ordered_clone\<rparr>"

subsection \<open>In random order\<close>

record unordered_iter =
  ui_read_ahead :: u64
  current_index :: u64
  id_vector :: "ObjectID list"

definition unordered_iter_new :: unordered_iter where
  "unordered_iter_new = \<lparr>ui_read_ahead = 0, current_index = 0, id_vector = []\<rparr>"

text \<open>
  \<^verbatim>\<open>for (ObjectID i = first_; i <= last_; i++)\<close>, which does not end when \<^verbatim>\<open>last_\<close> is the largest id.
\<close>

partial_function (option) push_ids :: "ObjectID \<Rightarrow> ObjectID \<Rightarrow> ObjectID list \<Rightarrow> ObjectID list option" where
  "push_ids i last' v = (if i \<le> last' then push_ids (i + 1) last' (v @ [i]) else Some v)"

text \<open>
  \<open>shuf\<close> is \<^verbatim>\<open>std::shuffle\<close> with an engine seeded from the clock.
\<close>

definition unordered_setState ::
  "(ObjectID list \<Rightarrow> ObjectID list) \<Rightarrow> ObjectID \<Rightarrow> ObjectID \<Rightarrow> u64 \<Rightarrow> Position \<Rightarrow> unordered_iter
    \<Rightarrow> (unit, unordered_iter) call" where
  "unordered_setState shuf first' last' ra pos p =
     (case push_ids first' last' (id_vector p) of
        None \<Rightarrow> None
      | Some v \<Rightarrow>
          (let p1 = p\<lparr>ui_read_ahead := ra, id_vector := shuf v\<rparr> in
           case pos of
             kBegin \<Rightarrow> Some (Ok () (p1\<lparr>current_index := 0\<rparr>))
           | kEnd \<Rightarrow> Some (Ok () (p1\<lparr>current_index := last' - first' + 1\<rparr>))
           | kOtherPosition _ \<Rightarrow> Some (Throw (Exception ''Unrecognized position argument.'') p1)))"

partial_function (option) unordered_fetch ::
  "unordered_iter \<Rightarrow> u32 \<Rightarrow> ObjectID list \<Rightarrow> ObjectID list option" where
  "unordered_fetch p i prefetch_vector =
     (if (ucast i :: u64) \<le> ui_read_ahead p
      then unordered_fetch p (i + 1)
             (if unat (current_index p + ucast i) < length (id_vector p)
              then prefetch_vector @ [id_vector p ! unat (current_index p + ucast i)]
              else prefetch_vector)
      else Some prefetch_vector)"

definition unordered_getPrefetchList :: "unordered_iter \<Rightarrow> (ObjectID list, unordered_iter) call" where
  "unordered_getPrefetchList p =
     (if ui_read_ahead p > 2 ^ 60 - 1 then Some (Throw (length_error ''vector::reserve'') p)
      else case unordered_fetch p 1 [] of None \<Rightarrow> None | Some ids \<Rightarrow> Some (Ok ids p))"

definition unordered_dereference :: "unordered_iter \<Rightarrow> (ObjectID, unordered_iter) call" where
  "unordered_dereference p =
     (if unat (current_index p) < length (id_vector p)
      then Some (Ok (id_vector p ! unat (current_index p)) p) else Some Undef)"

definition unordered_increment :: "unordered_iter \<Rightarrow> (unit, unordered_iter) call" where
  "unordered_increment p = Some (Ok () (p\<lparr>current_index := current_index p + 1\<rparr>))"

definition unordered_getState :: "unordered_iter \<Rightarrow> u64" where
  "unordered_getState p = current_index p"

subsection \<open>Virtual calls\<close>

text \<open>
  A pointer to a policy: one of the two policies of the container or one of the user, whose
  operations \<open>cust\<close> are given.
\<close>

datatype 'c any_policy = Ordered ordered_iter | Unordered unordered_iter | Custom 'c

definition any_ip ::
  "(ObjectID list \<Rightarrow> ObjectID list) \<Rightarrow> 'c iterator_policy \<Rightarrow> 'c any_policy iterator_policy" where
  "any_ip shuf cust = \<lparr>
     ip_setState = (\<lambda>f l ra pos p.
       case p of
         Ordered q \<Rightarrow> liftW Ordered (ordered_setState f l ra pos q)
       | Unordered q \<Rightarrow> liftW Unordered (unordered_setState shuf f l ra pos q)
       | Custom q \<Rightarrow> liftW Custom (ip_setState cust f l ra pos q)),
     ip_getPrefetchList = (\<lambda>p.
       case p of
         Ordered q \<Rightarrow> liftW Ordered (ordered_getPrefetchList q)
       | Unordered q \<Rightarrow> liftW Unordered (unordered_getPrefetchList q)
       | Custom q \<Rightarrow> liftW Custom (ip_getPrefetchList cust q)),
     ip_dereference = (\<lambda>p.
       case p of
         Ordered q \<Rightarrow> liftW Ordered (ordered_dereference q)
       | Unordered q \<Rightarrow> liftW Unordered (unordered_dereference q)
       | Custom q \<Rightarrow> liftW Custom (ip_dereference cust q)),
     ip_increment = (\<lambda>p.
       case p of
         Ordered q \<Rightarrow> liftW Ordered (ordered_increment q)
       | Unordered q \<Rightarrow> liftW Unordered (unordered_increment q)
       | Custom q \<Rightarrow> liftW Custom (ip_increment cust q)),
     ip_getState = (\<lambda>p.
       case p of
         Ordered q \<Rightarrow> ordered_getState q
       | Unordered q \<Rightarrow> unordered_getState q
       | Custom q \<Rightarrow> ip_getState cust q),
     ip_clone = (\<lambda>p.
       case p of
         Ordered q \<Rightarrow> Ordered (ordered_clone q)
       | Unordered q \<Rightarrow> Unordered q
       | Custom q \<Rightarrow> Custom (ip_clone cust q))\<rparr>"

section \<open>Iterators\<close>

text \<open>
  An iterator owns a policy and points to the cache, which is the state of its operations
  together with the iterator itself.
\<close>

record 'p cirrus_iterator =
  it_policy :: 'p

definition on_it ::
  "('p \<Rightarrow> ('a, 'p) call) \<Rightarrow> 'p cirrus_iterator \<times> 'm \<Rightarrow> ('a, 'p cirrus_iterator \<times> 'm) call" where
  "on_it f st = liftW (\<lambda>p. (\<lparr>it_policy = p\<rparr>, snd st)) (f (it_policy (fst st)))"

definition on_cm ::
  "('m \<Rightarrow> ('a, 'm) call) \<Rightarrow> 'p cirrus_iterator \<times> 'm \<Rightarrow> ('a, 'p cirrus_iterator \<times> 'm) call" where
  "on_cm f st = liftW (\<lambda>m. (fst st, m)) (f (snd st))"

definition Iterator ::
  "'p iterator_policy \<Rightarrow> u32 \<Rightarrow> ObjectID \<Rightarrow> ObjectID \<Rightarrow> bool \<Rightarrow> bool \<Rightarrow> 'p \<Rightarrow> 'm
    \<Rightarrow> ('p cirrus_iterator, 'm) call" where
  "Iterator ip ra first' last' is_begin is_end policy_ptr m =
     (if is_begin \<or> is_end
      then case ip_setState ip first' last' (ucast ra) (if is_begin then kBegin else kEnd)
                  (ip_clone ip policy_ptr) of
             None \<Rightarrow> None
           | Some (Ok _ p) \<Rightarrow> Some (Ok \<lparr>it_policy = p\<rparr> m)
           | Some (Throw e _) \<Rightarrow> Some (Throw e m)
           | Some Undef \<Rightarrow> Some Undef
      else Some (Throw (Exception ''Iterator constructor called with begin and end false.'') m))"

definition it_copy :: "'p iterator_policy \<Rightarrow> 'p cirrus_iterator \<Rightarrow> 'p cirrus_iterator" where
  "it_copy ip it = \<lparr>it_policy = ip_clone ip (it_policy it)\<rparr>"

text \<open>\<open>same\<close>: the iterator is assigned to itself.\<close>

definition it_assign ::
  "'p iterator_policy \<Rightarrow> bool \<Rightarrow> 'p cirrus_iterator \<Rightarrow> 'p cirrus_iterator \<Rightarrow> 'p cirrus_iterator" where
  "it_assign ip same it other = (if same then it else \<lparr>it_policy = ip_clone ip (it_policy other)\<rparr>)"

definition it_deref ::
  "'p iterator_policy \<Rightarrow> ('s, 't, 'g, 'f, 'e, 'c) cache_env
    \<Rightarrow> 'p cirrus_iterator \<times> ('s, 't, 'g, 'f, 'e, 'c) cache_manager
    \<Rightarrow> ('t, 'p cirrus_iterator \<times> ('s, 't, 'g, 'f, 'e, 'c) cache_manager) call" where
  "it_deref ip env st =
     bindW (on_it (ip_getPrefetchList ip) st) (\<lambda>to_prefetch st1.
       bindW (on_cm (each_call (prefetch env) to_prefetch) st1) (\<lambda>_ st2.
         bindW (on_it (ip_dereference ip) st2) (\<lambda>oid. on_cm (get env oid))))"

definition it_incr ::
  "'p iterator_policy \<Rightarrow> 'p cirrus_iterator \<times> 'm \<Rightarrow> (unit, 'p cirrus_iterator \<times> 'm) call" where
  "it_incr ip = on_it (ip_increment ip)"

definition it_postincr ::
  "'p iterator_policy \<Rightarrow> 'p cirrus_iterator \<times> 'm \<Rightarrow> ('p cirrus_iterator, 'p cirrus_iterator \<times> 'm) call" where
  "it_postincr ip st = bindW (it_incr ip st) (\<lambda>_ st1. Some (Ok (it_copy ip (fst st)) st1))"

definition it_neq :: "'p iterator_policy \<Rightarrow> 'p cirrus_iterator \<Rightarrow> 'p cirrus_iterator \<Rightarrow> bool" where
  "it_neq ip it it' \<longleftrightarrow> ip_getState ip (it_policy it) \<noteq> ip_getState ip (it_policy it')"

definition it_eq :: "'p iterator_policy \<Rightarrow> 'p cirrus_iterator \<Rightarrow> 'p cirrus_iterator \<Rightarrow> bool" where
  "it_eq ip it it' \<longleftrightarrow> ip_getState ip (it_policy it) = ip_getState ip (it_policy it')"

section \<open>The container\<close>

datatype IterableMode = kIterOrdered | kIterUnordered | kIterCustom | kIterOther int

record 'c iterable =
  readAhead :: u32
  it_first :: ObjectID
  it_last :: ObjectID
  it_ptr :: "'c any_policy"

definition CirrusIterable :: "u32 \<Rightarrow> ObjectID \<Rightarrow> ObjectID \<Rightarrow> 'c iterable" where
  "CirrusIterable ra first' last' =
     \<lparr>readAhead = ra, it_first = first', it_last = last', it_ptr = Ordered ordered_iter_new\<rparr>"

definition iterable_setMode ::
  "IterableMode \<Rightarrow> 'c option \<Rightarrow> 'c iterable \<Rightarrow> (unit, 'c iterable) outcome" where
  "iterable_setMode mode policy' c =
     (case mode of
        kIterOrdered \<Rightarrow> Ok () (c\<lparr>it_ptr := Ordered ordered_iter_new\<rparr>)
      | kIterUnordered \<Rightarrow> Ok () (c\<lparr>it_ptr := Unordered unordered_iter_new\<rparr>)
      | kIterCustom \<Rightarrow>
          (case policy' of
             None \<Rightarrow> Throw (Exception ''Custom prefetching specified without  a pointer to a custom policy.'') c
           | Some q \<Rightarrow> Ok () (c\<lparr>it_ptr := Custom q\<rparr>))
      | kIterOther _ \<Rightarrow> Throw (Exception ''Unrecognized prefetch mode'') c)"

definition iterable_begin ::
  "'c any_policy iterator_policy \<Rightarrow> 'c iterable \<Rightarrow> 'm \<Rightarrow> ('c any_policy cirrus_iterator, 'm) call" where
  "iterable_begin ip c = Iterator ip (readAhead c) (it_first c) (it_last c) True False (it_ptr c)"

definition iterable_end ::
  "'c any_policy iterator_policy \<Rightarrow> 'c iterable \<Rightarrow> 'm \<Rightarrow> ('c any_policy cirrus_iterator, 'm) call" where
  "iterable_end ip c = Iterator ip (readAhead c) (it_first c) (it_last c) False True (it_ptr c)"

text \<open>
  The loop a range-based \<^verbatim>\<open>for\<close> over the container runs, collecting what it reads.
\<close>

partial_function (option) iterate_from ::
  "'p iterator_policy \<Rightarrow> ('s, 't, 'g, 'f, 'e, 'c) cache_env \<Rightarrow> 'p cirrus_iterator \<Rightarrow> 't list
    \<Rightarrow> 'p cirrus_iterator \<times> ('s, 't, 'g, 'f, 'e, 'c) cache_manager
    \<Rightarrow> ('t list, 'p cirrus_iterator \<times> ('s, 't, 'g, 'f, 'e, 'c) cache_manager) call" where
  "iterate_from ip env stop vs st =
     (if it_neq ip (fst st) stop
      then (case it_deref ip env st of
              None \<Rightarrow> None
            | Some r \<Rightarrow>
                (case r of
                   Ok v st1 \<Rightarrow>
                     (case it_incr ip st1 of
                        None \<Rightarrow> None
                      | Some r1 \<Rightarrow>
                          (case r1 of
                             Ok _ st2 \<Rightarrow> iterate_from ip env stop (vs @ [v]) st2
                           | Throw e st2 \<Rightarrow> Some (Throw e st2)
                           | Undef \<Rightarrow> Some Undef))
                 | Throw e st1 \<Rightarrow> Some (Throw e st1)
                 | Undef \<Rightarrow> Some Undef))
      else Some (Ok vs st))"

definition for_each ::
  "'c any_policy iterator_policy \<Rightarrow> ('s, 't, 'g, 'f, 'e, 'x) cache_env \<Rightarrow> 'c iterable
    \<Rightarrow> ('s, 't, 'g, 'f, 'e, 'x) cache_manager \<Rightarrow> ('t list, ('s, 't, 'g, 'f, 'e, 'x) cache_manager) call" where
  "for_each ip env c cm =
     bindW (iterable_begin ip c cm) (\<lambda>it cm1.
       bindW (iterable_end ip c cm1) (\<lambda>stop cm2.
         liftW snd (iterate_from ip env stop [] (it, cm2))))"

section \<open>What a policy promises\<close>

definition id_range :: "ObjectID \<Rightarrow> ObjectID \<Rightarrow> ObjectID list" where
  "id_range f l = map (\<lambda>i. f + word_of_nat i) [0..<Suc (unat (l - f))]"

text \<open>
  \<open>walk f l ra ids p\<close>: a policy set up for the range from \<open>f\<close> to \<open>l\<close> still has to visit
  \<open>ids\<close>, in this order. \<open>visits f l\<close> is the order of the whole range, \<open>stops f l\<close> the
  state of the end iterator.
\<close>

locale walking_policy =
  fixes ip :: "'p iterator_policy" and p0 :: 'p
    and okay :: "ObjectID \<Rightarrow> ObjectID \<Rightarrow> u64 \<Rightarrow> bool"
    and walk :: "ObjectID \<Rightarrow> ObjectID \<Rightarrow> u64 \<Rightarrow> ObjectID list \<Rightarrow> 'p \<Rightarrow> bool"
    and visits :: "ObjectID \<Rightarrow> ObjectID \<Rightarrow> ObjectID list"
    and stops :: "ObjectID \<Rightarrow> ObjectID \<Rightarrow> u64"
  assumes okay_visits: "okay f l ra \<Longrightarrow> mset (visits f l) = mset (id_range f l) \<and> f \<le> l"
    and walk_begin: "okay f l ra \<Longrightarrow>
      \<exists>p. ip_setState ip f l ra kBegin (ip_clone ip p0) = Some (Ok () p) \<and> walk f l ra (visits f l) p"
    and walk_end: "okay f l ra \<Longrightarrow>
      \<exists>p. ip_setState ip f l ra kEnd (ip_clone ip p0) = Some (Ok () p) \<and> ip_getState ip p = stops f l"
    and walk_prefetch: "walk f l ra (i # ids) p \<Longrightarrow>
      \<exists>qs p'. ip_getPrefetchList ip p = Some (Ok qs p') \<and> walk f l ra (i # ids) p'
        \<and> set qs \<subseteq> {f..l} \<and> length qs \<le> unat ra"
    and walk_dereference: "walk f l ra (i # ids) p \<Longrightarrow>
      \<exists>p'. ip_dereference ip p = Some (Ok i p') \<and> walk f l ra (i # ids) p'"
    and walk_increment: "walk f l ra (i # ids) p \<Longrightarrow>
      \<exists>p'. ip_increment ip p = Some (Ok () p') \<and> walk f l ra ids p'"
    and walk_stop: "walk f l ra ids p \<Longrightarrow> ip_getState ip p = stops f l \<longleftrightarrow> ids = []"

section \<open>The loop over the contracts\<close>

locale cached_walk =
  coherent_cache os R view room valid ep tracked einv cap + walking_policy ip p0 okay walk visits stops
  for os :: "('s, 't, 'g, 'f) ostore"
    and R :: "'s \<Rightarrow> 'a \<Rightarrow> ('g \<rightharpoonup> 't option) \<Rightarrow> ('f \<rightharpoonup> bool) \<Rightarrow> nat \<Rightarrow> bool"
    and view :: "'a \<Rightarrow> (ObjectID \<rightharpoonup> 't)"
    and room :: "'a \<Rightarrow> ObjectID \<Rightarrow> 't \<Rightarrow> bool"
    and valid :: "'t \<Rightarrow> bool"
    and ep :: "'e eviction_policy"
    and tracked :: "'e \<Rightarrow> ObjectID set"
    and einv :: "'e \<Rightarrow> bool"
    and cap :: nat
    and ip :: "'p iterator_policy" and p0 :: 'p
    and okay :: "ObjectID \<Rightarrow> ObjectID \<Rightarrow> u64 \<Rightarrow> bool"
    and walk :: "ObjectID \<Rightarrow> ObjectID \<Rightarrow> u64 \<Rightarrow> ObjectID list \<Rightarrow> 'p \<Rightarrow> bool"
    and visits :: "ObjectID \<Rightarrow> ObjectID \<Rightarrow> ObjectID list"
    and stops :: "ObjectID \<Rightarrow> ObjectID \<Rightarrow> u64"
begin

lemma coherent_mono:
  "coherent R view valid tracked einv cap s L Q D (k + n) \<Longrightarrow> coherent R view valid tracked einv cap s L Q D n"
  by (induction k) (auto dest: coherent_less)

lemma prefetches_coherent:
  assumes "coherent R view valid tracked einv cap s L Q D (2 * length qs + n)"
    and env: "ce_os env = os" "ce_ep env = ep"
  shows "\<exists>s'. each_call (prefetch env) qs s = Some (Ok () s')
           \<and> coherent R view valid tracked einv cap s' L (Q \<union> set qs) D n"
  using assms(1)
proof (induction qs arbitrary: s Q)
  case (Cons q qs)
  have "coherent R view valid tracked einv cap s L Q D (Suc (Suc (2 * length qs + n)))"
    using Cons.prems by simp
  from prefetch_coherent [OF this env, of q] obtain s1 where
      1: "prefetch env q s = Some (Ok () s1)"
        "coherent R view valid tracked einv cap s1 L (insert q Q) D (2 * length qs + n)"
    by blast
  from Cons.IH [OF 1(2)] 1(1) show ?case by auto
qed simp

lemma deref_coherent:
  assumes c: "coherent R view valid tracked einv cap s L Q D (2 * Suc (unat ra) + n)"
    and env: "ce_os env = os" "ce_ep env = ep" and w: "walk f l ra (i # ids) p" and v: "L i = Some v"
  shows "\<exists>p' s' Q'. it_deref ip env (\<lparr>it_policy = p\<rparr>, s) = Some (Ok v (\<lparr>it_policy = p'\<rparr>, s'))
           \<and> walk f l ra (i # ids) p' \<and> coherent R view valid tracked einv cap s' L Q' D n"
proof -
  obtain qs p1 where 1: "ip_getPrefetchList ip p = Some (Ok qs p1)" "walk f l ra (i # ids) p1"
      "length qs \<le> unat ra"
    using walk_prefetch [OF w] by blast
  have "2 * Suc (unat ra) + n = 2 * (unat ra - length qs) + (2 * length qs + Suc (Suc n))"
    using 1(3) by simp
  with c have "coherent R view valid tracked einv cap s L Q D (2 * length qs + Suc (Suc n))"
    by (metis coherent_mono)
  from prefetches_coherent [OF this env] obtain s1 where
      2: "each_call (prefetch env) qs s = Some (Ok () s1)"
        "coherent R view valid tracked einv cap s1 L (Q \<union> set qs) D (Suc (Suc n))"
    by blast
  obtain p2 where 3: "ip_dereference ip p1 = Some (Ok i p2)" "walk f l ra (i # ids) p2"
    using walk_dereference [OF 1(2)] by blast
  obtain s2 where 4: "get env i s1 = Some (Ok v s2)"
      "coherent R view valid tracked einv cap s2 L (Q \<union> set qs - {i}) D n"
    using get_coherent [OF 2(2) env v] by blast
  have "it_deref ip env (\<lparr>it_policy = p\<rparr>, s) = Some (Ok v (\<lparr>it_policy = p2\<rparr>, s2))"
    using 1(1) 2(1) 3(1) 4(1) by (simp add: it_deref_def on_it_def on_cm_def)
  then show ?thesis using 3(2) 4(2) by blast
qed

lemma iterate_coherent:
  assumes "coherent R view valid tracked einv cap s L Q D (2 * Suc (unat ra) * length ids + n)"
    and env: "ce_os env = os" "ce_ep env = ep" and "walk f l ra ids p"
    and "\<forall>i\<in>set ids. L i \<noteq> None" and stop: "ip_getState ip (it_policy stop) = stops f l"
  shows "\<exists>st' Q'. iterate_from ip env stop vs (\<lparr>it_policy = p\<rparr>, s) =
             Some (Ok (vs @ map (\<lambda>i. the (L i)) ids) st')
           \<and> coherent R view valid tracked einv cap (snd st') L Q' D n"
  using assms(1,4,5)
proof (induction ids arbitrary: s Q p vs)
  case Nil
  then have "\<not> it_neq ip \<lparr>it_policy = p\<rparr> stop" using walk_stop [OF Nil.prems(2)] stop by (simp add: it_neq_def)
  then show ?case using Nil.prems(1) by (subst iterate_from.simps) auto
next
  case (Cons i ids)
  obtain v where v: "L i = Some v" using Cons.prems(3) by auto
  have "coherent R view valid tracked einv cap s L Q D
      (2 * Suc (unat ra) + (2 * Suc (unat ra) * length ids + n))"
    using Cons.prems(1) by (simp add: algebra_simps)
  from deref_coherent [OF this env Cons.prems(2) v] obtain p1 s1 Q1 where
      1: "it_deref ip env (\<lparr>it_policy = p\<rparr>, s) = Some (Ok v (\<lparr>it_policy = p1\<rparr>, s1))"
        "walk f l ra (i # ids) p1"
        "coherent R view valid tracked einv cap s1 L Q1 D (2 * Suc (unat ra) * length ids + n)"
    by blast
  obtain p2 where 2: "ip_increment ip p1 = Some (Ok () p2)" "walk f l ra ids p2"
    using walk_increment [OF 1(2)] by blast
  have "it_neq ip \<lparr>it_policy = p\<rparr> stop"
    using walk_stop [OF Cons.prems(2)] stop by (simp add: it_neq_def)
  then have "iterate_from ip env stop vs (\<lparr>it_policy = p\<rparr>, s) =
      iterate_from ip env stop (vs @ [v]) (\<lparr>it_policy = p2\<rparr>, s1)"
    using 1(1) 2(1) by (subst iterate_from.simps) (simp add: it_incr_def on_it_def)
  moreover obtain st' Q' where "iterate_from ip env stop (vs @ [v]) (\<lparr>it_policy = p2\<rparr>, s1) =
        Some (Ok ((vs @ [v]) @ map (\<lambda>i. the (L i)) ids) st')"
      "coherent R view valid tracked einv cap (snd st') L Q' D n"
    using Cons.IH [OF 1(3) 2(2), of "vs @ [v]"] Cons.prems(3) by auto
  ultimately show ?case using v by (intro exI [of _ st'] exI [of _ Q']) simp
qed

end

lemma unat_ucast_wide: "unat (ucast (w :: u32) :: u64) = unat w"
  using unat_widen [of "unat w"] unsigned_less [of w, where 'a = nat] by simp

lemma for_each_ok:
  assumes cw: "cached_walk os R view room valid ep tracked einv cap ip (it_ptr c) okay walk visits stops"
    and env: "ce_os env = os" "ce_ep env = ep"
    and ok: "okay (it_first c) (it_last c) (ucast (readAhead c))"
    and co: "coherent R view valid tracked einv cap s L Q D
      (2 * Suc (unat (readAhead c)) * length (visits (it_first c) (it_last c)) + n)"
    and ex: "\<forall>i\<in>{it_first c..it_last c}. L i \<noteq> None"
    and set: "set (visits (it_first c) (it_last c)) \<subseteq> {it_first c..it_last c}"
  shows "\<exists>s'. for_each ip env c s = Some (Ok (map (\<lambda>i. the (L i)) (visits (it_first c) (it_last c))) s')
           \<and> length (cache s') \<le> unat (cm_max_size s')"
proof -
  let ?f = "it_first c" and ?l = "it_last c" and ?ra = "ucast (readAhead c) :: u64"
  have wp: "walking_policy ip (it_ptr c) okay walk visits stops" and cc: "coherent_cache os R view room valid ep tracked einv cap"
    using cw by (simp_all add: cached_walk_def)
  obtain p where b: "ip_setState ip ?f ?l ?ra kBegin (ip_clone ip (it_ptr c)) = Some (Ok () p)"
      "walk ?f ?l ?ra (visits ?f ?l) p"
    using walking_policy.walk_begin [OF wp ok] by blast
  obtain p' where e: "ip_setState ip ?f ?l ?ra kEnd (ip_clone ip (it_ptr c)) = Some (Ok () p')"
      "ip_getState ip p' = stops ?f ?l"
    using walking_policy.walk_end [OF wp ok] by blast
  have "unat ?ra = unat (readAhead c)" by (rule unat_ucast_wide)
  with co have co': "coherent R view valid tracked einv cap s L Q D
      (2 * Suc (unat ?ra) * length (visits ?f ?l) + n)"
    by simp
  have "\<forall>i\<in>set (visits ?f ?l). L i \<noteq> None" using ex set by blast
  from cached_walk.iterate_coherent [OF cw co' env b(2) this, of "\<lparr>it_policy = p'\<rparr>" "[]"] e(2)
  obtain st' Q' where "iterate_from ip env \<lparr>it_policy = p'\<rparr> [] (\<lparr>it_policy = p\<rparr>, s) =
        Some (Ok (map (\<lambda>i. the (L i)) (visits ?f ?l)) st')"
      "coherent R view valid tracked einv cap (snd st') L Q' D n"
    by auto
  then show ?thesis using b(1) e(1) coherent_cache.coherent_capacity [OF cc]
    by (auto simp: for_each_def iterable_begin_def iterable_end_def Iterator_def)
qed

section \<open>Both policies keep the promise\<close>

lemma set_id_range:
  assumes "f \<le> l"
  shows "set (id_range f l) = {f..l}"
proof (intro equalityI subsetI)
  fix x assume "x \<in> set (id_range f l)"
  then obtain i where "x = f + word_of_nat i" "i \<le> unat (l - f)" by (auto simp: id_range_def less_Suc_eq_le simp del: upt_Suc)
  moreover have "i < 2 ^ 64" using calculation(2) unsigned_less [of "l - f", where 'a = nat] by simp
  then have "unat (word_of_nat i :: u64) = i" by (simp add: unat_of_nat)
  ultimately show "x \<in> {f..l}" using add_in_range [OF assms, of "word_of_nat i"] by simp
next
  fix x assume "x \<in> {f..l}"
  then have "f \<le> x" "x \<le> l" by simp_all
  then have "unat (x - f) \<le> unat (l - f)" by (simp add: unat_sub word_le_nat_alt diff_le_mono)
  moreover have "x = f + word_of_nat (unat (x - f))" by simp
  ultimately show "x \<in> set (id_range f l)"
    unfolding id_range_def set_map by (intro image_eqI [of _ _ "unat (x - f)"]) (simp_all add: less_Suc_eq_le del: upt_Suc)
qed

lemma length_id_range [simp]: "length (id_range f l) = Suc (unat (l - f))"
  by (simp add: id_range_def)

lemma id_range_nth: "k \<le> unat (l - f) \<Longrightarrow> id_range f l ! k = f + word_of_nat k"
  unfolding id_range_def by (subst nth_map) (simp_all del: upt_Suc)

lemma id_range_past_end: "f + word_of_nat (Suc (unat (l - f))) = (l :: ObjectID) + 1"
  by simp

lemma offset_eq_iff:
  fixes f :: u64
  assumes "i < 2 ^ 64" "j < 2 ^ 64"
  shows "f + word_of_nat i = f + word_of_nat j \<longleftrightarrow> i = j"
proof
  assume "f + word_of_nat i = f + word_of_nat j"
  then have "(word_of_nat i :: u64) = word_of_nat j" by (rule add_left_imp_eq)
  then have "unat (word_of_nat i :: u64) = unat (word_of_nat j :: u64)" by simp
  then show "i = j" using assms by (simp add: unat_of_nat)
qed simp

subsection \<open>The ordered policy\<close>

text \<open>
  The formula of \<^verbatim>\<open>getPrefetchList\<close> is the one of the prefetch policy of the cache, run with a
  32-bit counter: it gives the same list while the counter does not wrap around.
\<close>

abbreviation cache_policy_of :: "ordered_iter \<Rightarrow> ordered_policy" where
  "cache_policy_of p \<equiv> \<lparr>read_ahead = oi_read_ahead p, op_first = oi_first p, op_last = oi_last p\<rparr>"

lemma ordered_fetch_loop:
  assumes "unat (oi_read_ahead p) < 2 ^ 32 - 1" "unat i \<le> Suc (unat (oi_read_ahead p))"
  shows "ordered_fetch p i v =
    Some (v @ ordered_loop (cache_policy_of p) (current_id p) (ucast i) (Suc (unat (oi_read_ahead p)) - unat i))"
  using assms(2)
proof (induction "Suc (unat (oi_read_ahead p)) - unat i" arbitrary: i v)
  case 0
  then have "\<not> (ucast i :: u64) \<le> oi_read_ahead p" by (simp add: word_le_nat_alt unat_ucast_wide)
  then show ?case using 0 by (subst ordered_fetch.simps) simp
next
  case (Suc k)
  have le: "(ucast i :: u64) \<le> oi_read_ahead p" using Suc.hyps(2) by (simp add: word_le_nat_alt unat_ucast_wide)
  have i1: "unat (i + 1) = Suc (unat i)"
    using Suc.hyps(2) assms(1) by (simp add: unat_word_ariths)
  have u1: "(ucast (i + 1) :: u64) = ucast i + 1"
  proof (rule unsigned_word_eqI [where 'a = nat])
    show "unat (ucast (i + 1) :: u64) = unat (ucast i + 1 :: u64)"
      using i1 Suc.hyps(2) assms(1) by (simp add: unat_word_ariths unat_ucast_wide)
  qed
  have k: "k = Suc (unat (oi_read_ahead p)) - unat (i + 1)" "unat (i + 1) \<le> Suc (unat (oi_read_ahead p))"
    using Suc.hyps(2) i1 by simp_all
  have m: "Suc (unat (oi_read_ahead p)) - unat i = Suc k" using Suc.hyps(2) by simp
  show ?case
    unfolding m using le Suc.hyps(1) [OF k] k(1) u1 by (subst ordered_fetch.simps) (simp add: Let_def)
qed

definition ordered_okay :: "ObjectID \<Rightarrow> ObjectID \<Rightarrow> u64 \<Rightarrow> bool" where
  "ordered_okay f l ra \<longleftrightarrow> f \<le> l \<and> Suc (unat (l - f)) + unat ra < 2 ^ 64 \<and> unat ra < 2 ^ 32 - 1"

definition ordered_walk :: "ObjectID \<Rightarrow> ObjectID \<Rightarrow> u64 \<Rightarrow> ObjectID list \<Rightarrow> 'c any_policy \<Rightarrow> bool" where
  "ordered_walk f l ra ids p \<longleftrightarrow> ordered_okay f l ra \<and>
     (\<exists>k \<le> Suc (unat (l - f)). ids = drop k (id_range f l)
        \<and> p = Ordered \<lparr>oi_first = f, oi_last = l, oi_read_ahead = ra, current_id = f + word_of_nat k\<rparr>)"

lemma drop_Cons_iff: "drop k xs = y # ys \<longleftrightarrow> k < length xs \<and> y = xs ! k \<and> ys = drop (Suc k) xs"
proof (cases "k < length xs")
  case True
  then show ?thesis using Cons_nth_drop_Suc [OF True] by (metis list.inject)
qed simp

lemma ordered_prefetch_list:
  assumes ok: "ordered_okay f l ra" and k: "k \<le> unat (l - f)"
    and p: "p = \<lparr>oi_first = f, oi_last = l, oi_read_ahead = ra, current_id = f + word_of_nat k\<rparr>"
  shows "\<exists>qs. ordered_getPrefetchList p = Some (Ok qs p) \<and> distinct qs
           \<and> set qs \<subseteq> {f..l} - {f + word_of_nat k} \<and> length qs \<le> unat ra"
proof -
  have fl: "f \<le> l" "Suc (unat (l - f)) + unat ra < 2 ^ 64" "unat ra < 2 ^ 32 - 1"
    using ok by (simp_all add: ordered_okay_def)
  have "f + word_of_nat k \<in> set (id_range f l)"
    using id_range_nth [OF k] k by (metis length_id_range less_Suc_eq_le nth_mem)
  then have cur: "f \<le> f + word_of_nat k" "f + word_of_nat k \<le> l" using set_id_range [OF fl(1)] by auto
  have ra: "ra \<le> 2 ^ 60 - 1" using fl(3) by (simp add: word_le_nat_alt)
  have nz: "l - f + 1 \<noteq> 0"
  proof
    assume "l - f + 1 = 0"
    then have "unat (l - f + 1) = 0" by simp
    then show False using fl(2) by (simp add: unat_word_ariths)
  qed
  from ordered_get_list [of "cache_policy_of p" "f + word_of_nat k" "Suc (unat (l - f))" "()"] cur ra fl p
  obtain qs where qs: "ordered_get (cache_policy_of p) (f + word_of_nat k) () = Ok qs ()"
      "qs = map (\<lambda>j. f + word_of_nat ((unat (f + word_of_nat k - f) + j) mod Suc (unat (l - f))))
              [1..<min (Suc (unat ra)) (Suc (unat (l - f)))]"
      "distinct qs" "set qs \<subseteq> {f..l} - {f + word_of_nat k}"
    by auto
  have "\<not> f + word_of_nat k < f" "\<not> l < f + word_of_nat k" "\<not> 2 ^ 60 - 1 < ra"
    using cur ra by (simp_all only: not_less)
  then have "ordered_get (cache_policy_of p) (f + word_of_nat k) () =
      Ok (ordered_loop (cache_policy_of p) (f + word_of_nat k) 1 (unat ra)) ()"
    unfolding ordered_get_def using nz p by simp
  then have "qs = ordered_loop (cache_policy_of p) (f + word_of_nat k) 1 (unat ra)" using qs(1) by simp
  moreover have "ordered_fetch p 1 [] = Some ([] @ ordered_loop (cache_policy_of p) (current_id p) (ucast (1 :: u32))
      (Suc (unat (oi_read_ahead p)) - unat (1 :: u32)))"
    using fl(3) p by (intro ordered_fetch_loop) simp_all
  ultimately have "ordered_fetch p 1 [] = Some qs" using p by simp
  then have "ordered_getPrefetchList p = Some (Ok qs p)"
    using ra nz p by (simp add: ordered_getPrefetchList_def not_less)
  moreover have "length qs \<le> unat ra" unfolding qs(2) by simp
  ultimately show ?thesis using qs(3,4) by blast
qed

lemma ordered_step:
  assumes "ordered_walk f l ra (i # ids) p"
  obtains k where "k \<le> unat (l - f)" "i = f + word_of_nat k" "ids = drop (Suc k) (id_range f l)"
    "p = Ordered \<lparr>oi_first = f, oi_last = l, oi_read_ahead = ra, current_id = f + word_of_nat k\<rparr>"
    "ordered_okay f l ra"
proof -
  obtain k where "drop k (id_range f l) = i # ids" "ordered_okay f l ra"
      "p = Ordered \<lparr>oi_first = f, oi_last = l, oi_read_ahead = ra, current_id = f + word_of_nat k\<rparr>"
    using assms by (auto simp: ordered_walk_def)
  moreover from this have "k \<le> unat (l - f)" by (simp add: drop_Cons_iff)
  ultimately show ?thesis using that id_range_nth by (simp add: drop_Cons_iff)
qed

lemma any_ip_simps [simp]:
  "ip_setState (any_ip shuf cust) f l ra pos (Ordered q) = liftW Ordered (ordered_setState f l ra pos q)"
  "ip_setState (any_ip shuf cust) f l ra pos (Unordered u) = liftW Unordered (unordered_setState shuf f l ra pos u)"
  "ip_getPrefetchList (any_ip shuf cust) (Ordered q) = liftW Ordered (ordered_getPrefetchList q)"
  "ip_getPrefetchList (any_ip shuf cust) (Unordered u) = liftW Unordered (unordered_getPrefetchList u)"
  "ip_dereference (any_ip shuf cust) (Ordered q) = liftW Ordered (ordered_dereference q)"
  "ip_dereference (any_ip shuf cust) (Unordered u) = liftW Unordered (unordered_dereference u)"
  "ip_increment (any_ip shuf cust) (Ordered q) = liftW Ordered (ordered_increment q)"
  "ip_increment (any_ip shuf cust) (Unordered u) = liftW Unordered (unordered_increment u)"
  "ip_getState (any_ip shuf cust) (Ordered q) = ordered_getState q"
  "ip_getState (any_ip shuf cust) (Unordered u) = unordered_getState u"
  "ip_clone (any_ip shuf cust) (Ordered q) = Ordered (ordered_clone q)"
  "ip_clone (any_ip shuf cust) (Unordered u) = Unordered u"
  by (simp_all add: any_ip_def)

interpretation ordered: walking_policy "any_ip shuf cust" "Ordered ordered_iter_new" ordered_okay ordered_walk
  id_range "\<lambda>f l. l + 1" for shuf cust
proof (unfold_locales, goal_cases)
  case (1 f l ra)
  then show ?case by (simp add: ordered_okay_def)
next
  case (2 f l ra)
  then show ?case
    by (auto simp: ordered_setState_def ordered_clone_def ordered_walk_def ordered_iter_new_def intro!: exI [of _ 0])
next
  case (3 f l ra)
  then show ?case by (simp add: ordered_setState_def ordered_getState_def)
next
  case (4 f l ra i ids p)
  then obtain k where k: "k \<le> unat (l - f)" "ordered_okay f l ra"
      "p = Ordered \<lparr>oi_first = f, oi_last = l, oi_read_ahead = ra, current_id = f + word_of_nat k\<rparr>"
    by (rule ordered_step)
  from ordered_prefetch_list [OF k(2,1) refl] 4 k(3) show ?case by auto
next
  case (5 f l ra i ids p)
  then obtain k where "i = f + word_of_nat k"
      "p = Ordered \<lparr>oi_first = f, oi_last = l, oi_read_ahead = ra, current_id = f + word_of_nat k\<rparr>"
    by (rule ordered_step)
  with 5 show ?case by (simp add: ordered_dereference_def)
next
  case (6 f l ra i ids p)
  then show ?case
    by (elim ordered_step) (auto simp: ordered_increment_def ordered_walk_def add.assoc intro!: exI [of _ "Suc _"])
next
  case (7 f l ra ids p)
  then obtain k where k: "k \<le> Suc (unat (l - f))" "ids = drop k (id_range f l)" "ordered_okay f l ra"
      "p = Ordered \<lparr>oi_first = f, oi_last = l, oi_read_ahead = ra, current_id = f + word_of_nat k\<rparr>"
    by (auto simp: ordered_walk_def)
  have "f + word_of_nat k = f + word_of_nat (Suc (unat (l - f))) \<longleftrightarrow> k = Suc (unat (l - f))"
    using k(1,3) by (intro offset_eq_iff) (simp_all add: ordered_okay_def)
  then show ?case using k by (auto simp: ordered_getState_def id_range_past_end)
qed

subsection \<open>The unordered policy\<close>

text \<open>What is documented of \<^verbatim>\<open>std::shuffle\<close>: the result is a permutation.\<close>

definition shuffle_documented :: "('a list \<Rightarrow> 'a list) \<Rightarrow> bool" where
  "shuffle_documented shuf \<longleftrightarrow> (\<forall>xs. mset (shuf xs) = mset xs)"

lemma push_ids_range:
  assumes "f \<le> l" "l \<noteq> - 1" "k \<le> Suc (unat (l - f))"
  shows "push_ids (f + word_of_nat k) l v = Some (v @ drop k (id_range f l))"
  using assms(3)
proof (induction "Suc (unat (l - f)) - k" arbitrary: k v)
  case 0
  then have "f + word_of_nat k = l + 1" using id_range_past_end [of f l] by simp
  moreover have "\<not> l + 1 \<le> l" 
    using unat_not_max [OF assms(2)] by (simp add: word_le_nat_alt unat_word_ariths)
  ultimately show ?case using 0 by (subst push_ids.simps) simp
next
  case (Suc j)
  then have k: "k \<le> unat (l - f)" by simp
  have "f + word_of_nat k \<in> set (id_range f l)"
    using id_range_nth [OF k] k by (metis length_id_range less_Suc_eq_le nth_mem)
  then have "f + word_of_nat k \<le> l" using set_id_range [OF assms(1)] by auto
  moreover have "drop k (id_range f l) = (f + word_of_nat k) # drop (Suc k) (id_range f l)"
    using k id_range_nth [OF k] by (simp add: drop_Cons_iff)
  moreover have "push_ids (f + word_of_nat (Suc k)) l w = Some (w @ drop (Suc k) (id_range f l))" for w
    using Suc.hyps k by (intro Suc.hyps(1)) simp_all
  ultimately show ?case by (subst push_ids.simps) (simp add: ac_simps)
qed

lemma unordered_fetch_ok:
  assumes "unat (ui_read_ahead p) < 2 ^ 32 - 1" "unat i \<le> Suc (unat (ui_read_ahead p))"
  shows "\<exists>qs. unordered_fetch p i v = Some (v @ qs) \<and> set qs \<subseteq> set (id_vector p)
           \<and> length qs \<le> Suc (unat (ui_read_ahead p)) - unat i"
  using assms(2)
proof (induction "Suc (unat (ui_read_ahead p)) - unat i" arbitrary: i v)
  case 0
  then have "\<not> (ucast i :: u64) \<le> ui_read_ahead p" by (simp add: word_le_nat_alt unat_ucast_wide)
  then show ?case by (subst unordered_fetch.simps) simp
next
  case (Suc k)
  have le: "(ucast i :: u64) \<le> ui_read_ahead p" using Suc.hyps(2) by (simp add: word_le_nat_alt unat_ucast_wide)
  have i1: "unat (i + 1) = Suc (unat i)" using Suc.hyps(2) assms(1) by (simp add: unat_word_ariths)
  let ?j = "unat (current_index p + ucast i)"
  let ?new = "if ?j < length (id_vector p) then [id_vector p ! ?j] else []"
  obtain qs where qs: "unordered_fetch p (i + 1) (v @ ?new) = Some ((v @ ?new) @ qs)"
      "set qs \<subseteq> set (id_vector p)" "length qs \<le> Suc (unat (ui_read_ahead p)) - unat (i + 1)"
  proof -
    have "k = Suc (unat (ui_read_ahead p)) - unat (i + 1)" "unat (i + 1) \<le> Suc (unat (ui_read_ahead p))"
      using Suc.hyps(2) i1 by simp_all
    from Suc.hyps(1) [OF this, of "v @ ?new"] show ?thesis by (elim exE conjE) (rule that)
  qed
  have "unordered_fetch p i v = Some (v @ ?new @ qs)"
    using le qs(1) by (subst unordered_fetch.simps) (auto split: if_splits)
  moreover have "set (?new @ qs) \<subseteq> set (id_vector p)" using qs(2) by auto
  moreover have "length (?new @ qs) \<le> Suc (unat (ui_read_ahead p)) - unat i"
    using qs(3) Suc.hyps(2) i1 by auto
  ultimately show ?case by blast
qed

definition unordered_okay :: "ObjectID \<Rightarrow> ObjectID \<Rightarrow> u64 \<Rightarrow> bool" where
  "unordered_okay f l ra \<longleftrightarrow> f \<le> l \<and> l \<noteq> - 1 \<and> unat ra < 2 ^ 32 - 1"

definition unordered_walk ::
  "(ObjectID list \<Rightarrow> ObjectID list) \<Rightarrow> ObjectID \<Rightarrow> ObjectID \<Rightarrow> u64 \<Rightarrow> ObjectID list \<Rightarrow> 'c any_policy \<Rightarrow> bool" where
  "unordered_walk shuf f l ra ids p \<longleftrightarrow> unordered_okay f l ra \<and>
     (\<exists>k \<le> Suc (unat (l - f)). ids = drop k (shuf (id_range f l))
        \<and> p = Unordered \<lparr>ui_read_ahead = ra, current_index = word_of_nat k, id_vector = shuf (id_range f l)\<rparr>)"

lemma unordered_size:
  assumes "unordered_okay f l ra"
  shows "Suc (unat (l - f)) < 2 ^ 64"
proof -
  have "unat l < 2 ^ 64 - 1" using assms unat_not_max by (simp add: unordered_okay_def)
  moreover have "unat (l - f) \<le> unat l" using assms by (simp add: unordered_okay_def unat_sub)
  ultimately show ?thesis by simp
qed

lemma unordered_step:
  assumes "shuffle_documented shuf" "unordered_walk shuf f l ra (i # ids) p"
  obtains k where "k \<le> unat (l - f)" "i = shuf (id_range f l) ! k" "ids = drop (Suc k) (shuf (id_range f l))"
    "p = Unordered \<lparr>ui_read_ahead = ra, current_index = word_of_nat k, id_vector = shuf (id_range f l)\<rparr>"
    "unordered_okay f l ra" "length (shuf (id_range f l)) = Suc (unat (l - f))" "unat (word_of_nat k :: u64) = k"
proof -
  obtain k where k: "drop k (shuf (id_range f l)) = i # ids" "unordered_okay f l ra"
      "p = Unordered \<lparr>ui_read_ahead = ra, current_index = word_of_nat k, id_vector = shuf (id_range f l)\<rparr>"
    using assms(2) by (auto simp: unordered_walk_def)
  have len: "length (shuf (id_range f l)) = Suc (unat (l - f))"
    using assms(1) by (metis length_id_range shuffle_documented_def size_mset)
  moreover have "k \<le> unat (l - f)" using k(1) len by (simp add: drop_Cons_iff)
  moreover from this have "unat (word_of_nat k :: u64) = k"
    using unordered_size [OF k(2)] by (simp add: unat_of_nat)
  ultimately show ?thesis using that k by (simp add: drop_Cons_iff)
qed

lemma unordered_walking:
  assumes sh: "shuffle_documented shuf"
  shows "walking_policy (any_ip shuf cust) (Unordered unordered_iter_new) unordered_okay (unordered_walk shuf)
           (\<lambda>f l. shuf (id_range f l)) (\<lambda>f l. l - f + 1)"
proof (unfold_locales, goal_cases)
  case (1 f l ra)
  then show ?case using sh by (simp add: unordered_okay_def shuffle_documented_def)
next
  case (2 f l ra)
  then show ?case using push_ids_range [of f l 0]
    by (auto simp: unordered_setState_def unordered_walk_def unordered_iter_new_def unordered_okay_def intro!: exI [of _ 0])
next
  case (3 f l ra)
  then show ?case using push_ids_range [of f l 0]
    by (auto simp: unordered_setState_def unordered_getState_def unordered_okay_def unordered_iter_new_def)
next
  case (4 f l ra i ids p)
  then obtain k where k: "unordered_okay f l ra"
      "p = Unordered \<lparr>ui_read_ahead = ra, current_index = word_of_nat k, id_vector = shuf (id_range f l)\<rparr>"
    by (rule unordered_step [OF sh])
  let ?q = "\<lparr>ui_read_ahead = ra, current_index = word_of_nat k, id_vector = shuf (id_range f l)\<rparr>"
  have ra: "unat ra < 2 ^ 32 - 1" and fl: "f \<le> l" using k(1) by (simp_all add: unordered_okay_def)
  have "\<not> 2 ^ 60 - 1 < ra" using ra by (simp add: word_less_nat_alt)
  moreover have "set (shuf (id_range f l)) = {f..l}"
    using sh set_id_range [OF fl] by (metis set_mset_mset shuffle_documented_def)
  ultimately show ?case using unordered_fetch_ok [of ?q 1 "[]"] ra 4 k(2)
    by (auto simp: unordered_getPrefetchList_def)
next
  case (5 f l ra i ids p)
  then obtain k where "k \<le> unat (l - f)" "i = shuf (id_range f l) ! k" "unat (word_of_nat k :: u64) = k"
      "p = Unordered \<lparr>ui_read_ahead = ra, current_index = word_of_nat k, id_vector = shuf (id_range f l)\<rparr>"
      "length (shuf (id_range f l)) = Suc (unat (l - f))"
    by (rule unordered_step [OF sh])
  with 5 show ?case by (simp add: unordered_dereference_def)
next
  case (6 f l ra i ids p)
  then show ?case
    by (elim unordered_step [OF sh])
      (auto simp: unordered_increment_def unordered_walk_def add.commute intro!: exI [of _ "Suc _"])
next
  case (7 f l ra ids p)
  then obtain k where k: "k \<le> Suc (unat (l - f))" "ids = drop k (shuf (id_range f l))" "unordered_okay f l ra"
      "p = Unordered \<lparr>ui_read_ahead = ra, current_index = word_of_nat k, id_vector = shuf (id_range f l)\<rparr>"
    by (auto simp: unordered_walk_def)
  have "length (shuf (id_range f l)) = Suc (unat (l - f))"
    using sh by (metis length_id_range shuffle_documented_def size_mset)
  moreover have "(0 :: u64) + word_of_nat k = 0 + word_of_nat (Suc (unat (l - f))) \<longleftrightarrow> k = Suc (unat (l - f))"
    using k(1) unordered_size [OF k(3)] by (intro offset_eq_iff) simp_all
  ultimately show ?case using k by (auto simp: unordered_getState_def add.commute)
qed

section \<open>Iterating over objects on a server\<close>

interpretation vertex_walk: cached_walk "fb_ostore vertex_store" "mem_R vertex_store wcc_valid"
  "fb_view wcc_deserializer" "fb_room wcc_serializer" wcc_valid lra_policy object_set "lra_invar (Suc n)" "Suc n"
  "any_ip shuf cust" "Ordered ordered_iter_new" ordered_okay ordered_walk id_range "\<lambda>f l. l + 1"
  for n shuf cust
  by (intro cached_walk.intro vertex_caches.coherent_cache_axioms ordered.walking_policy_axioms)

lemma for_each_stack:
  assumes st: "stack_ok fb valid" "fresh_cache fb valid n k a cm"
    and wp: "walking_policy ip (it_ptr c) okay walk visits stops"
    and ok: "okay (it_first c) (it_last c) (ucast (readAhead c))"
    and k: "k = 2 * Suc (unat (readAhead c)) * Suc (unat (it_last c - it_first c))"
    and ex: "\<forall>i\<in>{it_first c..it_last c}. fb_view (deserializer fb) a i \<noteq> None"
  shows "\<exists>cm'. for_each ip (fb_cache_env fb d cust) c cm =
             Some (Ok (map (\<lambda>i. the (fb_view (deserializer fb) a i)) (visits (it_first c) (it_last c))) cm')
           \<and> length (cache cm') \<le> unat (cm_max_size cm')"
proof -
  note co = fresh_coherent [OF st, of "{}", OF finite.emptyI, unfolded card.empty, OF le0]
  have v: "mset (visits (it_first c) (it_last c)) = mset (id_range (it_first c) (it_last c))"
      "it_first c \<le> it_last c"
    using walking_policy.okay_visits [OF wp ok] by simp_all
  have "length (visits (it_first c) (it_last c)) = Suc (unat (it_last c - it_first c))"
    using v(1) by (metis length_id_range size_mset)
  then have co': "coherent (mem_R fb valid) (fb_view (deserializer fb)) valid object_set (lra_invar (unat n)) (unat n)
      cm (fb_view (deserializer fb) a) {} {}
      (2 * Suc (unat (readAhead c)) * length (visits (it_first c) (it_last c)) + 0)"
    using co(1) k by simp
  have vs: "set (visits (it_first c) (it_last c)) \<subseteq> {it_first c..it_last c}"
    using v set_id_range by (metis order_refl set_mset_mset)
  have cw: "cached_walk (fb_ostore fb) (mem_R fb valid) (fb_view (deserializer fb)) (fb_room (serializer fb))
      valid lra_policy object_set (lra_invar (unat n)) (unat n) ip (it_ptr c) okay walk visits stops"
    using stack_cache [OF st(1) co(2)] wp by (rule cached_walk.intro)
  show ?thesis by (rule for_each_ok [OF cw _ _ ok co' ex vs]) simp_all
qed





section \<open>Ranges at the end of the ids\<close>

text \<open>The unordered policy never finishes setting up a range that ends with the largest id.\<close>

lemma push_ids_endless: "push_ids i (- 1) v = None"
proof -
  have "False" if "push_ids i (- 1) v = Some r" for r
  proof -
    have "(- 1 :: u64) = - 1 \<longrightarrow> False"
      by (rule push_ids.raw_induct [where P = "\<lambda>i l v r. l = - 1 \<longrightarrow> False", OF _ that]) (auto split: if_splits)
    then show ?thesis by simp
  qed
  then show ?thesis by (cases "push_ids i (- 1) v") auto
qed

lemma unordered_begin_endless:
  "iterable_begin (any_ip shuf cust) ((CirrusIterable ra f (- 1))\<lparr>it_ptr := Unordered q\<rparr>) m = None"
  by (simp add: iterable_begin_def Iterator_def CirrusIterable_def unordered_setState_def push_ids_endless)

text \<open>Over the full range of ids the ordered begin iterator equals the end iterator: nothing is read.\<close>

lemma ordered_full_range_empty:
  "for_each (any_ip shuf cust) env (CirrusIterable ra 0 (- 1)) cm = Some (Ok [] cm)"
proof -
  have "it_neq (any_ip shuf cust) \<lparr>it_policy = Ordered q\<rparr> \<lparr>it_policy = Ordered q'\<rparr> \<longleftrightarrow> current_id q \<noteq> current_id q'" for q q'
    by (simp add: it_neq_def ordered_getState_def)
  then show ?thesis
    by (subst for_each_def)
      (simp add: iterable_begin_def iterable_end_def Iterator_def CirrusIterable_def ordered_setState_def iterate_from.simps)
qed

end
