(* ===== verification/Object_Programs.thy ===== *)
theory Object_Programs
  imports Cache_System
begin

text \<open>
  The contract the example programs rely on: a memory of objects with a \<^verbatim>\<open>get\<close> and a
  \<^verbatim>\<open>put\<close>, given as a locale. Two caches meet it: a cache of any capacity over a store whose
  serializer keeps the whole object, and a cache that holds every object of the program, over
  a serializer that may drop part of it.
\<close>

section \<open>Runs\<close>

text \<open>
  \<open>runs H c l m r l'\<close>: in every state that stands for \<open>l\<close> and can still issue \<open>m + k\<close>
  requests the call \<open>c\<close> returns \<open>r\<close>, in a state that stands for \<open>l'\<close> and can issue \<open>k\<close>.
\<close>

definition runs ::
  "('s \<Rightarrow> 'l \<Rightarrow> nat \<Rightarrow> bool) \<Rightarrow> ('s \<Rightarrow> ('a, 's) call) \<Rightarrow> 'l \<Rightarrow> nat \<Rightarrow> 'a \<Rightarrow> 'l \<Rightarrow> bool" where
  "runs H c l m r l' \<longleftrightarrow> (\<forall>s k. H s l (m + k) \<longrightarrow> (\<exists>s'. c s = Some (Ok r s') \<and> H s' l' k))"

lemma runsI:
  assumes "\<And>s k. H s l (m + k) \<Longrightarrow> \<exists>s'. c s = Some (Ok r s') \<and> H s' l' k"
  shows "runs H c l m r l'"
  using assms by (simp add: runs_def)

lemma runsE:
  assumes "runs H c l m r l'" "H s l (m + k)"
  obtains s' where "c s = Some (Ok r s')" "H s' l' k"
  using assms by (auto simp: runs_def)

lemma runs_return: "runs H (\<lambda>s. Some (Ok r s)) l 0 r l"
  by (simp add: runs_def)

lemma runs_bind:
  assumes "runs H c l m r l1" "runs H (f r) l1 m' r' l2"
  shows "runs H (\<lambda>s. bindW (c s) f) l (m + m') r' l2"
proof (rule runsI)
  fix s k assume "H s l (m + m' + k)"
  then have "H s l (m + (m' + k))" by (simp add: add.assoc)
  with assms(1) obtain s1 where 1: "c s = Some (Ok r s1)" "H s1 l1 (m' + k)" by (rule runsE)
  obtain s2 where "f r s1 = Some (Ok r' s2)" "H s2 l2 k" using assms(2) 1(2) by (rule runsE)
  then show "\<exists>s'. bindW (c s) f = Some (Ok r' s') \<and> H s' l2 k" using 1(1) by auto
qed

lemma runs_map:
  assumes "runs H c l m r l'"
  shows "runs H (\<lambda>s. bindW (c s) (\<lambda>x s'. Some (Ok (g x) s'))) l m (g r) l'"
  using assms by (fastforce simp: runs_def)

lemma runs_cong: "(\<And>s. c s = c' s) \<Longrightarrow> runs H c' l m r l' \<Longrightarrow> runs H c l m r l'"
  by (simp add: runs_def)

section \<open>The contract\<close>

text \<open>
  What a state stands for are the objects and the set \<open>Q\<close> of ids whose prefetch may be under
  way: a put has to be of another id, and a get completes the prefetch. Each call may take two
  requests to the server.
\<close>

locale object_memory =
  fixes mget :: "ObjectID \<Rightarrow> 's \<Rightarrow> ('t, 's) call"
    and mput :: "ObjectID \<Rightarrow> 't \<Rightarrow> 's \<Rightarrow> (unit, 's) call"
    and H :: "'s \<Rightarrow> (ObjectID \<rightharpoonup> 't) \<times> ObjectID set \<Rightarrow> nat \<Rightarrow> bool"
    and allowed :: "(ObjectID \<rightharpoonup> 't) \<Rightarrow> ObjectID \<Rightarrow> 't \<Rightarrow> bool"
  assumes memory_less: "H s l (Suc k) \<Longrightarrow> H s l k"
    and memory_pending: "H s (L, Q) k \<Longrightarrow> Q \<subseteq> Q' \<Longrightarrow> H s (L, Q') k"
    and memory_get: "L i = Some v \<Longrightarrow> runs H (mget i) (L, Q) 2 v (L, Q - {i})"
    and memory_put: "allowed L i v \<Longrightarrow> i \<notin> Q \<Longrightarrow> runs H (mput i v) (L, Q) 2 () (L(i \<mapsto> v), Q)"
begin

lemma memory_mono: "H s l (d + k) \<Longrightarrow> H s l k"
  by (induction d) (auto dest: memory_less)

lemma runs_more:
  assumes "runs H c l m r l'" "m \<le> m'"
  shows "runs H c l m' r l'"
proof (rule runsI)
  fix s k assume h: "H s l (m' + k)"
  have "m' + k = (m' - m) + (m + k)" using assms(2) by simp
  with h have "H s l (m + k)" by (metis memory_mono)
  then show "\<exists>s'. c s = Some (Ok r s') \<and> H s' l' k" using assms(1) by (auto simp: runs_def)
qed

lemma runs_pending:
  assumes "runs H c l m r (L', Q)" "Q \<subseteq> Q'"
  shows "runs H c l m r (L', Q')"
  using assms memory_pending unfolding runs_def by blast

end

text \<open>The loop with which the programs store their vertices: \<^verbatim>\<open>cm.put(vertices[i].getId(), vertices[i])\<close>.\<close>

fun put_vertices ::
  "(ObjectID \<Rightarrow> 't \<Rightarrow> 's \<Rightarrow> (unit, 's) call) \<Rightarrow> ('t \<Rightarrow> u32) \<Rightarrow> 't list \<Rightarrow> 's \<Rightarrow> (unit, 's) call" where
  "put_vertices cm_put getId [] s = Some (Ok () s)"
| "put_vertices cm_put getId (v # vs) s =
     bindW (cm_put (scast (getId v)) v s) (\<lambda>_. put_vertices cm_put getId vs)"

definition vertices_map :: "('t \<Rightarrow> u32) \<Rightarrow> 't list \<Rightarrow> (ObjectID \<rightharpoonup> 't) \<Rightarrow> (ObjectID \<rightharpoonup> 't)" where
  "vertices_map getId vs L = foldl (\<lambda>M v. M(scast (getId v) \<mapsto> v)) L vs"

context object_memory
begin

lemma put_vertices_runs:
  assumes "\<And>k. k < length vs \<Longrightarrow> allowed (vertices_map getId (take k vs) L) (scast (getId (vs ! k))) (vs ! k)"
  shows "runs H (put_vertices mput getId vs) (L, {}) (2 * length vs) () (vertices_map getId vs L, {})"
  using assms
proof (induction vs arbitrary: L)
  case Nil
  then show ?case by (simp add: runs_def vertices_map_def)
next
  case (Cons v vs)
  have 1: "runs H (mput (scast (getId v)) v) (L, {}) 2 () (L(scast (getId v) \<mapsto> v), {})"
    using Cons.prems [of 0] by (intro memory_put) (simp_all add: vertices_map_def)
  have 2: "runs H (put_vertices mput getId vs) (L(scast (getId v) \<mapsto> v), {}) (2 * length vs) ()
      (vertices_map getId vs (L(scast (getId v) \<mapsto> v)), {})"
    using Cons.prems [of "Suc k" for k] by (intro Cons.IH) (simp add: vertices_map_def del: fun_upd_apply)
  show ?case using runs_bind [OF 1, where f = "\<lambda>_. put_vertices mput getId vs", OF 2]
    by (simp add: vertices_map_def)
qed

end

section \<open>A cache over a serializer that keeps the object\<close>

definition coherent_state ::
  "(memory_backend, 't) full_blade \<Rightarrow> ('t \<Rightarrow> bool) \<Rightarrow> nat
    \<Rightarrow> (memory_backend session, 't, nat, nat, lradded, 'c) cache_manager
    \<Rightarrow> (ObjectID \<rightharpoonup> 't) \<times> ObjectID set \<Rightarrow> nat \<Rightarrow> bool" where
  "coherent_state fb valid cap s l k \<longleftrightarrow>
     coherent (mem_R fb valid) (fb_view (deserializer fb)) valid object_set (lra_invar cap) cap
       s (fst l) (snd l) {} k \<and> \<not> defer_writes s"

lemma coherent_pending:
  assumes "coherent R view valid tracked einv cap s L Q D k" "Q \<subseteq> Q'"
  shows "coherent R view valid tracked einv cap s L Q' D k"
  using assms unfolding coherent_def data_ok_def entry_ok_def by (auto split: if_splits) blast+

lemma coherent_memory:
  fixes fb :: "(memory_backend, 't) full_blade"
  assumes "stack_ok fb valid" "0 < cap"
  shows "object_memory (get (fb_cache_env fb d cust)) (put (fb_cache_env fb d cust))
           (coherent_state fb valid cap) (\<lambda>_ _. valid)"
proof -
  note cc = stack_cache [OF assms]
  show ?thesis
  proof
    fix s l k assume "coherent_state fb valid cap s l (Suc k)"
    then show "coherent_state fb valid cap s l k"
      using coherent_cache.coherent_less [OF cc] by (auto simp: coherent_state_def)
  next
    fix s L Q Q' k assume "coherent_state fb valid cap s (L, Q) k" "Q \<subseteq> Q'"
    then show "coherent_state fb valid cap s (L, Q') k"
      by (auto simp: coherent_state_def elim: coherent_pending)
  next
    fix L :: "ObjectID \<rightharpoonup> 't" and i v Q assume "L i = Some v"
    then show "runs (coherent_state fb valid cap) (get (fb_cache_env fb d cust) i) (L, Q) 2 v (L, Q - {i})"
      using coherent_cache.get_coherent [OF cc, where env = "fb_cache_env fb d cust"]
      by (fastforce simp: runs_def coherent_state_def)
  next
    fix L :: "ObjectID \<rightharpoonup> 't" and i :: ObjectID and v Q assume "valid v" "i \<notin> Q"
    then show "runs (coherent_state fb valid cap) (put (fb_cache_env fb d cust) i v) (L, Q) 2 () (L(i \<mapsto> v), Q)"
      using coherent_cache.put_coherent [OF cc, where env = "fb_cache_env fb d cust"]
      by (fastforce simp: runs_def coherent_state_def)
  qed
qed

interpretation coherent_vertices: object_memory "get vertex_env" "put vertex_env"
  "coherent_state vertex_store wcc_valid (Suc n)" "\<lambda>_ _. wcc_valid" for n
  by (rule coherent_memory [OF vertex_stack]) simp

section \<open>A cache that holds every object\<close>

text \<open>
  The store only has to accept what the serializer writes: \<open>norm v\<close> is an object that
  survives and has the bytes of \<open>v\<close>. Nothing is ever evicted, so nothing is read back.
\<close>

definition resident ::
  "(memory_backend, 't) full_blade \<Rightarrow> ('t \<Rightarrow> bool) \<Rightarrow> nat
    \<Rightarrow> (memory_backend session, 't, nat, nat, lradded, 'c) cache_manager
    \<Rightarrow> (ObjectID \<rightharpoonup> 't) \<times> ObjectID set \<Rightarrow> nat \<Rightarrow> bool" where
  "resident fb valid cap s l k \<longleftrightarrow>
     (\<exists>a F W. mem_R fb valid (store s) a F W k)
     \<and> wf_alist (cache s) \<and> (\<forall>oid. map_option obj (map_of (cache s) oid) = fst l oid)
     \<and> (\<forall>oid e. map_of (cache s) oid = Some e \<longrightarrow> cached e)
     \<and> track_ok object_set (lra_invar cap) cap s {}
     \<and> prefetch_policy s = OffPolicy \<and> \<not> defer_writes s"

definition same_bytes :: "('b, 't) full_blade \<Rightarrow> 't \<Rightarrow> 't \<Rightarrow> bool" where
  "same_bytes fb v w \<longleftrightarrow> ser_size (serializer fb) v = ser_size (serializer fb) w
     \<and> ser_bytes (serializer fb) v = ser_bytes (serializer fb) w"

definition fits_cache ::
  "(memory_backend, 't) full_blade \<Rightarrow> ('t \<Rightarrow> bool) \<Rightarrow> nat \<Rightarrow> (ObjectID \<rightharpoonup> 't) \<Rightarrow> ObjectID \<Rightarrow> 't \<Rightarrow> bool" where
  "fits_cache fb valid cap L i v \<longleftrightarrow>
     (\<exists>w. valid w \<and> same_bytes fb v w) \<and> (L i \<noteq> None \<or> card (dom L) < cap)"

lemma put_same_bytes:
  "same_bytes fb v w \<Longrightarrow> os_put (fb_ostore fb) i v = os_put (fb_ostore fb) i w"
  by (simp add: fb_ostore_def fb_put_def WriteUnitTemplate_def same_bytes_def fun_eq_iff)

lemma residentD:
  assumes "resident fb valid cap s l k"
  shows "wf_alist (cache s)" "map_option obj (map_of (cache s) oid) = fst l oid"
    "map_of (cache s) oid = Some e \<Longrightarrow> cached e" "lra_invar cap (evp s)"
    "object_set (evp s) = dom (map_of (cache s))" "dom (map_of (cache s)) = dom (fst l)"
    "unat (cm_max_size s) = cap" "prefetch_policy s = OffPolicy" "\<not> defer_writes s"
proof -
  show o: "map_option obj (map_of (cache s) oid) = fst l oid" for oid
    using assms by (simp add: resident_def)
  show "dom (map_of (cache s)) = dom (fst l)" by (auto simp: dom_def o [symmetric])
qed (use assms in \<open>simp_all add: resident_def track_ok_def\<close>)

lemma lra_hit: "oid \<in> object_set p \<Longrightarrow> lra_process_oid oid p = Ok [] p"
  by (simp add: lra_process_oid_def)

lemma lra_admit_small:
  assumes "lra_invar cap p" "oid \<notin> object_set p" "card (object_set p) < cap"
  shows "lra_process_oid oid p =
           Ok [] (p\<lparr>object_set := insert oid (object_set p), object_deque := object_deque p @ [oid]\<rparr>)"
    and "lra_invar cap (p\<lparr>object_set := insert oid (object_set p), object_deque := object_deque p @ [oid]\<rparr>)"
proof -
  have l: "length (object_deque p) < cap"
    using assms by (simp add: lra_invar_def distinct_card)
  then show "lra_process_oid oid p =
      Ok [] (p\<lparr>object_set := insert oid (object_set p), object_deque := object_deque p @ [oid]\<rparr>)"
    using lra_process_oid_cases [OF assms(1), of oid] assms by (simp add: lra_invar_def)
  show "lra_invar cap (p\<lparr>object_set := insert oid (object_set p), object_deque := object_deque p @ [oid]\<rparr>)"
    using assms l by (simp add: lra_invar_def)
qed

lemma resident_get:
  assumes r: "resident fb valid cap s (L, Q) k" and v: "L i = Some v"
  shows "get (fb_cache_env fb d cust) i s = Some (Ok v s)"
proof -
  note D = residentD [OF r]
  obtain e where e: "map_of (cache s) i = Some e" "obj e = v" using D(2) [of i] v by auto
  have "i \<in> object_set (evp s)" using D(5) e(1) by auto
  then show ?thesis using e D(3) [OF e(1)] D(8,9)
    by (simp add: get_def on_policy_def lra_policy_def lra_get_def lra_hit await_write_def lookup_entry_def
        get_prefetch_def policy_get_def)
qed

lemma resident_admits:
  assumes r: "resident fb valid cap s l k" and f: "fits_cache fb valid cap (fst l) i v"
  obtains p where "lra_process_oid i (evp s) = Ok [] p" "lra_invar cap p"
    "object_set p = insert i (object_set (evp s))"
proof (cases "i \<in> object_set (evp s)")
  case True
  then show ?thesis using that lra_hit residentD(4) [OF r] by (metis insert_absorb)
next
  case False
  then have "card (object_set (evp s)) < cap"
    using f residentD(5,6) [OF r] by (auto simp: fits_cache_def)
  from lra_admit_small [OF residentD(4) [OF r] False this] that show ?thesis by simp
qed

lemma put_entry_fits:
  assumes w: "wf_alist (cache s)" and c: "unat (cm_max_size s) = cap"
    and f: "map_of (cache s) i \<noteq> None \<or> card (dom (map_of (cache s))) < cap"
    and ca: "\<And>e. map_of (cache s) i = Some e \<Longrightarrow> cached e"
  obtains e where "put_entry env i v s = Some (Ok () (set_entry i e s))" "cached e" "obj e = v"
proof (cases "map_of (cache s) i")
  case None
  then have "length (cache s) \<noteq> unat (cm_max_size s)" using f c card_dom_alist [OF w] by simp
  then show ?thesis using that None by (simp add: put_entry_def cache_entry_new_def)
next
  case (Some e)
  then show ?thesis using that [of "e\<lparr>obj := v, dirty := True\<rparr>"] ca by (simp add: put_entry_def)
qed

lemma resident_put:
  assumes st: "stack_ok fb valid" and r: "resident fb valid cap s (L, Q) (Suc k)"
    and f: "fits_cache fb valid cap L i v"
  shows "\<exists>s'. put (fb_cache_env fb d cust) i v s = Some (Ok () s')
           \<and> resident fb valid cap s' (L(i \<mapsto> v), Q') k"
proof -
  note D = residentD [OF r]
  have f': "fits_cache fb valid cap (fst (L, Q)) i v" using f by simp
  obtain p where p: "lra_process_oid i (evp s) = Ok [] p" "lra_invar cap p"
      "object_set p = insert i (object_set (evp s))"
    by (rule resident_admits [OF r f'])
  let ?s = "s\<lparr>evp := p\<rparr>"
  have "map_of (cache ?s) i \<noteq> None \<or> card (dom (map_of (cache ?s))) < cap"
    using f D(6) by (auto simp: fits_cache_def dom_def)
  then obtain e where e: "put_entry (fb_cache_env fb d cust) i v ?s = Some (Ok () (set_entry i e ?s))"
      "cached e" "obj e = v"
    by (rule put_entry_fits [of ?s cap i "fb_cache_env fb d cust" v, rotated 2]) (use D in auto)
  obtain a F W where R: "mem_R fb valid (store s) a F W (Suc k)" using r by (auto simp: resident_def)
  obtain w where w: "valid w" "same_bytes fb v w" using f by (auto simp: fits_cache_def)
  have os: "roomy_store (fb_ostore fb) (mem_R fb valid) (fb_view (deserializer fb)) (fb_room (serializer fb)) valid"
    by (rule stack_store [OF st])
  obtain st' a' where put: "os_put (fb_ostore fb) i v (store s) = Some (Ok True st')" "mem_R fb valid st' a' F W k"
    using object_store.os_put [OF roomy_store.axioms(1) [OF os] R w(1), of i]
      roomy_store.os_roomy [OF os R w(1), of i] put_same_bytes [OF w(2), of i] by auto
  let ?t = "(set_entry i e ?s)\<lparr>store := st'\<rparr>"
  have "put (fb_cache_env fb d cust) i v s = Some (Ok () ?t)"
    using p(1) e(1) put(1) D(9)
    by (simp add: put_def on_policy_def lra_policy_def lra_put_def on_store_def set_entry_def)
  moreover have "resident fb valid cap ?t (L(i \<mapsto> v), Q') k"
    using put(2) D p(2,3) e(2,3) by (auto simp: resident_def set_entry_def track_ok_def)
  ultimately show ?thesis by blast
qed

lemma resident_less:
  assumes "stack_ok fb valid" "resident fb valid cap s l (Suc k)"
  shows "resident fb valid cap s l k"
proof -
  obtain a F W where "mem_R fb valid (store s) a F W (Suc k)" using assms(2) by (auto simp: resident_def)
  then have "mem_R fb valid (store s) a F W k"
    by (rule object_store.os_less [OF roomy_store.axioms(1) [OF stack_store [OF assms(1)]]])
  then have "\<exists>a F W. mem_R fb valid (store s) a F W k" by blast
  with assms(2) show ?thesis unfolding resident_def by simp
qed

lemma resident_memory:
  fixes fb :: "(memory_backend, 't) full_blade"
    and cust :: "ObjectID \<Rightarrow> 't \<Rightarrow> 'c \<Rightarrow> (ObjectID list, 'c) outcome"
  assumes "stack_ok fb valid"
  shows "object_memory (get (fb_cache_env fb d cust)) (put (fb_cache_env fb d cust))
           (resident fb valid cap) (fits_cache fb valid cap)"
proof
  fix s l k assume "resident fb valid cap s l (Suc k)"
  then show "resident fb valid cap s l k" by (rule resident_less [OF assms])
next
  fix s L Q Q' k assume "resident fb valid cap s (L, Q) k" "Q \<subseteq> Q'"
  then show "resident fb valid cap s (L, Q') k" by (simp add: resident_def)
next
  fix L :: "ObjectID \<rightharpoonup> 't" and i v Q assume v: "L i = Some v"
  show "runs (resident fb valid cap) (get (fb_cache_env fb d cust) i) (L, Q) 2 v (L, Q - {i})"
  proof (rule runsI)
    fix s :: "(memory_backend session, 't, nat, nat, lradded, 'c) cache_manager" and k
    assume r: "resident fb valid cap s (L, Q) (2 + k)"
    have "resident fb valid cap s (L, Q - {i}) (Suc (Suc k))" using r by (simp add: resident_def)
    then have "resident fb valid cap s (L, Q - {i}) k" by (rule resident_less [OF assms resident_less [OF assms]])
    with resident_get [OF r v]
    show "\<exists>s'. get (fb_cache_env fb d cust) i s = Some (Ok v s') \<and> resident fb valid cap s' (L, Q - {i}) k"
      by blast
  qed
next
  fix L :: "ObjectID \<rightharpoonup> 't" and i :: ObjectID and v Q assume "fits_cache fb valid cap L i v" "i \<notin> Q"
  then have f: "fits_cache fb valid cap L i v" by simp
  show "runs (resident fb valid cap) (put (fb_cache_env fb d cust) i v) (L, Q) 2 () (L(i \<mapsto> v), Q)"
  proof (rule runsI)
    fix s :: "(memory_backend session, 't, nat, nat, lradded, 'c) cache_manager" and k
    assume "resident fb valid cap s (L, Q) (2 + k)"
    then have "resident fb valid cap s (L, Q) (Suc (Suc k))" by simp
    then have "resident fb valid cap s (L, Q) (Suc k)" by (rule resident_less [OF assms])
    with resident_put [OF assms this f]
    show "\<exists>s'. put (fb_cache_env fb d cust) i v s = Some (Ok () s') \<and> resident fb valid cap s' (L(i \<mapsto> v), Q) k"
      by blast
  qed
qed

interpretation resident_vertices: object_memory "get vertex_env" "put vertex_env"
  "resident vertex_store wcc_valid n" "fits_cache vertex_store wcc_valid n" for n
  by (rule resident_memory [OF vertex_stack])

text \<open>A cache that has just been constructed.\<close>

lemma fresh_resident:
  assumes "stack_ok fb valid" "fresh_cache fb valid n k a cm" "\<not> defer_writes cm"
  shows "resident fb valid (unat n) cm (Map.empty, Q) k"
proof -
  obtain ses dw f0 l0 where c: "CacheManager ses (LRAddedEvictionPolicy n) n dw f0 l0 = Inr cm"
      and R: "mem_R fb valid ses a Map.empty Map.empty k"
    using assms(2) by (auto simp: fresh_cache_def)
  then have "store cm = ses" "cache cm = []" "cm_max_size cm = n"
      "evp cm = LRAddedEvictionPolicy n" "prefetch_policy cm = OffPolicy"
    by (auto simp: CacheManager_def split: if_splits)
  then show ?thesis
    using R assms(3) lra_invar_new [of n] by (auto simp: resident_def track_ok_def LRAddedEvictionPolicy_def)
qed

lemma fresh_coherent_state:
  assumes "stack_ok fb valid" "fresh_cache fb valid n k a cm" "\<not> defer_writes cm"
  shows "coherent_state fb valid (unat n) cm (fb_view (deserializer fb) a, {}) k"
  using fresh_coherent(1) [OF assms(1,2), of "{}"] assms(3) by (simp add: coherent_state_def)

end
