(* ===== verification/Input_Stream.thy ===== *)
theory Input_Stream
  imports Cirrus_Prelude
begin

text \<open>
  What the graph programs use of the input streams of the C++ standard library: formatted
  extraction of an integer from a \<^verbatim>\<open>std::ifstream\<close> in the classic locale. The lemmas say
  what is read back from the decimal notation of a number, whatever follows it.
\<close>

section \<open>Streams\<close>

record istream =
  is_chars :: string
  is_eof :: bool
  is_fail :: bool

definition istream_of :: "string \<Rightarrow> istream" where
  "istream_of cs = \<lparr>is_chars = cs, is_eof = False, is_fail = False\<rparr>"

definition isspace :: "char \<Rightarrow> bool" where
  "isspace c \<longleftrightarrow> of_char c \<in> {9, 10, 11, 12, 13, 32 :: nat}"

definition isdigit :: "char \<Rightarrow> bool" where
  "isdigit c \<longleftrightarrow> (of_char c :: nat) \<in> {48..57}"

text \<open>
  The sentry of a formatted extraction: on a stream that is not good it only sets the fail
  bit, otherwise it skips white space and fails at the end of the input.
\<close>

definition sentry :: "istream \<Rightarrow> bool \<times> istream" where
  "sentry s =
     (if is_eof s \<or> is_fail s then (False, s\<lparr>is_fail := True\<rparr>)
      else
        let cs = dropWhile isspace (is_chars s)
        in if cs = [] then (False, \<lparr>is_chars = [], is_eof = True, is_fail = True\<rparr>)
           else (True, s\<lparr>is_chars := cs\<rparr>))"

definition take_sign :: "string \<Rightarrow> bool \<times> string" where
  "take_sign cs =
     (case cs of c # cs' \<Rightarrow> if c = CHR ''-'' then (True, cs') else if c = CHR ''+'' then (False, cs') else (False, cs)
      | [] \<Rightarrow> (False, cs))"

text \<open>
  \<^verbatim>\<open>operator>>\<close> into an integer whose type holds the values from \<open>lo\<close> to \<open>hi\<close>: what is
  stored, \<open>None\<close> if the variable keeps its value. Without a digit 0 is stored, and a value
  out of range is replaced by the nearest one; both set the fail bit.
\<close>

definition extract_integer :: "int \<Rightarrow> int \<Rightarrow> istream \<Rightarrow> int option \<times> istream" where
  "extract_integer lo hi s =
     (let (good, s1) = sentry s
      in if \<not> good then (None, s1)
         else
           let (neg, cs) = take_sign (is_chars s1);
               ds = takeWhile isdigit cs;
               rest = dropWhile isdigit cs;
               n = int (digits_value 0 ds);
               v = (if neg then - n else n);
               s2 = \<lparr>is_chars = rest, is_eof = (rest = []), is_fail = False\<rparr>
           in if ds = [] then (Some 0, s2\<lparr>is_fail := True\<rparr>)
              else if v < lo then (Some lo, s2\<lparr>is_fail := True\<rparr>)
              else if hi < v then (Some hi, s2\<lparr>is_fail := True\<rparr>)
              else (Some v, s2))"

definition extract_int :: "istream \<Rightarrow> int option \<times> istream" where
  "extract_int = extract_integer (- (2 ^ 31)) (2 ^ 31 - 1)"

section \<open>Decimal notation\<close>

lemma isdigit_digit: "d < 10 \<Longrightarrow> isdigit (digit d)"
  by (simp add: isdigit_def of_char_digit)

lemma decimal_digits: "\<forall>c\<in>set (decimal n). isdigit c"
proof (induction n rule: decimal.induct)
  case (1 n)
  show ?case
  proof (cases "n < 10")
    case True
    then show ?thesis by (subst decimal.simps) (simp add: isdigit_digit)
  next
    case False
    then show ?thesis using 1 by (subst decimal.simps) (simp add: isdigit_digit)
  qed
qed

lemma decimal_not_Nil [simp]: "decimal n \<noteq> []"
  by (subst decimal.simps) simp

lemma isdigit_not:
  "isdigit c \<Longrightarrow> \<not> isspace c" "isdigit c \<Longrightarrow> c \<noteq> CHR ''-''" "isdigit c \<Longrightarrow> c \<noteq> CHR ''+''"
  by (auto simp: isdigit_def isspace_def)

lemma takeWhile_decimal:
  assumes "rest = [] \<or> \<not> isdigit (hd rest)"
  shows "takeWhile isdigit (decimal n @ rest) = decimal n" "dropWhile isdigit (decimal n @ rest) = rest"
  using assms decimal_digits [of n] by (cases rest; simp add: takeWhile_append dropWhile_append)+

text \<open>A number after white space, and before anything that is not a digit, is read back.\<close>

lemma extract_integer_decimal:
  assumes "\<forall>c\<in>set sp. isspace c" "rest = [] \<or> \<not> isdigit (hd rest)" "lo \<le> int n" "int n \<le> hi"
  shows "extract_integer lo hi (istream_of (sp @ decimal n @ rest)) =
           (Some (int n), \<lparr>is_chars = rest, is_eof = (rest = []), is_fail = False\<rparr>)"
proof -
  obtain c cs where d: "decimal n = c # cs" "isdigit c"
    using decimal_digits [of n] by (cases "decimal n") auto
  have "dropWhile isspace (sp @ decimal n @ rest) = decimal n @ rest"
    using assms(1) isdigit_not(1) [OF d(2)] by (simp add: dropWhile_append d(1))
  then have se: "sentry (istream_of (sp @ decimal n @ rest)) = (True, istream_of (decimal n @ rest))"
    by (simp add: sentry_def istream_of_def)
  have ts: "take_sign (decimal n @ rest) = (False, decimal n @ rest)"
    using isdigit_not(2,3) [OF d(2)] by (simp add: take_sign_def d(1))
  show ?thesis
    using assms(3,4) takeWhile_decimal [OF assms(2), of n]
    by (simp add: extract_integer_def se ts digits_value_decimal del: dropWhile_eq_Nil_conv) (simp add: istream_of_def ts digits_value_decimal del: dropWhile_eq_Nil_conv)
qed

lemma extract_int_decimal:
  assumes "\<forall>c\<in>set sp. isspace c" "rest = [] \<or> \<not> isdigit (hd rest)" "n < 2 ^ 31"
  shows "extract_int (istream_of (sp @ decimal n @ rest)) =
           (Some (int n), \<lparr>is_chars = rest, is_eof = (rest = []), is_fail = False\<rparr>)"
  unfolding extract_int_def using assms by (intro extract_integer_decimal) simp_all

text \<open>After the end of the input nothing is stored.\<close>

lemma extract_int_end: "is_eof s \<or> is_fail s \<Longrightarrow> extract_int s = (None, s\<lparr>is_fail := True\<rparr>)"
  by (simp add: extract_int_def extract_integer_def sentry_def)

end
