(* ===== verification/Graph_Input.thy ===== *)
theory Graph_Input
  imports Graph_Vertex Input_Stream
begin

text \<open>
  The readers of the two graph programs, \<^verbatim>\<open>src/examples/graphs/wcc/Input.cpp\<close> and
  \<^verbatim>\<open>src/examples/graphs/page_rank/Input.cpp\<close>, and what they make of a file in the format
  they document. A graph is given by the lists \<open>E\<close> of the neighbours of each vertex.
\<close>

section \<open>Reading a graph\<close>

text \<open>
  A vertex and its neighbours: \<^verbatim>\<open>neigh_id\<close> has no initial value, so a stream that stores
  nothing leaves it undefined.
\<close>

fun read_edges :: "(u32 \<Rightarrow> 'v \<Rightarrow> 'v) \<Rightarrow> nat \<Rightarrow> 'v \<Rightarrow> istream \<Rightarrow> ('v, istream) outcome" where
  "read_edges addNeighbor 0 v infile = Ok v infile"
| "read_edges addNeighbor (Suc k) v infile =
     (case extract_int infile of
        (None, _) \<Rightarrow> Undef
      | (Some neigh_id, infile1) \<Rightarrow> read_edges addNeighbor k (addNeighbor (word_of_int neigh_id) v) infile1)"

text \<open>\<open>k\<close> more vertices, the next one with the id \<open>j\<close>.\<close>

fun read_vertices ::
  "(u32 \<Rightarrow> 'v) \<Rightarrow> (u32 \<Rightarrow> 'v \<Rightarrow> 'v) \<Rightarrow> nat \<Rightarrow> u32 \<Rightarrow> istream \<Rightarrow> ('v list, istream) outcome" where
  "read_vertices Vertex addNeighbor 0 j infile = Ok [] infile"
| "read_vertices Vertex addNeighbor (Suc k) j infile =
     (case extract_int infile of
        (n, infile1) \<Rightarrow>
          bindO (read_edges addNeighbor (nat (case n of None \<Rightarrow> - 1 | Some i \<Rightarrow> i)) (Vertex j) infile1) (\<lambda>v infile2.
          bindO (read_vertices Vertex addNeighbor k (j + 1) infile2) (\<lambda>vs infile3.
            Ok (v # vs) infile3)))"

text \<open>The two numbers at the head of the file, initially \<open>- 1\<close>.\<close>

definition read_counts :: "istream \<Rightarrow> int \<times> int \<times> istream" where
  "read_counts infile =
     (case extract_int infile of
        (nv, infile1) \<Rightarrow>
          (case extract_int infile1 of
             (ne, infile2) \<Rightarrow>
               (case nv of None \<Rightarrow> - 1 | Some i \<Rightarrow> i, case ne of None \<Rightarrow> - 1 | Some i \<Rightarrow> i, infile2)))"

definition wcc_readGraph :: "(string \<Rightarrow> string option) \<Rightarrow> string \<Rightarrow> (wcc_vertex list, istream) outcome" where
  "wcc_readGraph fs fname =
     (case fs fname of
        None \<Rightarrow> Throw (runtime_error (''Error opening file: '' @ fname)) (istream_of [])
      | Some txt \<Rightarrow>
          (case read_counts (istream_of txt) of
             (num_vertices, num_edges, infile) \<Rightarrow>
               if num_vertices < 0 \<or> num_edges < 0 then Throw (runtime_error ''Wrong input values'') infile
               else read_vertices wcc_Vertex wcc_addNeighbor (nat num_vertices) 0 infile))"

text \<open>
  The reader of the PageRank program does not check the numbers: \<^verbatim>\<open>reserve\<close> is called with a
  negative one converted to \<^verbatim>\<open>size_t\<close>, which is more than a vector can hold.
\<close>

definition pr_readGraph :: "(string \<Rightarrow> string option) \<Rightarrow> string \<Rightarrow> (pr_vertex list, istream) outcome" where
  "pr_readGraph fs fname =
     (case fs fname of
        None \<Rightarrow> Throw (runtime_error (''Error opening file: '' @ fname)) (istream_of [])
      | Some txt \<Rightarrow>
          (case read_counts (istream_of txt) of
             (num_vertices, num_edges, infile) \<Rightarrow>
               if num_vertices < 0 then Throw (length_error ''vector::reserve'') infile
               else read_vertices pr_Vertex pr_addNeighbor (nat num_vertices) 0 infile))"

section \<open>What is read\<close>

text \<open>The format that \<^verbatim>\<open>Input.cpp\<close> documents, one number per line.\<close>

definition tokens_text :: "nat list \<Rightarrow> string" where
  "tokens_text ts = concat (map (\<lambda>t. decimal t @ [CHR 0x0A]) ts)"

definition graph_tokens :: "nat list list \<Rightarrow> nat \<Rightarrow> nat list" where
  "graph_tokens E m = length E # m # concat (map (\<lambda>ns. length ns # ns) E)"

definition graph_text :: "nat list list \<Rightarrow> nat \<Rightarrow> string" where
  "graph_text E m = tokens_text (graph_tokens E m)"

lemma tokens_text_simps [simp]:
  "tokens_text [] = []" "tokens_text (t # ts) = decimal t @ CHR 0x0A # tokens_text ts"
  by (simp_all add: tokens_text_def)

lemma isspace_newline [simp]: "isspace (CHR 0x0A)" "\<not> isdigit (CHR 0x0A)"
  by (simp_all add: isspace_def isdigit_def)

lemma extract_token:
  assumes "\<forall>c\<in>set sp. isspace c" "t < 2 ^ 31"
  shows "extract_int (istream_of (sp @ tokens_text (t # ts))) =
           (Some (int t), istream_of ([CHR 0x0A] @ tokens_text ts))"
  using extract_int_decimal [of sp "CHR 0x0A # tokens_text ts" t] assms by (simp add: istream_of_def)

lemma read_edges_tokens:
  assumes "\<forall>c\<in>set sp. isspace c" "\<forall>n\<in>set ns. n < 2 ^ 31"
  shows "\<exists>sp'. read_edges add (length ns) v (istream_of (sp @ tokens_text (ns @ ts))) =
             Ok (fold (\<lambda>n. add (word_of_nat n)) ns v) (istream_of (sp' @ tokens_text ts))
           \<and> (\<forall>c\<in>set sp'. isspace c)"
  using assms
proof (induction ns arbitrary: sp v)
  case Nil
  then show ?case by auto
next
  case (Cons n ns)
  then have "extract_int (istream_of (sp @ tokens_text (n # ns @ ts))) =
      (Some (int n), istream_of ([CHR 0x0A] @ tokens_text (ns @ ts)))"
    by (intro extract_token) auto
  moreover obtain sp' where "read_edges add (length ns) (add (word_of_nat n) v)
        (istream_of ([CHR 0x0A] @ tokens_text (ns @ ts))) =
          Ok (fold (\<lambda>n. add (word_of_nat n)) ns (add (word_of_nat n) v)) (istream_of (sp' @ tokens_text ts))"
      "\<forall>c\<in>set sp'. isspace c"
    using Cons.IH [of "[CHR 0x0A]" "add (word_of_nat n) v"] Cons.prems(2) by auto
  ultimately show ?case by (intro exI [of _ sp']) (simp del: tokens_text_simps)
qed

text \<open>The vertex with the id \<open>j\<close> and the edges \<open>ns\<close> of the file.\<close>

definition file_vertex :: "(u32 \<Rightarrow> 'v) \<Rightarrow> (u32 \<Rightarrow> 'v \<Rightarrow> 'v) \<Rightarrow> nat \<Rightarrow> nat list \<Rightarrow> 'v" where
  "file_vertex Vertex add j ns = fold (\<lambda>n. add (word_of_nat n)) ns (Vertex (word_of_nat j))"

definition edges_fit :: "nat list list \<Rightarrow> bool" where
  "edges_fit E \<longleftrightarrow> length E < 2 ^ 31 \<and> (\<forall>ns\<in>set E. length ns < 2 ^ 31 \<and> (\<forall>n\<in>set ns. n < 2 ^ 31))"

lemma read_vertices_tokens:
  assumes "\<forall>c\<in>set sp. isspace c" "\<forall>ns\<in>set E. length ns < 2 ^ 31 \<and> (\<forall>n\<in>set ns. n < 2 ^ 31)"
  shows "\<exists>sp'. read_vertices Vertex add (length E) (word_of_nat j)
             (istream_of (sp @ tokens_text (concat (map (\<lambda>ns. length ns # ns) E) @ ts))) =
           Ok (map (\<lambda>k. file_vertex Vertex add (j + k) (E ! k)) [0..<length E]) (istream_of (sp' @ tokens_text ts))
         \<and> (\<forall>c\<in>set sp'. isspace c)"
  using assms
proof (induction E arbitrary: sp j)
  case Nil
  then show ?case by auto
next
  case (Cons ns E)
  let ?rest = "concat (map (\<lambda>ns. length ns # ns) E) @ ts"
  have 1: "extract_int (istream_of (sp @ tokens_text (length ns # ns @ ?rest))) =
      (Some (int (length ns)), istream_of ([CHR 0x0A] @ tokens_text (ns @ ?rest)))"
    using Cons.prems by (intro extract_token) auto
  obtain sp1 where 2: "read_edges add (length ns) (Vertex (word_of_nat j))
        (istream_of ([CHR 0x0A] @ tokens_text (ns @ ?rest))) =
          Ok (file_vertex Vertex add j ns) (istream_of (sp1 @ tokens_text ?rest))" "\<forall>c\<in>set sp1. isspace c"
    using read_edges_tokens [of "[CHR 0x0A]" ns add "Vertex (word_of_nat j)" ?rest] Cons.prems(2)
    by (auto simp: file_vertex_def)
  obtain sp2 where 3: "read_vertices Vertex add (length E) (word_of_nat j + 1)
        (istream_of (sp1 @ tokens_text ?rest)) =
          Ok (map (\<lambda>k. file_vertex Vertex add (Suc j + k) (E ! k)) [0..<length E]) (istream_of (sp2 @ tokens_text ts))"
      "\<forall>c\<in>set sp2. isspace c"
    using Cons.IH [OF 2(2), of "Suc j"] Cons.prems(2) by (auto simp: add.commute)
  moreover have "map (\<lambda>k. file_vertex Vertex add (j + k) ((ns # E) ! k)) [0..<Suc (length E)] =
      file_vertex Vertex add j ns # map (\<lambda>k. file_vertex Vertex add (Suc j + k) (E ! k)) [0..<length E]"
    by (simp add: upt_conv_Cons map_Suc_upt [symmetric] del: upt_Suc)
  ultimately show ?case
    using 1 2(1) by (intro exI [of _ sp2]) (simp del: tokens_text_simps upt_Suc)
qed

lemma read_counts_text:
  assumes "edges_fit E" "m < 2 ^ 31"
  shows "read_counts (istream_of (graph_text E m)) =
           (int (length E), int m, istream_of ([CHR 0x0A] @ tokens_text (concat (map (\<lambda>ns. length ns # ns) E))))"
proof -
  let ?rest = "concat (map (\<lambda>ns. length ns # ns) E)"
  have 1: "extract_int (istream_of ([] @ tokens_text (length E # m # ?rest))) =
      (Some (int (length E)), istream_of ([CHR 0x0A] @ tokens_text (m # ?rest)))"
    using assms by (intro extract_token) (simp_all add: edges_fit_def)
  have 2: "extract_int (istream_of ([CHR 0x0A] @ tokens_text (m # ?rest))) =
      (Some (int m), istream_of ([CHR 0x0A] @ tokens_text ?rest))"
    using assms by (intro extract_token) simp_all
  show ?thesis using 1 2
    by (simp add: read_counts_def graph_text_def graph_tokens_def del: tokens_text_simps)
qed

lemma wcc_readGraph_text:
  assumes "fs fname = Some (graph_text E m)" "edges_fit E" "m < 2 ^ 31"
  shows "\<exists>infile. wcc_readGraph fs fname =
           Ok (map (\<lambda>k. file_vertex wcc_Vertex wcc_addNeighbor k (E ! k)) [0..<length E]) infile"
proof -
  have "\<forall>ns\<in>set E. length ns < 2 ^ 31 \<and> (\<forall>n\<in>set ns. n < 2 ^ 31)"
    using assms(2) by (simp add: edges_fit_def)
  from read_vertices_tokens [of "[CHR 0x0A]", OF _ this, of wcc_Vertex wcc_addNeighbor 0 "[]"]
  show ?thesis
    using assms(1) read_counts_text [OF assms(2,3)] by (auto simp: wcc_readGraph_def)
qed

text \<open>The neighbours of a vertex are kept in increasing order, each once.\<close>

lemma sint_small: "n < 2 ^ 31 \<Longrightarrow> sint (word_of_nat n :: u32) = int n"
  by (simp add: signed_of_nat signed_take_bit_int_eq_self)

lemma sless_word:
  assumes "a < 2 ^ 31" "b < 2 ^ 31"
  shows "sless (word_of_nat a) (word_of_nat b) \<longleftrightarrow> a < b"
  using assms by (simp add: sless_def sint_small)

lemma sorted_sless_unique:
  assumes "sorted_wrt sless xs" "sorted_wrt sless ys" "set xs = set ys"
  shows "xs = ys"
proof -
  have "sorted_wrt (<) (map sint xs)" "sorted_wrt (<) (map sint ys)" "set (map sint ys) = set (map sint xs)"
    using assms by (simp_all add: sorted_wrt_map sless_def [abs_def])
  then have "map sint ys = map sint xs" by (rule strict_sorted_equal)
  moreover have "inj_on (sint :: u32 \<Rightarrow> int) (set xs \<union> set ys)" by (meson inj_onI signed_word_eqI)
  ultimately show ?thesis by (metis inj_on_map_eq_map Un_commute)
qed

lemma sorted_neighbors:
  assumes "\<forall>n\<in>set ns. n < 2 ^ 31"
  shows "sorted_wrt sless (map word_of_nat (sorted_list_of_set (set ns)))"
proof -
  have "sorted_wrt (\<lambda>a b. sless (word_of_nat a) (word_of_nat b)) (sorted_list_of_set (set ns))"
    by (rule sorted_wrt_mono_rel [of _ "(<)"]) (use assms sless_word in auto)
  then show ?thesis by (simp add: sorted_wrt_map)
qed

lemma fold_set_add:
  assumes "\<forall>n\<in>set ns. n < 2 ^ 31"
  shows "fold (\<lambda>n. set_add (word_of_nat n)) ns [] = map word_of_nat (sorted_list_of_set (set ns))"
proof (rule sorted_sless_unique [OF _ sorted_neighbors [OF assms]])
  have "sorted_wrt sless (fold (\<lambda>n. set_add (word_of_nat n)) ns xs)" if "sorted_wrt sless xs" for xs
    using that by (induction ns arbitrary: xs) (simp_all add: sorted_set_add)
  then show "sorted_wrt sless (fold (\<lambda>n. set_add (word_of_nat n)) ns [])" by simp
  have "set (fold (\<lambda>n. set_add (word_of_nat n)) ns xs) = word_of_nat ` set ns \<union> set xs" for xs
    by (induction ns arbitrary: xs) auto
  then show "set (fold (\<lambda>n. set_add (word_of_nat n)) ns []) =
      set (map word_of_nat (sorted_list_of_set (set ns)) :: u32 list)"
    by simp
qed

lemma file_vertex_wcc:
  assumes "\<forall>n\<in>set ns. n < 2 ^ 31"
  shows "file_vertex wcc_Vertex wcc_addNeighbor j ns =
           (wcc_Vertex (word_of_nat j))\<lparr>wv_neighbors := map word_of_nat (sorted_list_of_set (set ns))\<rparr>"
proof -
  have "fold (\<lambda>n. wcc_addNeighbor (word_of_nat n)) ns v =
      v\<lparr>wv_neighbors := fold (\<lambda>n. set_add (word_of_nat n)) ns (wv_neighbors v)\<rparr>" for v
    by (induction ns arbitrary: v) (simp_all add: wcc_addNeighbor_def)
  then show ?thesis using fold_set_add [OF assms] by (simp add: file_vertex_def wcc_Vertex_def)
qed

lemma file_vertex_pr:
  assumes "\<forall>n\<in>set ns. n < 2 ^ 31"
  shows "file_vertex pr_Vertex pr_addNeighbor j ns =
           (pr_Vertex (word_of_nat j))\<lparr>pv_neighbors := map word_of_nat (sorted_list_of_set (set ns))\<rparr>"
proof -
  have "fold (\<lambda>n. pr_addNeighbor (word_of_nat n)) ns v =
      v\<lparr>pv_neighbors := fold (\<lambda>n. set_add (word_of_nat n)) ns (pv_neighbors v)\<rparr>" for v
    by (induction ns arbitrary: v) (simp_all add: pr_addNeighbor_def)
  then show ?thesis using fold_set_add [OF assms] by (simp add: file_vertex_def pr_Vertex_def)
qed

lemma pr_readGraph_text:
  assumes "fs fname = Some (graph_text E m)" "edges_fit E" "m < 2 ^ 31"
  shows "\<exists>infile. pr_readGraph fs fname =
           Ok (map (\<lambda>k. file_vertex pr_Vertex pr_addNeighbor k (E ! k)) [0..<length E]) infile"
proof -
  have "\<forall>ns\<in>set E. length ns < 2 ^ 31 \<and> (\<forall>n\<in>set ns. n < 2 ^ 31)"
    using assms(2) by (simp add: edges_fit_def)
  from read_vertices_tokens [of "[CHR 0x0A]", OF _ this, of pr_Vertex pr_addNeighbor 0 "[]"]
  show ?thesis
    using assms(1) read_counts_text [OF assms(2,3)] by (auto simp: pr_readGraph_def)
qed

section \<open>Graphs\<close>

definition graph_edges :: "nat list list \<Rightarrow> (nat \<times> nat) set" where
  "graph_edges E = {(i, j). i < length E \<and> j \<in> set (E ! i)}"

text \<open>Ids that are array indices.\<close>

definition graph_ok :: "nat list list \<Rightarrow> bool" where
  "graph_ok E \<longleftrightarrow> length E < 2 ^ 28 - 2 \<and> (\<forall>ns\<in>set E. \<forall>n\<in>set ns. n < length E)"

definition nbrs :: "nat list list \<Rightarrow> nat \<Rightarrow> nat list" where
  "nbrs E i = sorted_list_of_set (set (E ! i))"

lemma graph_okD:
  assumes "graph_ok E" "i < length E"
  shows "i < 2 ^ 28" "j \<in> set (nbrs E i) \<Longrightarrow> j < length E" "length (nbrs E i) \<le> length E"
    "set (nbrs E i) = set (E ! i)" "distinct (nbrs E i)"
proof -
  show "i < 2 ^ 28" using assms by (simp add: graph_ok_def)
  show s: "set (nbrs E i) = set (E ! i)" "distinct (nbrs E i)" by (simp_all add: nbrs_def)
  then have sub: "set (nbrs E i) \<subseteq> {..<length E}" using assms by (auto simp: graph_ok_def)
  then show "j \<in> set (nbrs E i) \<Longrightarrow> j < length E" by blast
  show "length (nbrs E i) \<le> length E" using card_mono [OF _ sub] distinct_card [OF s(2)] by simp
qed

lemma small_ids:
  assumes "i < 2 ^ 28"
  shows "(scast (word_of_nat i :: u32) :: u64) = word_of_nat i" "(ucast (word_of_nat i :: u32) :: u64) = word_of_nat i"
    "unat (word_of_nat i :: u32) = i" "0 \<le> sint (word_of_nat i :: u32)"
proof -
  have s: "sint (word_of_nat i :: u32) = int i" using assms by (intro sint_small) simp
  show "unat (word_of_nat i :: u32) = i" using assms by (simp add: unat_of_nat)
  show "0 \<le> sint (word_of_nat i :: u32)" using s by simp
  show "(scast (word_of_nat i :: u32) :: u64) = word_of_nat i"
    using s by (metis of_int_of_nat_eq of_int_sint)
  show "(ucast (word_of_nat i :: u32) :: u64) = word_of_nat i"
    using assms by (simp add: word_unat_eq_iff unsigned_ucast_eq unat_of_nat take_bit_eq_mod)
qed

lemma id_inj: "i < 2 ^ 28 \<Longrightarrow> j < 2 ^ 28 \<Longrightarrow> (word_of_nat i :: u64) = word_of_nat j \<longleftrightarrow> i = j"
  by (auto simp: word_unat_eq_iff unat_of_nat)

section \<open>Properties\<close>



text \<open>A truncated file: the next id would be read from a variable without a value.\<close>

lemma truncated_graph_undefined:
  "read_edges add (Suc k) v \<lparr>is_chars = [], is_eof = True, is_fail = f\<rparr> = Undef"
  by (simp add: extract_int_end)

end
