(* ===== verification/WCC_Program.thy ===== *)
theory WCC_Program
  imports Object_Programs Graph_Input
begin

text \<open>
  The program that labels the weakly connected components of a graph,
  \<^verbatim>\<open>src/examples/graphs/wcc\<close>: \<^verbatim>\<open>Wcc.cpp\<close> holds \<^verbatim>\<open>make_undirected\<close>, the search and the
  loop over the vertices, \<^verbatim>\<open>main.cpp\<close> puts them together over a cache on a remote store. The
  search is verified once over the contract of a memory of vertices, which a cache that holds
  the whole graph meets; a directed graph and a cache that is too small show where it fails.
\<close>

section \<open>Components\<close>

text \<open>
  The inner loop of \<^verbatim>\<open>make_undirected\<close> for the vertex with the id \<open>curr_id\<close>. \<^verbatim>\<open>Vertex n = vertices[v]\<close> is a
  copy, and nothing stores it back.
\<close>

fun undirect_neighbors :: "u32 \<Rightarrow> u32 list \<Rightarrow> wcc_vertex list \<Rightarrow> (unit, wcc_vertex list) outcome" where
  "undirect_neighbors curr_id [] vertices = Ok () vertices"
| "undirect_neighbors curr_id (v # vs) vertices =
     (if sint v < 0 \<or> length vertices \<le> unat v then Undef
      else
        let n = vertices ! unat v;
            n' = (if \<not> wcc_hasNeighbor curr_id n then wcc_addNeighbor curr_id n else n)
        in undirect_neighbors curr_id vs vertices)"

fun undirect_all :: "nat list \<Rightarrow> wcc_vertex list \<Rightarrow> (unit, wcc_vertex list) outcome" where
  "undirect_all [] vertices = Ok () vertices"
| "undirect_all (k # ks) vertices =
     bindO (undirect_neighbors (wcc_getId (vertices ! k)) (wcc_getNeighbors (vertices ! k)) vertices)
       (\<lambda>_. undirect_all ks)"

definition make_undirected :: "wcc_vertex list \<Rightarrow> (unit, wcc_vertex list) outcome" where
  "make_undirected vertices = undirect_all [0..<length vertices] vertices"

text \<open>
  The neighbours that are pushed on the fringe. \<^verbatim>\<open>cm.get\<close> and \<^verbatim>\<open>cm.put\<close> are arguments; an
  \<^verbatim>\<open>int\<close> becomes an \<^verbatim>\<open>ObjectID\<close> by sign extension.
\<close>

fun push_unseen ::
  "(ObjectID \<Rightarrow> 's \<Rightarrow> (wcc_vertex, 's) call) \<Rightarrow> u32 list \<Rightarrow> 's \<Rightarrow> (u32 list, 's) call" where
  "push_unseen cm_get [] s = Some (Ok [] s)"
| "push_unseen cm_get (v # vs) s =
     bindW (cm_get (scast v) s) (\<lambda>nei s1.
     bindW (push_unseen cm_get vs s1) (\<lambda>pushed s2.
       Some (Ok (if wv_seen nei = False then v # pushed else pushed) s2)))"

text \<open>The body of the search loop: the new labels and what is pushed.\<close>

definition bfs_visit ::
  "(ObjectID \<Rightarrow> 's \<Rightarrow> (wcc_vertex, 's) call) \<Rightarrow> (ObjectID \<Rightarrow> wcc_vertex \<Rightarrow> 's \<Rightarrow> (unit, 's) call)
    \<Rightarrow> u32 \<Rightarrow> u32 \<Rightarrow> u32 list \<Rightarrow> 's \<Rightarrow> (u32 list \<times> u32 list, 's) call" where
  "bfs_visit cm_get cm_put cc ID ccs s =
     bindW (cm_get (scast ID) s) (\<lambda>curr0 s1.
     let curr = curr0\<lparr>wv_seen := True\<rparr> in
     bindW (cm_put (scast ID) curr s1) (\<lambda>_ s2.
     if sint ID < 0 \<or> length ccs \<le> unat ID then Some Undef
     else
       bindW (push_unseen cm_get (wcc_getNeighbors (curr\<lparr>wv_cc := cc\<rparr>)) s2) (\<lambda>pushed s3.
         Some (Ok (ccs[unat ID := cc], pushed) s3))))"

partial_function (option) bfs ::
  "(ObjectID \<Rightarrow> 's \<Rightarrow> (wcc_vertex, 's) call) \<Rightarrow> (ObjectID \<Rightarrow> wcc_vertex \<Rightarrow> 's \<Rightarrow> (unit, 's) call)
    \<Rightarrow> u32 \<Rightarrow> u32 list \<Rightarrow> u32 list \<Rightarrow> 's \<Rightarrow> (u32 list, 's) call" where
  "bfs cm_get cm_put cc fringe ccs s =
     (case fringe of
        [] \<Rightarrow> Some (Ok ccs s)
      | ID # fringe1 \<Rightarrow>
          (case bfs_visit cm_get cm_put cc ID ccs s of
             None \<Rightarrow> None
           | Some r \<Rightarrow>
               (case r of
                  Ok p s1 \<Rightarrow> bfs cm_get cm_put cc (fringe1 @ snd p) (fst p) s1
                | Throw e s1 \<Rightarrow> Some (Throw e s1)
                | Undef \<Rightarrow> Some Undef)))"

text \<open>\<open>k\<close> more vertices from \<open>i\<close> on; incrementing the largest \<^verbatim>\<open>int\<close> is undefined.\<close>

fun wcc_loop ::
  "(ObjectID \<Rightarrow> 's \<Rightarrow> (wcc_vertex, 's) call) \<Rightarrow> (ObjectID \<Rightarrow> wcc_vertex \<Rightarrow> 's \<Rightarrow> (unit, 's) call)
    \<Rightarrow> nat \<Rightarrow> u32 \<Rightarrow> u32 \<Rightarrow> u32 list \<Rightarrow> 's \<Rightarrow> (u32 list, 's) call" where
  "wcc_loop cm_get cm_put 0 i cc ccs s = Some (Ok ccs s)"
| "wcc_loop cm_get cm_put (Suc k) i cc ccs s =
     bindW (cm_get (ucast i) s) (\<lambda>curr s1.
       if \<not> wv_seen curr
       then
         bindW (bfs cm_get cm_put cc [i] ccs s1) (\<lambda>ccs1 s2.
           if cc = 2 ^ 31 - 1 then Some Undef
           else wcc_loop cm_get cm_put k (i + 1) (cc + 1) ccs1 s2)
       else wcc_loop cm_get cm_put k (i + 1) cc ccs s1)"

definition weakly_cc ::
  "(ObjectID \<Rightarrow> 's \<Rightarrow> (wcc_vertex, 's) call) \<Rightarrow> (ObjectID \<Rightarrow> wcc_vertex \<Rightarrow> 's \<Rightarrow> (unit, 's) call)
    \<Rightarrow> u32 \<Rightarrow> 's \<Rightarrow> (u32 list, 's) call" where
  "weakly_cc cm_get cm_put num_vertices s =
     wcc_loop cm_get cm_put (unat num_vertices) 0 1 (replicate (unat num_vertices) (- 1)) s"

section \<open>The program\<close>

text \<open>
  \<open>fs\<close> is what the files hold, \<open>st\<close> the session of the client that has connected, \<open>args\<close> the
  arguments after the name of the program; the result is the array that is printed.
\<close>

abbreviation wcc_env ::
  "('b, wcc_vertex) full_blade \<Rightarrow> ('b session, wcc_vertex, nat, nat, lradded, unit) cache_env" where
  "wcc_env fb \<equiv> fb_cache_env fb (wcc_Vertex 0) (\<lambda>_ _ _. Ok [] ())"

definition wcc_cache_size :: u64 where
  "wcc_cache_size = 200"

definition wcc_main ::
  "(string \<Rightarrow> string option) \<Rightarrow> ('b, wcc_vertex) full_blade \<Rightarrow> 'b session \<Rightarrow> ObjectID \<Rightarrow> ObjectID
    \<Rightarrow> string list \<Rightarrow> (u32 list, unit) call" where
  "wcc_main fs fb st f0 l0 args =
     (case args of
        [fname] \<Rightarrow>
          (case wcc_readGraph fs fname of
             Throw e _ \<Rightarrow> Some (Throw e ())
           | Undef \<Rightarrow> Some Undef
           | Ok vs0 _ \<Rightarrow>
               (case make_undirected vs0 of
                  Throw e _ \<Rightarrow> Some (Throw e ())
                | Undef \<Rightarrow> Some Undef
                | Ok _ vs \<Rightarrow>
                    (case CacheManager st (LRAddedEvictionPolicy wcc_cache_size) wcc_cache_size False f0 l0 of
                       Inl e \<Rightarrow> Some (Throw e ())
                     | Inr cm \<Rightarrow>
                         liftW (\<lambda>_. ())
                           (bindW (put_vertices (put (wcc_env fb)) wcc_getId vs cm) (\<lambda>_.
                              weakly_cc (get (wcc_env fb)) (put (wcc_env fb)) (word_of_nat (length vs)))))))
      | _ \<Rightarrow> Some (Throw (runtime_error ''./test_wcc <input_file>'') ()))"

lemma bfs_Nil: "bfs cm_get cm_put cc [] ccs s = Some (Ok ccs s)"
  by (subst bfs.simps) simp

lemma make_undirected_nothing:
  assumes "\<forall>v\<in>set vs. \<forall>n\<in>set (wv_neighbors v). 0 \<le> sint n \<and> unat n < length vs"
  shows "make_undirected vs = Ok () vs"
proof -
  have 1: "undirect_neighbors c ns vs = Ok () vs"
    if "\<forall>n\<in>set ns. 0 \<le> sint n \<and> unat n < length vs" for c ns
    using that by (induction ns) (auto simp: Let_def)
  have "undirect_neighbors c (wv_neighbors (vs ! k)) vs = Ok () vs" if "k < length vs" for c k
    by (rule 1) (use assms nth_mem [OF that] in blast)
  then have "undirect_all ks vs = Ok () vs" if "set ks \<subseteq> {..<length vs}" for ks
    using that by (induction ks) (auto simp: wcc_getNeighbors_def)
  then show ?thesis by (simp add: make_undirected_def atLeast0LessThan)
qed

section \<open>The search\<close>

text \<open>The graph is stored, and \<open>T\<close> are the vertices marked as seen.\<close>

definition graph_stored :: "nat list list \<Rightarrow> nat set \<Rightarrow> (ObjectID \<rightharpoonup> wcc_vertex) \<Rightarrow> bool" where
  "graph_stored E T L \<longleftrightarrow> T \<subseteq> {..<length E} \<and>
     (\<forall>i<length E. \<exists>v. L (word_of_nat i) = Some v \<and> wv_neighbors v = map word_of_nat (nbrs E i)
        \<and> wv_cc v = - 1 \<and> (wv_seen v \<longleftrightarrow> i \<in> T))"

text \<open>
  A vertex may be on the fringe many times. What an entry can still cause is bounded by a
  power of the number of vertices not seen yet; an entry already seen may cause one level more.
\<close>

definition entry_weight :: "nat \<Rightarrow> nat set \<Rightarrow> nat \<Rightarrow> nat" where
  "entry_weight n T x =
     (n + 1) ^ (if x \<in> T then Suc (card ({..<n} - T)) else card ({..<n} - T))"

definition fringe_weight :: "nat \<Rightarrow> nat set \<Rightarrow> nat list \<Rightarrow> nat" where
  "fringe_weight n T F = sum_list (map (entry_weight n T) F)"

lemma card_unseen:
  fixes n :: nat
  assumes "x < n" "x \<notin> T"
  shows "card ({..<n} - T) = Suc (card ({..<n} - insert x T))"
proof -
  have e: "{..<n} - insert x T = ({..<n} - T) - {x}" by auto
  have "Suc (card (({..<n} - T) - {x})) = card ({..<n} - T)" using assms by (intro card_Suc_Diff1) auto
  then show ?thesis unfolding e by (rule sym)
qed

lemma entry_weight_less:
  assumes "x < n"
  shows "entry_weight n (insert x T) y \<le> entry_weight n T y"
proof (cases "x \<in> T")
  case False
  then show ?thesis using card_unseen [OF assms False]
    by (auto simp: entry_weight_def intro!: power_increasing)
qed (simp add: insert_absorb)

lemma fringe_weight_less:
  assumes x: "x < n" and l: "length P \<le> n" and P: "set P \<inter> insert x T = {}"
  shows "fringe_weight n (insert x T) (F @ P) < fringe_weight n T (x # F)"
proof -
  let ?u = "card ({..<n} - insert x T)"
  have "sum_list (map (entry_weight n (insert x T)) P) = length P * (n + 1) ^ ?u"
  proof -
    have "map (entry_weight n (insert x T)) P = map (\<lambda>_. (n + 1) ^ ?u) P"
      using P by (auto simp: entry_weight_def)
    then have "sum_list (map (entry_weight n (insert x T)) P) = sum_list (map (\<lambda>_. (n + 1) ^ ?u) P)"
      by (rule arg_cong)
    then show ?thesis by (simp add: sum_list_triv)
  qed
  also have "\<dots> \<le> n * (n + 1) ^ ?u" using l by (rule mult_le_mono1)
  also have "\<dots> < (n + 1) ^ Suc ?u" by simp
  also have "(n + 1) ^ Suc ?u = entry_weight n T x"
    using card_unseen [OF x, of T] by (auto simp: entry_weight_def insert_absorb)
  finally have 1: "sum_list (map (entry_weight n (insert x T)) P) < entry_weight n T x" .
  have 2: "sum_list (map (entry_weight n (insert x T)) F) \<le> sum_list (map (entry_weight n T) F)"
    using entry_weight_less [OF x] by (intro sum_list_mono) auto
  from 1 2 show ?thesis by (simp add: fringe_weight_def)
qed

text \<open>What the search needs of the memory: a stored vertex may be overwritten with its mark set.\<close>

locale vertex_memory =
  object_memory mget mput H allowed
  for mget :: "ObjectID \<Rightarrow> 's \<Rightarrow> (wcc_vertex, 's) call"
    and mput :: "ObjectID \<Rightarrow> wcc_vertex \<Rightarrow> 's \<Rightarrow> (unit, 's) call"
    and H :: "'s \<Rightarrow> (ObjectID \<rightharpoonup> wcc_vertex) \<times> ObjectID set \<Rightarrow> nat \<Rightarrow> bool"
    and allowed :: "(ObjectID \<rightharpoonup> wcc_vertex) \<Rightarrow> ObjectID \<Rightarrow> wcc_vertex \<Rightarrow> bool" +
  assumes allowed_mark: "L i \<noteq> None \<Longrightarrow> wcc_valid (v\<lparr>wv_seen := False\<rparr>) \<Longrightarrow> allowed L i v"
begin

lemma get_vertex:
  assumes "graph_ok E" "graph_stored E T L" "i < length E"
  obtains v where "runs H (mget (word_of_nat i)) (L, {}) 2 v (L, {})" "L (word_of_nat i) = Some v"
    "wv_neighbors v = map word_of_nat (nbrs E i)" "wv_cc v = - 1" "wv_seen v \<longleftrightarrow> i \<in> T"
proof -
  obtain v where v: "L (word_of_nat i) = Some v" "wv_neighbors v = map word_of_nat (nbrs E i)"
      "wv_cc v = - 1" "wv_seen v \<longleftrightarrow> i \<in> T"
    using assms(2,3) by (auto simp: graph_stored_def)
  from memory_get [of L "word_of_nat i" v "{}", OF v(1)] v show ?thesis by (intro that) simp_all
qed

lemma push_unseen_runs:
  assumes g: "graph_ok E" "graph_stored E T L" and ns: "set ns \<subseteq> {..<length E}"
  shows "runs H (push_unseen mget (map word_of_nat ns)) (L, {}) (2 * length ns)
           (map word_of_nat (filter (\<lambda>j. j \<notin> T) ns)) (L, {})"
  using ns
proof (induction ns)
  case Nil
  then show ?case by (simp add: runs_def)
next
  case (Cons n ns)
  then have n: "n < length E" by simp
  obtain v where v: "runs H (mget (word_of_nat n)) (L, {}) 2 v (L, {})" "wv_seen v \<longleftrightarrow> n \<in> T"
    by (rule get_vertex [OF g n])
  let ?ps = "map word_of_nat (filter (\<lambda>j. j \<notin> T) ns) :: u32 list"
  have "runs H (push_unseen mget (map word_of_nat ns)) (L, {}) (2 * length ns) ?ps (L, {})"
    using Cons by simp
  note push = runs_map [OF this, where g = "\<lambda>pushed. if wv_seen v = False then word_of_nat n # pushed else pushed"]
  have "runs H (\<lambda>s. bindW (mget (word_of_nat n) s) (\<lambda>nei s1. bindW (push_unseen mget (map word_of_nat ns) s1)
        (\<lambda>pushed s2. Some (Ok (if wv_seen nei = False then word_of_nat n # pushed else pushed) s2))))
      (L, {}) (2 + 2 * length ns) (if wv_seen v = False then word_of_nat n # ?ps else ?ps) (L, {})"
    by (rule runs_bind [OF v(1)]) (rule push)
  then show ?case
    using v(2) small_ids(1) [OF graph_okD(1) [OF g(1) n]] by (cases "n \<in> T") (simp_all add: runs_def)
qed

lemma bfs_visit_runs:
  assumes g: "graph_ok E" "graph_stored E T L" and x: "x < length E" "length ccs = length E"
  obtains L' where "graph_stored E (insert x T) L'"
    "runs H (bfs_visit mget mput cc (word_of_nat x) ccs) (L, {}) (4 + 2 * length E)
       (ccs[x := cc], map word_of_nat (filter (\<lambda>j. j \<notin> insert x T) (nbrs E x))) (L', {})"
proof -
  note D = graph_okD [OF g(1) x(1)]
  note I = small_ids [OF D(1)]
  obtain v where v: "runs H (mget (word_of_nat x)) (L, {}) 2 v (L, {})" "L (word_of_nat x) = Some v"
    "wv_neighbors v = map word_of_nat (nbrs E x)" "wv_cc v = - 1"
    by (rule get_vertex [OF g x(1)])
  let ?v = "v\<lparr>wv_seen := True\<rparr>"
  let ?L = "L(word_of_nat x \<mapsto> ?v)"
  have "length (nbrs E x) < 2 ^ 28 - 2" using D(3) g(1) by (simp add: graph_ok_def)
  moreover have "\<forall>n\<in>set (E ! x). n < 2 ^ 31"
    using g(1) x(1) by (fastforce simp: graph_ok_def)
  then have "sorted_wrt sless (map word_of_nat (nbrs E x))" unfolding nbrs_def by (rule sorted_neighbors)
  ultimately have "wcc_valid (?v\<lparr>wv_seen := False\<rparr>)" using v(3,4) by (simp add: wcc_valid_def)
  then have p: "runs H (mput (word_of_nat x) ?v) (L, {}) 2 () (?L, {})"
    using v(2) by (intro memory_put allowed_mark) simp_all
  have st: "graph_stored E (insert x T) ?L"
    using g(2) x(1) v id_inj [OF _ D(1)] graph_okD(1) [OF g(1)] by (auto simp: graph_stored_def)
  have ns: "set (nbrs E x) \<subseteq> {..<length E}" using D(2) by blast
  let ?ps = "map word_of_nat (filter (\<lambda>j. j \<notin> insert x T) (nbrs E x)) :: u32 list"
  let ?push = "\<lambda>s. bindW (push_unseen mget (map word_of_nat (nbrs E x)) s) (\<lambda>pushed s'. Some (Ok (ccs[x := cc], pushed) s'))"
  have "runs H ?push (?L, {}) (2 * length (nbrs E x)) (ccs[x := cc], ?ps) (?L, {})"
    by (rule runs_map [OF push_unseen_runs [OF g(1) st ns]])
  note tail = runs_bind [OF p, where f = "\<lambda>_. ?push", OF this]
  have "runs H (\<lambda>s. bindW (mget (word_of_nat x) s) (\<lambda>curr0 s1. bindW (mput (word_of_nat x) (curr0\<lparr>wv_seen := True\<rparr>) s1)
        (\<lambda>_ s2. bindW (push_unseen mget (wv_neighbors curr0) s2) (\<lambda>pushed s3. Some (Ok (ccs[x := cc], pushed) s3)))))
      (L, {}) (2 + (2 + 2 * length (nbrs E x))) (ccs[x := cc], ?ps) (?L, {})"
    by (rule runs_bind [OF v(1)]) (unfold v(3), rule tail)
  then have "runs H (bfs_visit mget mput cc (word_of_nat x) ccs) (L, {}) (2 + (2 + 2 * length (nbrs E x)))
      (ccs[x := cc], ?ps) (?L, {})"
    by (rule runs_cong [rotated]) (use I x in \<open>simp add: bfs_visit_def wcc_getNeighbors_def\<close>)
  then have "runs H (bfs_visit mget mput cc (word_of_nat x) ccs) (L, {}) (4 + 2 * length E)
      (ccs[x := cc], ?ps) (?L, {})"
    by (rule runs_more) (use D(3) in simp)
  with st show ?thesis by (rule that)
qed

end

text \<open>
  What the search from the fringe \<open>F\<close> has done when it returns: it has marked what was not
  marked and can be reached, and labelled it.
\<close>

definition bfs_post ::
  "nat list list \<Rightarrow> nat set \<Rightarrow> nat list \<Rightarrow> u32 \<Rightarrow> u32 list \<Rightarrow> nat set \<Rightarrow> u32 list \<Rightarrow> bool" where
  "bfs_post E T F cc ccs T' ccs' \<longleftrightarrow>
     T \<union> set F \<subseteq> T' \<and> T' \<subseteq> T \<union> (graph_edges E)\<^sup>* `` set F
     \<and> (\<forall>x\<in>(T' - T) \<union> set F. set (nbrs E x) \<subseteq> T')
     \<and> length ccs' = length ccs
     \<and> (\<forall>x<length E. ccs' ! x = (if x \<in> (T' - T) \<union> set F then cc else ccs ! x))"

lemma bfs_post_step:
  assumes x: "x < length E" and ccs: "length ccs = length E"
    and post: "bfs_post E (insert x T) (F @ filter (\<lambda>j. j \<notin> insert x T) (nbrs E x)) cc (ccs[x := cc]) T' ccs'"
  shows "bfs_post E T (x # F) cc ccs T' ccs'"
proof -
  let ?P = "filter (\<lambda>j. j \<notin> insert x T) (nbrs E x)"
  have D: "insert x T \<union> set F \<union> set ?P \<subseteq> T'"
      "T' \<subseteq> insert x T \<union> (graph_edges E)\<^sup>* `` (set F \<union> set ?P)"
      "\<And>y. y \<in> (T' - insert x T) \<union> set F \<union> set ?P \<Longrightarrow> set (nbrs E y) \<subseteq> T'"
      "length ccs' = length ccs"
      "\<And>y. y < length E \<Longrightarrow>
        ccs' ! y = (if y \<in> (T' - insert x T) \<union> set F \<union> set ?P then cc else (ccs[x := cc]) ! y)"
    using post by (auto simp: bfs_post_def)
  have nb: "set (nbrs E x) = set (E ! x)" by (simp add: nbrs_def)
  then have "(graph_edges E)\<^sup>* `` set ?P \<subseteq> (graph_edges E)\<^sup>* `` {x}"
    using x by (auto simp: graph_edges_def intro: converse_rtrancl_into_rtrancl)
  then have "(graph_edges E)\<^sup>* `` (set F \<union> set ?P) \<subseteq> (graph_edges E)\<^sup>* `` set (x # F)"
    by (simp only: Image_Un set_simps insert_is_Un [of x "set F"]) (rule Un_least, auto)
  moreover have "insert x T \<subseteq> T \<union> (graph_edges E)\<^sup>* `` set (x # F)" by auto
  ultimately have reach: "T' \<subseteq> T \<union> (graph_edges E)\<^sup>* `` set (x # F)"
    using D(2) by (meson Un_least order_trans sup.coboundedI2)
  have marked: "(T' - T) \<union> set (x # F) = insert x ((T' - insert x T) \<union> set F \<union> set ?P)"
    using D(1) by auto
  have "set (nbrs E x) \<subseteq> T'" using D(1) by auto
  then have closed: "\<forall>y\<in>(T' - T) \<union> set (x # F). set (nbrs E y) \<subseteq> T'"
    unfolding marked using D(3) by auto
  have labels: "\<forall>y<length E. ccs' ! y = (if y \<in> (T' - T) \<union> set (x # F) then cc else ccs ! y)"
    unfolding marked using D(5) x ccs by (auto simp: nth_list_update)
  show ?thesis unfolding bfs_post_def
    using D(1,4) reach closed labels by (intro conjI) auto
qed

context vertex_memory
begin

lemma bfs_step:
  assumes v: "runs H (bfs_visit mget mput cc ID ccs) l m (ccs1, P) l1"
    and b: "runs H (bfs mget mput cc (F @ P) ccs1) l1 m' r l2"
  shows "runs H (bfs mget mput cc (ID # F) ccs) l (m + m') r l2"
proof (rule runsI)
  fix s k assume "H s l (m + m' + k)"
  then have "H s l (m + (m' + k))" by (simp add: add.assoc)
  with v obtain s1 where 1: "bfs_visit mget mput cc ID ccs s = Some (Ok (ccs1, P) s1)" "H s1 l1 (m' + k)"
    by (rule runsE)
  from b 1(2) obtain s2 where "bfs mget mput cc (F @ P) ccs1 s1 = Some (Ok r s2)" "H s2 l2 k" by (rule runsE)
  then show "\<exists>s'. bfs mget mput cc (ID # F) ccs s = Some (Ok r s') \<and> H s' l2 k"
    using 1(1) by (subst bfs.simps) simp
qed

lemma bfs_runs:
  assumes "graph_ok E" "graph_stored E T L" "set F \<subseteq> {..<length E}" "length ccs = length E"
  shows "\<exists>m L' T' ccs'. m \<le> (4 + 2 * length E) * fringe_weight (length E) T F
           \<and> runs H (bfs mget mput cc (map word_of_nat F) ccs) (L, {}) m ccs' (L', {})
           \<and> graph_stored E T' L' \<and> bfs_post E T F cc ccs T' ccs'"
  using assms(2-)
proof (induction "fringe_weight (length E) T F" arbitrary: T L F ccs rule: less_induct)
  case less
  show ?case
  proof (cases F)
    case Nil
    have "runs H (bfs mget mput cc [] ccs) (L, {}) 0 ccs (L, {})" by (simp add: runs_def bfs_Nil)
    then show ?thesis using less.prems Nil
      by (intro exI [of _ 0] exI [of _ L] exI [of _ T] exI [of _ ccs]) (simp add: bfs_post_def)
  next
    case (Cons x F')
    let ?n = "length E" and ?P = "filter (\<lambda>j. j \<notin> insert x T) (nbrs E x)"
    have x: "x < ?n" using less.prems Cons by simp
    note D = graph_okD [OF assms(1) x]
    obtain L1 where 1: "graph_stored E (insert x T) L1"
        "runs H (bfs_visit mget mput cc (word_of_nat x) ccs) (L, {}) (4 + 2 * ?n)
           (ccs[x := cc], map word_of_nat ?P) (L1, {})"
      by (rule bfs_visit_runs [OF assms(1) less.prems(1) x less.prems(3)])
    have w: "fringe_weight ?n (insert x T) (F' @ ?P) < fringe_weight ?n T F"
      unfolding Cons using D(3) by (intro fringe_weight_less [OF x] le_trans [OF length_filter_le]) auto
    have "set (F' @ ?P) \<subseteq> {..<?n}" "length (ccs[x := cc]) = ?n"
      using less.prems Cons D(2) by auto
    from less.hyps [OF w 1(1) this] obtain m L' T' ccs' where
        2: "m \<le> (4 + 2 * ?n) * fringe_weight ?n (insert x T) (F' @ ?P)"
          "runs H (bfs mget mput cc (map word_of_nat (F' @ ?P)) (ccs[x := cc])) (L1, {}) m ccs' (L', {})"
          "graph_stored E T' L'" "bfs_post E (insert x T) (F' @ ?P) cc (ccs[x := cc]) T' ccs'"
      by (elim exE conjE) (rule that)
    have "runs H (bfs mget mput cc (map word_of_nat F) ccs) (L, {}) ((4 + 2 * ?n) + m) ccs' (L', {})"
      using bfs_step [OF 1(2), of "map word_of_nat F'"] 2(2) Cons by simp
    moreover have "(4 + 2 * ?n) + m \<le> (4 + 2 * ?n) * fringe_weight ?n T F"
    proof -
      have "(4 + 2 * ?n) + m \<le> (4 + 2 * ?n) * Suc (fringe_weight ?n (insert x T) (F' @ ?P))"
        using 2(1) by simp
      also have "\<dots> \<le> (4 + 2 * ?n) * fringe_weight ?n T F" using w by (intro mult_le_mono2) simp
      finally show ?thesis .
    qed
    moreover have "bfs_post E T F cc ccs T' ccs'"
      unfolding Cons by (rule bfs_post_step [OF x less.prems(3) 2(4)])
    ultimately show ?thesis using 2(3) by blast
  qed
qed

end

section \<open>The components\<close>

text \<open>The vertices of \<open>S\<close>, which is closed under edges, have labels below \<open>cc\<close>, one for each component.\<close>

definition labels_ok :: "nat list list \<Rightarrow> nat set \<Rightarrow> u32 \<Rightarrow> u32 list \<Rightarrow> bool" where
  "labels_ok E S cc ccs \<longleftrightarrow> length ccs = length E \<and> S \<subseteq> {..<length E}
     \<and> (\<forall>x\<in>S. set (nbrs E x) \<subseteq> S \<and> ccs ! x < cc)
     \<and> (\<forall>x\<in>S. \<forall>y\<in>S. ccs ! x = ccs ! y \<longleftrightarrow> (x, y) \<in> (graph_edges E)\<^sup>*)"

lemma graph_edges_nbrs: "(x, y) \<in> graph_edges E \<longleftrightarrow> x < length E \<and> y \<in> set (nbrs E x)"
  by (simp add: graph_edges_def nbrs_def)

lemma closed_reach:
  assumes "(x, y) \<in> (graph_edges E)\<^sup>*" "x \<in> S" "\<forall>x\<in>S. set (nbrs E x) \<subseteq> S"
  shows "y \<in> S"
  using assms(1) by induction (use assms graph_edges_nbrs in blast)+

lemma bfs_component:
  assumes sym: "sym (graph_edges E)" and S: "\<forall>x\<in>S. set (nbrs E x) \<subseteq> S" "S \<subseteq> {..<length E}" and i: "i \<notin> S"
    and post: "bfs_post E S [i] cc ccs S' ccs'"
  shows "S' - S = (graph_edges E)\<^sup>* `` {i}"
proof
  show "S' - S \<subseteq> (graph_edges E)\<^sup>* `` {i}" using post by (auto simp: bfs_post_def)
  show "(graph_edges E)\<^sup>* `` {i} \<subseteq> S' - S"
  proof
    fix y assume "y \<in> (graph_edges E)\<^sup>* `` {i}"
    then have "(i, y) \<in> (graph_edges E)\<^sup>*" by simp
    then show "y \<in> S' - S"
    proof induction
      case base
      then show ?case using post i by (auto simp: bfs_post_def)
    next
      case (step y z)
      have "set (nbrs E y) \<subseteq> S'" using post step.IH by (simp add: bfs_post_def)
      moreover have "z \<in> set (nbrs E y)" using step.hyps(2) by (simp add: graph_edges_nbrs)
      moreover have "(z, y) \<in> graph_edges E" using sym step.hyps(2) by (rule symD)
      then have "y \<in> set (nbrs E z)" by (simp add: graph_edges_nbrs)
      then have "z \<notin> S" using S(1) step.IH by auto
      ultimately show ?case by blast
    qed
  qed
qed

lemma labels_step:
  assumes sym: "sym (graph_edges E)" and l: "labels_ok E S cc ccs" and i: "i < length E" "i \<notin> S"
    and post: "bfs_post E S [i] cc ccs S' ccs'" and S': "S' \<subseteq> {..<length E}" and cc: "cc < cc + 1"
  shows "labels_ok E S' (cc + 1) ccs'"
proof -
  let ?R = "(graph_edges E)\<^sup>*"
  have S: "\<forall>x\<in>S. set (nbrs E x) \<subseteq> S" "S \<subseteq> {..<length E}" using l by (simp_all add: labels_ok_def)
  have C: "S' - S = ?R `` {i}" by (rule bfs_component [OF sym S i(2) post])
  have sub: "S \<subseteq> S'" "i \<in> S'" using post by (auto simp: bfs_post_def)
  have lab: "ccs' ! x = (if x \<in> S then ccs ! x else cc)" if "x \<in> S'" for x
    using that post S' sub i(2) by (auto simp: bfs_post_def)
  have symR: "(x, y) \<in> ?R \<Longrightarrow> (y, x) \<in> ?R" for x y
    using sym_rtrancl [OF sym] by (rule symD)
  have out: "(x, y) \<notin> ?R" if "x \<in> S" "y \<notin> S" for x y
    using closed_reach [OF _ that(1) S(1)] that(2) by blast
  have low: "ccs ! x \<noteq> cc" if "x \<in> S" for x using l that by (auto simp: labels_ok_def)
  have "ccs' ! x = ccs' ! y \<longleftrightarrow> (x, y) \<in> ?R" if xy: "x \<in> S'" "y \<in> S'" for x y
  proof (cases "x \<in> S"; cases "y \<in> S")
    assume "x \<in> S" "y \<in> S"
    then show ?thesis using l lab [OF xy(1)] lab [OF xy(2)] by (simp add: labels_ok_def)
  next
    assume "x \<in> S" "y \<notin> S"
    then show ?thesis using lab [OF xy(1)] lab [OF xy(2)] low out by simp
  next
    assume "x \<notin> S" "y \<in> S"
    then show ?thesis using lab [OF xy(1)] lab [OF xy(2)] low out symR by (metis (full_types))
  next
    assume n: "x \<notin> S" "y \<notin> S"
    then have "(i, x) \<in> ?R" "(i, y) \<in> ?R" using C xy by auto
    then have "(x, y) \<in> ?R" using symR rtrancl_trans by metis
    then show ?thesis using lab [OF xy(1)] lab [OF xy(2)] n by simp
  qed
  moreover have "set (nbrs E x) \<subseteq> S'" if "x \<in> S'" for x
    using that post S(1) sub by (cases "x \<in> S") (auto simp: bfs_post_def)
  moreover have "ccs' ! x < cc + 1" if "x \<in> S'" for x
    using lab [OF that] l cc that by (auto simp: labels_ok_def intro: order.strict_trans)
  ultimately show ?thesis using l post S' by (simp add: labels_ok_def bfs_post_def)
qed

context vertex_memory
begin

lemma wcc_loop_seen:
  assumes "graph_ok E" "graph_stored E S L" "i < length E" "i \<in> S"
    and "runs H (wcc_loop mget mput k (word_of_nat (Suc i)) cc ccs) (L, {}) m r l"
  shows "runs H (wcc_loop mget mput (Suc k) (word_of_nat i) cc ccs) (L, {}) (2 + m) r l"
proof -
  have next_i: "(word_of_nat (Suc i) :: u32) = word_of_nat i + 1" by (simp add: add.commute)
  obtain v where v: "runs H (mget (word_of_nat i)) (L, {}) 2 v (L, {})" "wv_seen v \<longleftrightarrow> i \<in> S"
    by (rule get_vertex [OF assms(1-3)])
  show ?thesis
    unfolding wcc_loop.simps small_ids(2) [OF graph_okD(1) [OF assms(1,3)]]
    by (rule runs_bind [OF v(1)]) (use assms(5) [unfolded next_i] v(2) assms(4) in simp)
qed

lemma wcc_loop_unseen:
  assumes g: "graph_ok E" "graph_stored E S L" and i: "i < length E" "i \<notin> S"
    and c: "length ccs = length E" "cc \<noteq> 2 ^ 31 - 1"
  obtains m1 L1 S1 ccs1 where "m1 \<le> (4 + 2 * length E) * (length E + 1) ^ length E"
    "graph_stored E S1 L1" "bfs_post E S [i] cc ccs S1 ccs1"
    "\<forall>k m r l. runs H (wcc_loop mget mput k (word_of_nat (Suc i)) (cc + 1) ccs1) (L1, {}) m r l \<longrightarrow>
       runs H (wcc_loop mget mput (Suc k) (word_of_nat i) cc ccs) (L, {}) (2 + (m1 + m)) r l"
proof -
  let ?n = "length E"
  have next_i: "(word_of_nat (Suc i) :: u32) = word_of_nat i + 1" by (simp add: add.commute)
  obtain v where v: "runs H (mget (word_of_nat i)) (L, {}) 2 v (L, {})" "wv_seen v \<longleftrightarrow> i \<in> S"
    by (rule get_vertex [OF g i(1)])
  have "set [i] \<subseteq> {..<?n}" using i by simp
  from bfs_runs [OF g this c(1), of cc] obtain m1 L1 S1 ccs1 where
      1: "m1 \<le> (4 + 2 * ?n) * fringe_weight ?n S [i]"
        "runs H (bfs mget mput cc (map word_of_nat [i]) ccs) (L, {}) m1 ccs1 (L1, {})"
        "graph_stored E S1 L1" "bfs_post E S [i] cc ccs S1 ccs1"
    by (elim exE conjE) (rule that)
  have "(?n + 1) ^ card ({..<?n} - S) \<le> (?n + 1) ^ ?n"
    using card_mono [of "{..<?n}" "{..<?n} - S"] by (intro power_increasing) auto
  then have "fringe_weight ?n S [i] \<le> (?n + 1) ^ ?n"
    using i(2) by (simp add: fringe_weight_def entry_weight_def)
  then have m1: "m1 \<le> (4 + 2 * ?n) * (?n + 1) ^ ?n" using 1(1) by (meson le_trans mult_le_mono2)
  show ?thesis
  proof (rule that [OF m1 1(3,4)], intro allI impI)
    fix k m r l assume w: "runs H (wcc_loop mget mput k (word_of_nat (Suc i)) (cc + 1) ccs1) (L1, {}) m r l"
    have b: "runs H (\<lambda>s. bindW (bfs mget mput cc [word_of_nat i] ccs s) (\<lambda>ccs1 s2.
          if cc = 2 ^ 31 - 1 then Some Undef
          else wcc_loop mget mput k (word_of_nat i + 1) (cc + 1) ccs1 s2)) (L, {}) (m1 + m) r l"
      by (rule runs_bind [where r = ccs1]) (use 1(2) w [unfolded next_i] c(2) in simp_all)
    show "runs H (wcc_loop mget mput (Suc k) (word_of_nat i) cc ccs) (L, {}) (2 + (m1 + m)) r l"
      unfolding wcc_loop.simps small_ids(2) [OF graph_okD(1) [OF g(1) i(1)]]
      by (rule runs_bind [OF v(1)]) (use b v(2) i(2) in simp)
  qed
qed

lemma wcc_loop_runs:
  assumes g: "graph_ok E" "sym (graph_edges E)"
    and "graph_stored E S L" "{..<i} \<subseteq> S" "labels_ok E S cc ccs" "unat cc \<le> Suc i" "k + i = length E"
  shows "\<exists>m L' cc' ccs'. m \<le> k * (2 + (4 + 2 * length E) * (length E + 1) ^ length E)
           \<and> runs H (wcc_loop mget mput k (word_of_nat i) cc ccs) (L, {}) m ccs' (L', {})
           \<and> labels_ok E {..<length E} cc' ccs'"
  using assms(3-)
proof (induction k arbitrary: S L i cc ccs)
  case 0
  then have "S = {..<length E}" by (auto simp: graph_stored_def)
  then show ?case using 0(3)
    by (intro exI [of _ 0] exI [of _ L] exI [of _ cc] exI [of _ ccs]) (simp add: runs_def)
next
  case (Suc k)
  let ?n = "length E"
  let ?c = "(4 + 2 * ?n) * (?n + 1) ^ ?n"
  have i: "i < ?n" using Suc.prems(5) by simp
  show ?case
  proof (cases "i \<in> S")
    case True
    have a: "{..<Suc i} \<subseteq> S" using Suc.prems(2) True by (auto simp: less_Suc_eq)
    have b: "unat cc \<le> Suc (Suc i)" "k + Suc i = ?n" using Suc.prems(4,5) by simp_all
    from Suc.IH [OF Suc.prems(1) a Suc.prems(3) b] obtain m L' cc' ccs' where m: "m \<le> k * (2 + ?c)"
        "runs H (wcc_loop mget mput k (word_of_nat (Suc i)) cc ccs) (L, {}) m ccs' (L', {})"
        "labels_ok E {..<?n} cc' ccs'"
      by (elim exE conjE) (rule that)
    have "2 + m \<le> Suc k * (2 + ?c)" using m(1) by simp
    with wcc_loop_seen [OF g(1) Suc.prems(1) i True m(2)] m(3) show ?thesis by blast
  next
    case False
    have small: "unat cc < 2 ^ 28" using Suc.prems(4) i g(1) by (simp add: graph_ok_def)
    then have cc: "cc < cc + 1" "cc \<noteq> 2 ^ 31 - 1" "unat (cc + 1) = Suc (unat cc)"
      by (auto simp: word_less_nat_alt unat_word_ariths)
    have len: "length ccs = ?n" using Suc.prems(3) by (simp add: labels_ok_def)
    obtain m1 L1 S1 ccs1 where 1: "m1 \<le> ?c" "graph_stored E S1 L1" "bfs_post E S [i] cc ccs S1 ccs1"
        and run: "\<forall>k m r l. runs H (wcc_loop mget mput k (word_of_nat (Suc i)) (cc + 1) ccs1) (L1, {}) m r l \<longrightarrow>
          runs H (wcc_loop mget mput (Suc k) (word_of_nat i) cc ccs) (L, {}) (2 + (m1 + m)) r l"
      by (rule wcc_loop_unseen [OF g(1) Suc.prems(1) i False len cc(2)])
    have "S1 \<subseteq> {..<?n}" using 1(2) by (simp add: graph_stored_def)
    from labels_step [OF g(2) Suc.prems(3) i False 1(3) this cc(1)]
    have l1: "labels_ok E S1 (cc + 1) ccs1" .
    have a: "{..<Suc i} \<subseteq> S1" using Suc.prems(2) 1(3) by (auto simp: bfs_post_def less_Suc_eq)
    have b: "unat (cc + 1) \<le> Suc (Suc i)" "k + Suc i = ?n" using Suc.prems(4,5) cc(3) by simp_all
    from Suc.IH [OF 1(2) a l1 b] obtain m L' cc' ccs' where m: "m \<le> k * (2 + ?c)"
        "runs H (wcc_loop mget mput k (word_of_nat (Suc i)) (cc + 1) ccs1) (L1, {}) m ccs' (L', {})"
        "labels_ok E {..<?n} cc' ccs'"
      by (elim exE conjE) (rule that)
    have "2 + (m1 + m) \<le> Suc k * (2 + ?c)" using 1(1) m(1) by simp
    with run [rule_format, OF m(2)] m(3) show ?thesis by blast
  qed
qed

end

section \<open>The program over a cache on a server\<close>

lemma resident_vertex_memory:
  assumes "stack_ok fb wcc_valid" "serializer fb = wcc_serializer"
  shows "vertex_memory (get (wcc_env fb)) (put (wcc_env fb)) (resident fb wcc_valid cap) (fits_cache fb wcc_valid cap)"
proof (intro vertex_memory.intro vertex_memory_axioms.intro resident_memory [OF assms(1)])
  fix L :: "ObjectID \<rightharpoonup> wcc_vertex" and i v assume "L i \<noteq> None" "wcc_valid (v\<lparr>wv_seen := False\<rparr>)"
  moreover have "same_bytes fb v (v\<lparr>wv_seen := False\<rparr>)"
    by (simp add: same_bytes_def assms(2) wcc_serializer_def wcc_serialize_def wcc_size_def
        wcc_getId_def wcc_getNeighbors_def wcc_getNeighborsSize_def)
  ultimately show "fits_cache fb wcc_valid cap L i v" unfolding fits_cache_def by blast
qed

interpretation wcc_vertices: vertex_memory "get vertex_env" "put vertex_env"
  "resident vertex_store wcc_valid n" "fits_cache vertex_store wcc_valid n" for n
  by (rule resident_vertex_memory [OF vertex_stack]) (simp add: vertex_store_def)

lemma vertices_map_upt:
  assumes "n \<le> 2 ^ 28" "\<And>k. k < n \<Longrightarrow> getId (f k) = word_of_nat k"
  shows "vertices_map getId (map f [0..<n]) L x =
           (if \<exists>k<n. x = word_of_nat k then Some (f (unat x)) else L x)"
  using assms
proof (induction n)
  case 0
  then show ?case by (simp add: vertices_map_def)
next
  case (Suc n)
  have s: "scast (getId (f n)) = (word_of_nat n :: u64)" using Suc.prems small_ids(1) [of n] by simp
  have u: "unat (word_of_nat n :: u64) = n" using Suc.prems(1) by (simp add: unat_of_nat)
  have "vertices_map getId (map f [0..<Suc n]) L x =
      ((vertices_map getId (map f [0..<n]) L)(word_of_nat n \<mapsto> f n)) x"
    by (simp add: vertices_map_def s)
  also have "\<dots> = (if \<exists>k<Suc n. x = word_of_nat k then Some (f (unat x)) else L x)"
    using Suc.IH Suc.prems u by (auto simp: less_Suc_eq)
  finally show ?case .
qed

text \<open>The vertices the program reads from the file, and what it has stored of them.\<close>

definition wcc_file :: "nat list list \<Rightarrow> nat \<Rightarrow> wcc_vertex" where
  "wcc_file E k = file_vertex wcc_Vertex wcc_addNeighbor k (E ! k)"

lemma wcc_file_simps:
  assumes "graph_ok E" "k < length E"
  shows "wcc_getId (wcc_file E k) = word_of_nat k" "wv_neighbors (wcc_file E k) = map word_of_nat (nbrs E k)"
    "wv_cc (wcc_file E k) = - 1" "\<not> wv_seen (wcc_file E k)" "wcc_valid (wcc_file E k)"
proof -
  have n: "\<forall>n\<in>set (E ! k). n < 2 ^ 31" using assms by (fastforce simp: graph_ok_def)
  note f = file_vertex_wcc [OF n, of k]
  show "wcc_getId (wcc_file E k) = word_of_nat k" "wv_neighbors (wcc_file E k) = map word_of_nat (nbrs E k)"
    "wv_cc (wcc_file E k) = - 1" "\<not> wv_seen (wcc_file E k)"
    using f by (simp_all add: wcc_file_def wcc_getId_def wcc_Vertex_def nbrs_def)
  then show "wcc_valid (wcc_file E k)"
    using sorted_neighbors [OF n] graph_okD(3) [OF assms] assms(1) by (simp add: wcc_valid_def nbrs_def graph_ok_def)
qed

lemma graph_ok_small: "graph_ok E \<Longrightarrow> length E \<le> 2 ^ 28"
  by (simp add: graph_ok_def)

lemma load_graph:
  assumes g: "graph_ok E" "length E \<le> cap" and vm: "stack_ok fb wcc_valid" "serializer fb = wcc_serializer"
  obtains L where "graph_stored E {} L"
    "runs (resident fb wcc_valid cap) (put_vertices (put (wcc_env fb)) wcc_getId (map (wcc_file E) [0..<length E]))
       (Map.empty, {}) (2 * length E) () (L, {})"
proof -
  let ?vs = "map (wcc_file E) [0..<length E]"
  have m: "vertices_map wcc_getId (map (wcc_file E) [0..<k]) Map.empty x =
      (if \<exists>j<k. x = word_of_nat j then Some (wcc_file E (unat x)) else None)" if "k \<le> length E" for k x
    by (rule vertices_map_upt) (use that graph_ok_small [OF g(1)] wcc_file_simps(1) [OF g(1)] in auto)
  have d: "card (dom (vertices_map wcc_getId (map (wcc_file E) [0..<k]) Map.empty)) \<le> k" if "k \<le> length E" for k
  proof -
    have "dom (vertices_map wcc_getId (map (wcc_file E) [0..<k]) Map.empty) \<subseteq> word_of_nat ` {..<k}"
      using m [OF that] by (auto split: if_splits)
    then have "card (dom (vertices_map wcc_getId (map (wcc_file E) [0..<k]) Map.empty)) \<le>
        card ((word_of_nat :: nat \<Rightarrow> u64) ` {..<k})"
      by (intro card_mono) auto
    also have "\<dots> \<le> k" using card_image_le [of "{..<k}" "word_of_nat :: nat \<Rightarrow> u64"] by simp
    finally show ?thesis .
  qed
  have "fits_cache fb wcc_valid cap (vertices_map wcc_getId (take k ?vs) Map.empty) (scast (wcc_getId (?vs ! k))) (?vs ! k)"
    if "k < length ?vs" for k
  proof -
    have "take k ?vs = map (wcc_file E) [0..<k]" using that by (simp add: take_map)
    then show ?thesis using that d [of k] g wcc_file_simps(5) [OF g(1), of k]
      by (auto simp: fits_cache_def same_bytes_def)
  qed
  then have r: "runs (resident fb wcc_valid cap) (put_vertices (put (wcc_env fb)) wcc_getId ?vs)
      (Map.empty, {}) (2 * length ?vs) () (vertices_map wcc_getId ?vs Map.empty, {})"
    by (rule object_memory.put_vertices_runs [OF resident_memory [OF vm(1)]])
  moreover have "vertices_map wcc_getId ?vs Map.empty (word_of_nat i) = Some (wcc_file E i)" if "i < length E" for i
  proof -
    have "unat (word_of_nat i :: u64) = i" using graph_okD(1) [OF g(1) that] by (simp add: unat_of_nat)
    then show ?thesis using m [of "length E" "word_of_nat i"] that by auto
  qed
  then have "graph_stored E {} (vertices_map wcc_getId ?vs Map.empty)"
    using wcc_file_simps(2-4) [OF g(1)] by (simp add: graph_stored_def)
  ultimately show ?thesis using that by simp
qed

text \<open>From the file to the loop over the vertices, for any graph.\<close>

lemma wcc_main_runs:
  assumes "stack_ok fb wcc_valid" "serializer fb = wcc_serializer"
    and "fs fname = Some (graph_text E m)" "edges_fit E" "m < 2 ^ 31" "graph_ok E" "length E \<le> 200"
    and loop: "\<And>L. graph_stored E {} L \<Longrightarrow>
      \<exists>r ccs L'. r \<le> B \<and> P ccs \<and> runs (resident fb wcc_valid (unat wcc_cache_size))
        (wcc_loop (get (wcc_env fb)) (put (wcc_env fb)) (length E) 0 1 (replicate (length E) (- 1))) (L, {}) r ccs (L', {})"
  shows "\<exists>r \<le> 2 * length E + B. \<forall>st a. mem_R fb wcc_valid st a Map.empty Map.empty r \<longrightarrow>
           (\<exists>ccs. wcc_main fs fb st f0 l0 [fname] = Some (Ok ccs ()) \<and> P ccs)"
proof -
  let ?n = "length E" and ?vs = "map (wcc_file E) [0..<length E]"
  obtain infile where rd: "wcc_readGraph fs fname = Ok ?vs infile"
    using wcc_readGraph_text [of fs fname E m, OF assms(3-5)] by (auto simp: wcc_file_def)
  have "\<forall>v\<in>set ?vs. \<forall>n\<in>set (wv_neighbors v). 0 \<le> sint n \<and> unat n < length ?vs"
  proof (intro ballI)
    fix v n assume v: "v \<in> set ?vs" and n: "n \<in> set (wv_neighbors v)"
    from v obtain k where k: "k < ?n" "v = wcc_file E k" by auto
    with n wcc_file_simps(2) [OF assms(6) k(1)] obtain j where j: "n = word_of_nat j" "j \<in> set (nbrs E k)" by auto
    then have "j < ?n" using graph_okD(2) [OF assms(6) k(1)] by simp
    then show "0 \<le> sint n \<and> unat n < length ?vs"
      using small_ids(3,4) [OF graph_okD(1) [OF assms(6)]] j(1) by simp
  qed
  then have mu: "make_undirected ?vs = Ok () ?vs" by (rule make_undirected_nothing)
  obtain L where L: "graph_stored E {} L"
      "runs (resident fb wcc_valid (unat wcc_cache_size)) (put_vertices (put (wcc_env fb)) wcc_getId ?vs)
         (Map.empty, {}) (2 * ?n) () (L, {})"
    by (rule load_graph [OF assms(6) _ assms(1,2), of "unat wcc_cache_size"])
      (use assms(7) in \<open>simp_all add: wcc_cache_size_def\<close>)
  have un: "unat (word_of_nat ?n :: u32) = ?n" using assms(6) by (simp add: graph_ok_def unat_of_nat)
  obtain r ccs L' where r: "r \<le> B" "P ccs"
      "runs (resident fb wcc_valid (unat wcc_cache_size)) (weakly_cc (get (wcc_env fb)) (put (wcc_env fb)) (word_of_nat ?n))
         (L, {}) r ccs (L', {})"
    using loop [OF L(1)] by (auto simp: weakly_cc_def [abs_def] un)
  note run = runs_bind [OF L(2), where f = "\<lambda>_. weakly_cc (get (wcc_env fb)) (put (wcc_env fb)) (word_of_nat ?n)", OF r(3)]
  have "wcc_main fs fb st f0 l0 [fname] = Some (Ok ccs ())"
    if R: "mem_R fb wcc_valid st a Map.empty Map.empty (2 * ?n + r)" for st a
  proof -
    obtain cm :: "(memory_backend session, wcc_vertex, nat, nat, lradded, unit) cache_manager" where
        cm: "CacheManager st (LRAddedEvictionPolicy wcc_cache_size) wcc_cache_size False f0 l0 = Inr cm"
      by (simp add: CacheManager_def wcc_cache_size_def)
    then have "\<not> defer_writes cm" by (auto simp: CacheManager_def split: if_splits)
    moreover have "fresh_cache fb wcc_valid wcc_cache_size (2 * ?n + r) a cm"
      using cm R unfolding fresh_cache_def by blast
    ultimately have "resident fb wcc_valid (unat wcc_cache_size) cm (Map.empty, {}) (2 * ?n + r + 0)"
      using fresh_resident [OF assms(1)] by simp
    with run obtain s' where "bindW (put_vertices (put (wcc_env fb)) wcc_getId ?vs cm)
        (\<lambda>_. weakly_cc (get (wcc_env fb)) (put (wcc_env fb)) (word_of_nat ?n)) = Some (Ok ccs s')"
      by (rule runsE)
    then show ?thesis using rd mu cm by (simp add: wcc_main_def)
  qed
  moreover have "2 * ?n + r \<le> 2 * ?n + B" using r(1) by simp
  ultimately show ?thesis using r(2) by blast
qed



text \<open>
  C31. A directed edge is not followed backwards: \<^verbatim>\<open>make_undirected\<close> adds the reverse edge to a
  copy of the vertex. For the graph of two vertices with one edge from the second to the first
  the program prints two components, although the vertices are weakly connected.
\<close>

theorem directed_edge_splits:
  assumes "stack_ok fb wcc_valid" "serializer fb = wcc_serializer" "fs fname = Some (graph_text [[], [0]] 1)"
  shows "\<exists>r \<le> 200. \<forall>st a. mem_R fb wcc_valid st a Map.empty Map.empty r \<longrightarrow>
           wcc_main fs fb st f0 l0 [fname] = Some (Ok [1, 2] ())"
proof -
  let ?E = "[[], [0]] :: nat list list" and ?get = "get (wcc_env fb)" and ?put = "put (wcc_env fb)"
  let ?H = "resident fb wcc_valid (unat wcc_cache_size)"
  have g: "graph_ok ?E" "edges_fit ?E" by (auto simp: graph_ok_def edges_fit_def)
  have e: "graph_edges ?E = {(1, 0)}" by (auto simp: graph_edges_def less_Suc_eq numeral_2_eq_2)
  have vm: "vertex_memory ?get ?put ?H (fits_cache fb wcc_valid (unat wcc_cache_size))"
    by (rule resident_vertex_memory [OF assms(1,2)])
  have "\<exists>r ccs L'. r \<le> 148 \<and> ccs = [1, 2]
      \<and> runs ?H (wcc_loop ?get ?put (length ?E) 0 1 (replicate (length ?E) (- 1))) (L, {}) r ccs (L', {})"
    if L: "graph_stored ?E {} L" for L
  proof -
    obtain m1 L1 S1 ccs1 where 1: "m1 \<le> (4 + 2 * length ?E) * (length ?E + 1) ^ length ?E"
        "graph_stored ?E S1 L1" "bfs_post ?E {} [0] 1 [- 1, - 1] S1 ccs1"
        and run1: "\<forall>k m r l. runs ?H (wcc_loop ?get ?put k (word_of_nat (Suc 0)) (1 + 1) ccs1) (L1, {}) m r l \<longrightarrow>
          runs ?H (wcc_loop ?get ?put (Suc k) (word_of_nat 0) 1 [- 1, - 1]) (L, {}) (2 + (m1 + m)) r l"
      by (rule vertex_memory.wcc_loop_unseen [OF vm g(1) L, of 0 "[- 1, - 1]" 1]) auto
    have "(graph_edges ?E)\<^sup>* `` {0} = {0}" unfolding e by (auto elim: converse_rtranclE)
    then have S1: "S1 = {0}" "length ccs1 = 2" "ccs1 ! 0 = 1" using 1(3) by (auto simp: bfs_post_def)
    obtain m2 L2 S2 ccs2 where 2: "m2 \<le> (4 + 2 * length ?E) * (length ?E + 1) ^ length ?E"
        "bfs_post ?E S1 [1] (1 + 1) ccs1 S2 ccs2"
        and run2: "\<forall>k m r l. runs ?H (wcc_loop ?get ?put k (word_of_nat (Suc 1)) (1 + 1 + 1) ccs2) (L2, {}) m r l \<longrightarrow>
          runs ?H (wcc_loop ?get ?put (Suc k) (word_of_nat 1) (1 + 1) ccs1) (L1, {}) (2 + (m2 + m)) r l"
      by (rule vertex_memory.wcc_loop_unseen [OF vm g(1) 1(2), of 1 ccs1 "1 + 1"]) (use S1 in auto)
    have "length ccs2 = 2" "ccs2 ! 0 = 1" "ccs2 ! 1 = 2" using 2(2) S1 by (auto simp: bfs_post_def)
    then have c: "ccs2 = [1, 2]" by (auto simp: list_eq_iff_nth_eq less_Suc_eq numeral_2_eq_2)
    have "runs ?H (wcc_loop ?get ?put 0 (word_of_nat (Suc 1)) (1 + 1 + 1) ccs2) (L2, {}) 0 [1, 2] (L2, {})"
      by (simp add: runs_def c)
    from run1 [rule_format, OF run2 [rule_format, OF this, unfolded One_nat_def]]
    have "runs ?H (wcc_loop ?get ?put (length ?E) 0 1 (replicate (length ?E) (- 1))) (L, {}) (2 + (m1 + (2 + (m2 + 0)))) [1, 2] (L2, {})"
      by (simp add: numeral_2_eq_2)
    moreover have "2 + (m1 + (2 + (m2 + 0))) \<le> 148" using 1(1) 2(1) by (simp add: numeral_eq_Suc)
    ultimately show ?thesis by blast
  qed
  from wcc_main_runs [of fb fs fname ?E 1 148 "\<lambda>ccs. ccs = [1, 2]" f0 l0, OF assms g(2) _ g(1) _ this]
  obtain r where "r \<le> 2 * length ?E + 148"
      "\<And>st a. mem_R fb wcc_valid st a Map.empty Map.empty r \<longrightarrow> wcc_main fs fb st f0 l0 [fname] = Some (Ok [1, 2] ())"
    by auto
  then show ?thesis by (intro exI [of _ r]) simp
qed

lemma directed_edge_splits_witness:
  "wcc_main (\<lambda>_. Some (graph_text [[], [0]] 1)) vertex_store vertex_session 0 0 [''graph''] = Some (Ok [1, 2] ())"
proof -
  obtain r where "r \<le> 200" "\<forall>st a. mem_R vertex_store wcc_valid st a Map.empty Map.empty r \<longrightarrow>
      wcc_main (\<lambda>_. Some (graph_text [[], [0]] 1)) vertex_store st 0 0 [''graph''] = Some (Ok [1, 2] ())"
    using directed_edge_splits [OF vertex_stack, of "\<lambda>_. Some (graph_text [[], [0]] 1)" "''graph''" 0 0]
    by (auto simp: vertex_store_def)
  then show ?thesis using vertex_ample [of r] by auto
qed

section \<open>A cache that is too small\<close>

text \<open>
  A cache of one entry, which holds the vertex \<open>x\<close> as \<open>u\<close>; the server holds what \<open>V\<close> says.
\<close>

definition lone ::
  "(memory_backend, wcc_vertex) full_blade
    \<Rightarrow> (memory_backend session, wcc_vertex, nat, nat, lradded, 'c) cache_manager
    \<Rightarrow> ObjectID \<Rightarrow> wcc_vertex \<Rightarrow> (ObjectID \<rightharpoonup> wcc_vertex) \<Rightarrow> nat \<Rightarrow> bool" where
  "lone fb s x u V k \<longleftrightarrow>
     (\<exists>a F W. mem_R fb wcc_valid (store s) a F W k \<and> fb_view (deserializer fb) a = V)
     \<and> (\<exists>e. cache s = [(x, e)] \<and> cached e \<and> obj e = u)
     \<and> lra_invar 1 (evp s) \<and> object_deque (evp s) = [x] \<and> cm_max_size s = 1
     \<and> prefetch_policy s = OffPolicy \<and> \<not> defer_writes s"

lemma lone_get:
  assumes "lone fb s x u V k"
  shows "get (fb_cache_env fb d cust) x s = Some (Ok u s)"
proof -
  obtain e where D: "cache s = [(x, e)]" "cached e" "obj e = u" "lra_invar 1 (evp s)" "object_deque (evp s) = [x]"
      "prefetch_policy s = OffPolicy" "\<not> defer_writes s"
    using assms by (auto simp: lone_def)
  then have "lra_process_oid x (evp s) = Ok [] (evp s)" by (intro lra_hit) (simp add: lra_invar_def)
  then show ?thesis using D
    by (simp add: get_def on_policy_def lra_policy_def lra_get_def await_write_def lookup_entry_def
        get_prefetch_def policy_get_def)
qed

lemma lone_get_other:
  assumes st: "stack_ok fb wcc_valid" and l: "lone fb s x u V (Suc k)" and y: "y \<noteq> x" "V y = Some v"
  shows "\<exists>s'. get (fb_cache_env fb d cust) y s = Some (Ok v s') \<and> lone fb s' y v V k"
proof -
  obtain a F W e where D: "mem_R fb wcc_valid (store s) a F W (Suc k)" "fb_view (deserializer fb) a = V"
      "cache s = [(x, e)]" "lra_invar 1 (evp s)" "object_deque (evp s) = [x]" "cm_max_size s = 1"
      "prefetch_policy s = OffPolicy" "\<not> defer_writes s"
    using l by (auto simp: lone_def)
  let ?p = "(evp s)\<lparr>object_set := {y}, object_deque := [y]\<rparr>"
  have "object_set (evp s) = {x}" using D(4,5) by (simp add: lra_invar_def)
  then have p: "lra_process_oid y (evp s) = Ok [x] ?p"
    using lra_process_oid_cases [OF D(4), of y] D(5) y(1) by (auto simp: insert_Diff_if)
  note os_get = object_store.os_get [OF roomy_store.axioms(1) [OF stack_store [OF st]]]
  obtain st' where g: "os_get (fb_ostore fb) y (store s) = Some (Ok v st')" "mem_R fb wcc_valid st' a F W k"
    using os_get [OF D(1), of y] unfolding D(2) y(2) option.case by (elim exE conjE) (rule that)
  let ?e = "(cache_entry_new d)\<lparr>obj := v\<rparr>"
  let ?s = "s\<lparr>evp := ?p, cache := [(y, ?e)], store := st'\<rparr>"
  have "get (fb_cache_env fb d cust) y s = Some (Ok v ?s)"
    using p g(1) D(3,6-8) y(1)
    by (simp add: get_def on_policy_def lra_policy_def lra_get_def evict_def await_write_def lookup_entry_def
        on_store_def set_entry_def get_prefetch_def policy_get_def Let_def)
  moreover have "lone fb ?s y v V k"
    using g(2) D(2,4,6-8) by (auto simp: lone_def cache_entry_new_def lra_invar_def)
  ultimately show ?thesis by blast
qed

lemma lone_put:
  assumes st: "stack_ok fb wcc_valid" and l: "lone fb s x u V (Suc k)" and w: "wcc_valid w" "same_bytes fb v w"
  shows "\<exists>s'. put (fb_cache_env fb d cust) x v s = Some (Ok () s') \<and> lone fb s' x v (V(x \<mapsto> w)) k"
proof -
  obtain a F W e where D: "mem_R fb wcc_valid (store s) a F W (Suc k)" "fb_view (deserializer fb) a = V"
      "cache s = [(x, e)]" "cached e" "lra_invar 1 (evp s)" "object_deque (evp s) = [x]" "cm_max_size s = 1"
      "prefetch_policy s = OffPolicy" "\<not> defer_writes s"
    using l by (auto simp: lone_def)
  have p: "lra_process_oid x (evp s) = Ok [] (evp s)" using D(5,6) by (intro lra_hit) (simp add: lra_invar_def)
  note os_put = object_store.os_put [OF roomy_store.axioms(1) [OF stack_store [OF st]]]
  note os_roomy = roomy_store.os_roomy [OF stack_store [OF st]]
  obtain st' a' where "mem_R fb wcc_valid st' a' F W k" "fb_view (deserializer fb) a' = V(x \<mapsto> w)"
      "os_put (fb_ostore fb) x w (store s) = Some (Ok True st')"
    using os_put [OF D(1) w(1), of x] unfolding D(2) if_P [OF os_roomy [OF D(1) w(1), of x]]
    by (elim exE conjE) (rule that)
  note put = this(3) [folded put_same_bytes [OF w(2), of x]] this(1,2)
  let ?s = "s\<lparr>cache := [(x, e\<lparr>obj := v, dirty := True\<rparr>)], store := st'\<rparr>"
  have "put (fb_cache_env fb d cust) x v s = Some (Ok () ?s)"
    using p put(1) D(3,9)
    by (simp add: put_def on_policy_def lra_policy_def lra_put_def put_entry_def on_store_def set_entry_def)
  moreover have "lone fb ?s x v (V(x \<mapsto> w)) k"
    using put(2,3) D(4-) by (auto simp: lone_def)
  ultimately show ?thesis by blast
qed

text \<open>\<open>k\<close> iterations of the loop of the search; the value is the fringe and the labels.\<close>

fun bfs_rounds ::
  "(ObjectID \<Rightarrow> 's \<Rightarrow> (wcc_vertex, 's) call) \<Rightarrow> (ObjectID \<Rightarrow> wcc_vertex \<Rightarrow> 's \<Rightarrow> (unit, 's) call)
    \<Rightarrow> nat \<Rightarrow> u32 \<Rightarrow> u32 list \<Rightarrow> u32 list \<Rightarrow> 's \<Rightarrow> (u32 list \<times> u32 list, 's) call" where
  "bfs_rounds cm_get cm_put 0 cc fringe ccs s = Some (Ok (fringe, ccs) s)"
| "bfs_rounds cm_get cm_put (Suc k) cc fringe ccs s =
     (case fringe of
        [] \<Rightarrow> Some (Ok ([], ccs) s)
      | ID # fringe1 \<Rightarrow>
          bindW (bfs_visit cm_get cm_put cc ID ccs s) (\<lambda>p.
            bfs_rounds cm_get cm_put k cc (fringe1 @ snd p) (fst p)))"

lemma bfs_rounds_bfs:
  "bfs cm_get cm_put cc fringe ccs s =
     bindW (bfs_rounds cm_get cm_put k cc fringe ccs s) (\<lambda>p. bfs cm_get cm_put cc (fst p) (snd p))"
proof (induction k arbitrary: fringe ccs s)
  case (Suc k)
  show ?case
  proof (cases fringe)
    case Nil
    then show ?thesis by (simp add: bfs_Nil)
  next
    case (Cons ID fringe1)
    have "bfs cm_get cm_put cc fringe ccs s = bindW (bfs_visit cm_get cm_put cc ID ccs s) (\<lambda>p.
        bfs cm_get cm_put cc (fringe1 @ snd p) (fst p))"
      unfolding Cons by (subst bfs.simps) (simp add: bindW_def split: option.split outcome.split)
    also have "\<dots> = bindW (bfs_visit cm_get cm_put cc ID ccs s) (\<lambda>p s1.
        bindW (bfs_rounds cm_get cm_put k cc (fringe1 @ snd p) (fst p) s1) (\<lambda>q. bfs cm_get cm_put cc (fst q) (snd q)))"
      by (rule arg_cong [where f = "bindW (bfs_visit cm_get cm_put cc ID ccs s)"]) (intro ext, rule Suc.IH)
    finally show ?thesis unfolding Cons by (simp add: bindW_assoc)
  qed
qed simp

text \<open>Two vertices joined by an edge, as they are read, and the search moving between them.\<close>

definition pair_vertex :: "nat \<Rightarrow> wcc_vertex" where
  "pair_vertex i = (wcc_Vertex (word_of_nat i))\<lparr>wv_neighbors := [word_of_nat (1 - i)]\<rparr>"

lemma pair_valid: "wcc_valid (pair_vertex i)"
  by (simp add: pair_vertex_def wcc_valid_def wcc_Vertex_def)

lemma pair_visit:
  assumes st: "stack_ok fb wcc_valid" "serializer fb = wcc_serializer" and i: "i < 2" and ccs: "length ccs = 2"
    and V: "V 0 = Some (pair_vertex 0)" "V 1 = Some (pair_vertex 1)"
    and l: "lone fb s (word_of_nat i) (pair_vertex i) V (2 + k)"
  shows "\<exists>s'. bfs_visit (get (wcc_env fb)) (put (wcc_env fb)) cc (word_of_nat i) ccs s =
             Some (Ok (ccs[i := cc], [word_of_nat (1 - i)]) s')
           \<and> lone fb s' (word_of_nat (1 - i)) (pair_vertex (1 - i)) V k"
proof -
  let ?v = "(pair_vertex i)\<lparr>wv_seen := True\<rparr>"
  have sb: "same_bytes fb ?v (pair_vertex i)"
    by (simp add: same_bytes_def st(2) wcc_serializer_def wcc_serialize_def wcc_size_def
        wcc_getId_def wcc_getNeighbors_def wcc_getNeighborsSize_def)
  have Vi: "V (word_of_nat i) = Some (pair_vertex i)" "V (word_of_nat (1 - i)) = Some (pair_vertex (1 - i))"
    using V i by (auto simp: less_2_cases_iff)
  then have Vu: "V(word_of_nat i \<mapsto> pair_vertex i) = V" by (simp add: fun_upd_idem)
  have l': "lone fb s (word_of_nat i) (pair_vertex i) V (Suc (Suc k))" using l by simp
  from lone_put [OF st(1) l' pair_valid sb] obtain s1 where
      1: "put (wcc_env fb) (word_of_nat i) ?v s = Some (Ok () s1)" "lone fb s1 (word_of_nat i) ?v V (Suc k)"
    unfolding Vu by blast
  have ne: "(word_of_nat (1 - i) :: u64) \<noteq> word_of_nat i" using i by (auto simp: less_2_cases_iff)
  from lone_get_other [OF st(1) 1(2) ne Vi(2)] obtain s2 where
      2: "get (wcc_env fb) (word_of_nat (1 - i)) s1 = Some (Ok (pair_vertex (1 - i)) s2)"
        "lone fb s2 (word_of_nat (1 - i)) (pair_vertex (1 - i)) V k"
    by blast
  have sc: "scast (word_of_nat i :: u32) = (word_of_nat i :: u64)"
      "scast (word_of_nat (1 - i) :: u32) = (word_of_nat (1 - i) :: u64)"
      "unat (word_of_nat i :: u32) = i" "0 \<le> sint (word_of_nat i :: u32)"
    using i small_ids [of i] small_ids(1) [of "1 - i"] by simp_all
  have n: "wv_neighbors (pair_vertex i) = [word_of_nat (1 - i)]" "\<not> wv_seen (pair_vertex (1 - i))"
    by (simp_all add: pair_vertex_def wcc_Vertex_def)
  have "bfs_visit (get (wcc_env fb)) (put (wcc_env fb)) cc (word_of_nat i) ccs s =
      Some (Ok (ccs[i := cc], [word_of_nat (1 - i)]) s2)"
    using lone_get [OF l] 1(1) 2(1) i ccs n sc
    by (simp add: bfs_visit_def wcc_getNeighbors_def not_less del: of_nat_diff)
  then show ?thesis using 2(2) by blast
qed

lemma pair_rounds:
  assumes st: "stack_ok fb wcc_valid" "serializer fb = wcc_serializer"
    and V: "V 0 = Some (pair_vertex 0)" "V 1 = Some (pair_vertex 1)"
    and "i < 2" "length ccs = 2" "lone fb s (word_of_nat i) (pair_vertex i) V (2 * m)"
  shows "\<exists>j ccs' s'. j < 2 \<and> bfs_rounds (get (wcc_env fb)) (put (wcc_env fb)) m cc [word_of_nat i] ccs s =
             Some (Ok ([word_of_nat j], ccs') s')"
  using assms(5-)
proof (induction m arbitrary: i ccs s)
  case (Suc m)
  have "lone fb s (word_of_nat i) (pair_vertex i) V (2 + 2 * m)" using Suc.prems(3) by simp
  from pair_visit [OF st Suc.prems(1,2) V this, of cc] obtain s1 where
      1: "bfs_visit (get (wcc_env fb)) (put (wcc_env fb)) cc (word_of_nat i) ccs s =
            Some (Ok (ccs[i := cc], [word_of_nat (1 - i)]) s1)"
        "lone fb s1 (word_of_nat (1 - i)) (pair_vertex (1 - i)) V (2 * m)"
    by blast
  have "1 - i < 2" "length (ccs[i := cc]) = 2" using Suc.prems(2) by simp_all
  from Suc.IH [OF this 1(2)] show ?case using 1(1) by simp
qed auto

lemma fresh_get_lone:
  assumes st: "stack_ok fb wcc_valid" and cm: "fresh_cache fb wcc_valid 1 (Suc k) a cm" "\<not> defer_writes cm"
    and v: "fb_view (deserializer fb) a y = Some v"
  shows "\<exists>s'. get (fb_cache_env fb d cust) y cm = Some (Ok v s') \<and> lone fb s' y v (fb_view (deserializer fb) a) k"
proof -
  obtain ses dw f0 l0 where c: "CacheManager ses (LRAddedEvictionPolicy 1) 1 dw f0 l0 = Inr cm"
      and R: "mem_R fb wcc_valid ses a Map.empty Map.empty (Suc k)"
    using cm(1) by (auto simp: fresh_cache_def)
  then have s: "store cm = ses" "cache cm = []" "cm_max_size cm = 1" "evp cm = LRAddedEvictionPolicy 1"
      "prefetch_policy cm = OffPolicy"
    by (auto simp: CacheManager_def split: if_splits)
  note os_get = object_store.os_get [OF roomy_store.axioms(1) [OF stack_store [OF st]]]
  obtain ses' where g: "mem_R fb wcc_valid ses' a Map.empty Map.empty k" "os_get (fb_ostore fb) y ses = Some (Ok v ses')"
    using os_get [OF R, of y] unfolding v option.case by (elim exE conjE) (rule that)
  let ?p = "(LRAddedEvictionPolicy 1)\<lparr>object_set := {y}, object_deque := [y]\<rparr>"
  let ?s = "cm\<lparr>evp := ?p, cache := [(y, (cache_entry_new d)\<lparr>obj := v\<rparr>)], store := ses'\<rparr>"
  have p: "lra_process_oid y (LRAddedEvictionPolicy 1) = Ok [] ?p"
    by (simp add: lra_process_oid_def LRAddedEvictionPolicy_def)
  have "get (fb_cache_env fb d cust) y cm = Some (Ok v ?s)"
    using p g(2) s cm(2)
    by (simp add: get_def on_policy_def lra_policy_def lra_get_def await_write_def lookup_entry_def
        on_store_def set_entry_def get_prefetch_def policy_get_def Let_def)
  moreover have "lone fb ?s y v (fb_view (deserializer fb) a) k"
    using g(1) s cm(2) by (auto simp: lone_def cache_entry_new_def lra_invar_def LRAddedEvictionPolicy_def)
  ultimately show ?thesis by blast
qed

text \<open>
  C30. A cache smaller than the graph keeps the search from ending: the serializer drops the
  mark that a vertex was seen, so a vertex that was evicted is visited again. With a cache of
  one entry and two vertices joined by an edge the fringe is not empty after any number \<open>m\<close>
  of iterations that the session can serve.
\<close>

theorem small_cache_search_goes_on:
  assumes "stack_ok fb wcc_valid" "serializer fb = wcc_serializer"
    and "fresh_cache fb wcc_valid 1 (1 + 2 * m) a cm" "\<not> defer_writes cm"
    and "fb_view (deserializer fb) a 0 = Some (pair_vertex 0)" "fb_view (deserializer fb) a 1 = Some (pair_vertex 1)"
  shows "\<exists>curr cm1 j ccs cm2. get (wcc_env fb) 0 cm = Some (Ok curr cm1) \<and> \<not> wv_seen curr
           \<and> bfs_rounds (get (wcc_env fb)) (put (wcc_env fb)) m 1 [0] [- 1, - 1] cm1 = Some (Ok ([word_of_nat j], ccs) cm2)
           \<and> bfs (get (wcc_env fb)) (put (wcc_env fb)) 1 [0] [- 1, - 1] cm1 =
               bfs (get (wcc_env fb)) (put (wcc_env fb)) 1 [word_of_nat j] ccs cm2"
proof -
  have "fresh_cache fb wcc_valid 1 (Suc (2 * m)) a cm" using assms(3) by simp
  from fresh_get_lone [OF assms(1) this assms(4,5)] obtain cm1 where
      1: "get (wcc_env fb) 0 cm = Some (Ok (pair_vertex 0) cm1)"
        "lone fb cm1 0 (pair_vertex 0) (fb_view (deserializer fb) a) (2 * m)"
    by blast
  obtain j ccs cm2 where
      2: "bfs_rounds (get (wcc_env fb)) (put (wcc_env fb)) m 1 [word_of_nat 0] [- 1, - 1] cm1 =
            Some (Ok ([word_of_nat j], ccs) cm2)"
    using pair_rounds [OF assms(1,2,5,6), of 0 "[- 1, - 1]" cm1 m 1] 1(2) by auto
  have "\<not> wv_seen (pair_vertex 0)" by (simp add: pair_vertex_def wcc_Vertex_def)
  then show ?thesis
    using 1(1) 2 bfs_rounds_bfs [of "get (wcc_env fb)" "put (wcc_env fb)" 1 "[0]" "[- 1, - 1]" cm1 m]
    by (intro exI conjI) (assumption | simp)+
qed

text \<open>A server that holds the two vertices.\<close>

definition pair_server :: "memory_backend tcp_server" where
  "pair_server = demo_server\<lparr>pool_size := 2 ^ 40, curr_size := 24,
     mem := (MemoryBackend 1)\<lparr>memory_backend.store :=
       [(0, wcc_serialize (pair_vertex 0)), (1, wcc_serialize (pair_vertex 1))]\<rparr>\<rparr>"

definition pair_cache :: "(memory_backend session, wcc_vertex, nat, nat, lradded, unit) cache_manager" where
  "pair_cache = \<lparr>store = new_session pair_server [], cache = [], pending_writes = [], cm_max_size = 1,
     evp = LRAddedEvictionPolicy 1, prefetch_policy = OffPolicy,
     ordered_policy = \<lparr>read_ahead = 5, op_first = 0, op_last = 0\<rparr>, defer_writes = False\<rparr>"

lemma pair_kv:
  "memory_kv (mem pair_server) = [0 \<mapsto> wcc_serialize (pair_vertex 0), 1 \<mapsto> wcc_serialize (pair_vertex 1)]"
  by (auto simp: pair_server_def memory_kv_def fun_eq_iff)

lemma pair_view:
  "fb_view wcc_deserializer (abs_of memory_kv pair_server) 0 = Some (pair_vertex 0)"
  "fb_view wcc_deserializer (abs_of memory_kv pair_server) 1 = Some (pair_vertex 1)"
  using wcc.deser_bytes [OF pair_valid, of 0] wcc.deser_bytes [OF pair_valid, of 1]
  by (simp_all add: fb_view_def pair_kv wcc_serializer_def)

lemma length_pair [simp]: "length (wcc_serialize (pair_vertex i)) = 12"
  by (simp add: wcc_serialize_def wcc_getNeighbors_def pair_vertex_def)

lemma pair_fresh:
  assumes "k \<le> 1000"
  shows "fresh_cache vertex_store wcc_valid 1 k (abs_of memory_kv pair_server) pair_cache"
proof -
  let ?a = "abs_of memory_kv pair_server" and ?s = "new_session pair_server []"
  have inv: "memory_inv (mem pair_server)"
    by (simp add: pair_server_def memory_inv_def fits_memory_def MemoryBackend_def wf_alist_def)
  have "session_view memory_kv memory_inv wire_encode ?s ?a Map.empty k"
    using inv assms by (intro new_session_view) simp_all
  moreover have "stored_ok wcc_serializer wcc_valid ?a"
    using pair_valid by (auto simp: stored_ok_def pair_kv wcc_serializer_def split: if_splits)
  moreover have "total_bytes (ab_kv ?a) = 24"
    using total_bytes_update [of "[0 \<mapsto> wcc_serialize (pair_vertex 0)]" 1 "wcc_serialize (pair_vertex 1)"]
      total_bytes_update [of Map.empty 0 "wcc_serialize (pair_vertex 0)"]
    unfolding abs_of_simps pair_kv by (simp add: total_bytes_def [of Map.empty])
  then have "ample k ?a"
    using assms by (simp add: ample_def acct_ok_def pair_kv) (simp add: pair_server_def demo_server_def)
  ultimately have "mem_R vertex_store wcc_valid ?s ?a Map.empty Map.empty k"
    by (auto simp: fb_ample_R_def fb_R_def promises_def vertex_store_def)
  moreover have "CacheManager ?s (LRAddedEvictionPolicy 1) 1 False 0 0 = Inr pair_cache"
    by (simp add: CacheManager_def pair_cache_def)
  ultimately show ?thesis unfolding fresh_cache_def by blast
qed

lemma small_cache_search_goes_on_witness:
  "\<exists>curr cm1 j ccs cm2. get vertex_env 0 pair_cache = Some (Ok curr cm1)
     \<and> bfs_rounds (get vertex_env) (put vertex_env) 400 1 [0] [- 1, - 1] cm1 = Some (Ok ([word_of_nat j], ccs) cm2)"
proof -
  have "serializer vertex_store = wcc_serializer" "deserializer vertex_store = wcc_deserializer"
    by (simp_all add: vertex_store_def)
  then show ?thesis
    using small_cache_search_goes_on [OF vertex_stack _ pair_fresh [of "1 + 2 * 400"]] pair_view
    by (fastforce simp: pair_cache_def)
qed

end
