(* ===== verification/Blade_Servers.thy ===== *)
theory Blade_Servers
  imports Cirrus_Prelude
begin

text \<open>
  The servers reached over RDMA: the connection handling they share
  (\<^verbatim>\<open>src/src/server/RDMAServer.cpp\<close>), the server that hands out memory of one big pool
  (\<^verbatim>\<open>BladeAllocServer.cpp\<close>), its variant for an object store (\<^verbatim>\<open>BladeObjectStore.cpp\<close>), the server
  that gives every client the whole pool (\<^verbatim>\<open>BladePoolServer.cpp\<close>) and the resource allocator
  (\<^verbatim>\<open>ResourceAllocator.cpp\<close>). The allocator that manages the pool is Boost's
  \<^verbatim>\<open>managed_external_buffer\<close>: a parameter, with its documented behaviour as a hypothesis.
\<close>

section \<open>Connections\<close>

text \<open>
  \<^verbatim>\<open>ConnectionContext\<close>, with the number of receive requests posted on the connection.
\<close>

record conn_context =
  context_id :: int
  cc_recv_msg :: "byte list"
  cc_send_msg :: "byte list"
  cc_registered :: bool
  cc_receives :: nat

text \<open>
  \<^verbatim>\<open>RDMAServer\<close>: \<open>id_ctx\<close> gives the context of a connection identifier as an index of
  \<open>conns\<close>, \<open>sent\<close> is what was sent to whom, \<open>impl\<close> the state of the derived class.
\<close>

record 'x rdma_server =
  rs_port :: int
  rs_timeout :: int
  conns :: "conn_context list"
  id_ctx :: "(nat \<times> nat) list"
  queue_pairs :: "nat list"
  gen_ctx_built :: bool
  id_count :: u64
  sent :: "(nat \<times> byte list) list"
  impl :: 'x

definition RDMAServer :: "int \<Rightarrow> int \<Rightarrow> u64 \<Rightarrow> 'x \<Rightarrow> 'x rdma_server" where
  "RDMAServer port timeout_ms idc x =
     \<lparr>rs_port = port, rs_timeout = timeout_ms, conns = [], id_ctx = [], queue_pairs = [],
      gen_ctx_built = False, id_count = idc, sent = [], impl = x\<rparr>"

text \<open>A failed \<^verbatim>\<open>TEST_NZ\<close> or \<^verbatim>\<open>TEST_Z\<close>, and \<^verbatim>\<open>DIE\<close>, end the process.\<close>

abbreviation die :: exn where "die \<equiv> process_exit (- 1)"

text \<open>What the operations do with the context of an identifier; there may be none.\<close>

definition with_ctx ::
  "nat \<Rightarrow> (conn_context \<Rightarrow> conn_context) \<Rightarrow> 'x rdma_server \<Rightarrow> (unit, 'x rdma_server) outcome" where
  "with_ctx cid f s =
     (case map_of (id_ctx s) cid of
        None \<Rightarrow> Undef
      | Some i \<Rightarrow> if i < length (conns s) then Ok () (s\<lparr>conns := (conns s)[i := f (conns s ! i)]\<rparr>) else Undef)"

definition build_connection :: "nat \<Rightarrow> 'x rdma_server \<Rightarrow> 'x rdma_server" where
  "build_connection cid s = s\<lparr>gen_ctx_built := True, queue_pairs := cid # queue_pairs s\<rparr>"

definition ConnectionContext_new :: "u64 \<Rightarrow> conn_context" where
  "ConnectionContext_new idc =
     \<lparr>context_id = sint (ucast idc :: u32), cc_recv_msg = [], cc_send_msg = [], cc_registered = False,
      cc_receives = 0\<rparr>"

definition create_connection_context :: "nat \<Rightarrow> 'x rdma_server \<Rightarrow> 'x rdma_server" where
  "create_connection_context cid s =
     s\<lparr>conns := conns s @ [(ConnectionContext_new (id_count s))\<lparr>cc_registered := True\<rparr>],
       id_count := id_count s + 1,
       id_ctx := AList.update cid (length (conns s)) (id_ctx s)\<rparr>"

definition post_msg_receive :: "nat \<Rightarrow> 'x rdma_server \<Rightarrow> (unit, 'x rdma_server) outcome" where
  "post_msg_receive cid = with_ctx cid (\<lambda>c. c\<lparr>cc_receives := cc_receives c + 1\<rparr>)"

fun post_receives :: "nat \<Rightarrow> nat \<Rightarrow> 'x rdma_server \<Rightarrow> (unit, 'x rdma_server) outcome" where
  "post_receives cid 0 s = Ok () s"
| "post_receives cid (Suc i) s = bindO (post_msg_receive cid s) (\<lambda>_. post_receives cid i)"

definition handle_established :: "nat \<Rightarrow> 'x rdma_server \<Rightarrow> (unit, 'x rdma_server) outcome" where
  "handle_established cid = post_receives cid 4"

definition handle_disconnected :: "nat \<Rightarrow> 'x rdma_server \<Rightarrow> (unit, 'x rdma_server) outcome" where
  "handle_disconnected cid = with_ctx cid (\<lambda>c. c\<lparr>cc_registered := False\<rparr>)"

datatype cm_event =
    CM_ADDR_RESOLVED nat | CM_ROUTE_RESOLVED nat | CM_CONNECT_REQUEST nat | CM_ESTABLISHED nat
  | CM_DISCONNECTED nat | CM_IGNORED | CM_UNKNOWN

text \<open>
  One turn of \<^verbatim>\<open>loop\<close>. \<open>ok\<close>: the system calls the handler checks succeed.
\<close>

definition cm_step :: "bool \<Rightarrow> cm_event \<Rightarrow> 'x rdma_server \<Rightarrow> (unit, 'x rdma_server) outcome" where
  "cm_step ok e s =
     (case e of
        CM_ADDR_RESOLVED cid \<Rightarrow>
          if ok then Ok () (create_connection_context cid (build_connection cid s)) else Throw die s
      | CM_ROUTE_RESOLVED cid \<Rightarrow> if ok then Ok () s else Throw die s
      | CM_CONNECT_REQUEST cid \<Rightarrow>
          if ok then Ok () (create_connection_context cid (build_connection cid s)) else Throw die s
      | CM_ESTABLISHED cid \<Rightarrow> if ok then handle_established cid s else Throw die s
      | CM_DISCONNECTED cid \<Rightarrow>
          bindO (handle_disconnected cid (s\<lparr>queue_pairs := remove1 cid (queue_pairs s)\<rparr>)) (\<lambda>_ s1.
            Ok () (s1\<lparr>id_ctx := AList.delete cid (id_ctx s1)\<rparr>))
      | CM_IGNORED \<Rightarrow> Ok () s
      | CM_UNKNOWN \<Rightarrow> Throw die s)"

datatype wc_opcode = WC_RECV | WC_SEND | WC_RDMA_READ | WC_RDMA_WRITE | WC_OTHER

text \<open>
  \<^verbatim>\<open>send_message\<close>, after the \<^verbatim>\<open>memcpy\<close> of the message into the send buffer of 10000 bytes.
\<close>

definition send_message :: "bool \<Rightarrow> nat \<Rightarrow> byte list \<Rightarrow> 'x rdma_server \<Rightarrow> (unit, 'x rdma_server) outcome" where
  "send_message ok cid m s =
     (if length m > 10000 then Undef
      else bindO (with_ctx cid (\<lambda>c. c\<lparr>cc_send_msg := m\<rparr>) s) (\<lambda>_ s1.
        if ok then Ok () (s1\<lparr>sent := sent s1 @ [(cid, m)]\<rparr>) else Throw die s1))"

text \<open>
  \<^verbatim>\<open>on_completion\<close>. \<open>pm\<close> is the virtual \<^verbatim>\<open>process_message\<close>: the message to the answer it sends, if any.
\<close>

definition on_completion ::
  "(byte list \<Rightarrow> 'x \<Rightarrow> (byte list option, 'x) outcome) \<Rightarrow> bool \<Rightarrow> nat \<Rightarrow> wc_opcode \<Rightarrow> 'x rdma_server
    \<Rightarrow> (unit, 'x rdma_server) outcome" where
  "on_completion pm ok cid opcode s =
     (case opcode of
        WC_RECV \<Rightarrow>
          (if ok
           then bindO (post_msg_receive cid s) (\<lambda>_ s1.
             case map_of (id_ctx s1) cid of
               None \<Rightarrow> Undef
             | Some i \<Rightarrow>
                 bindO (liftO (\<lambda>x. s1\<lparr>impl := x\<rparr>) (pm (cc_recv_msg (conns s1 ! i)) (impl s1))) (\<lambda>reply s2.
                   case reply of None \<Rightarrow> Ok () s2 | Some m \<Rightarrow> send_message ok cid m s2))
           else Throw die s)
      | WC_SEND \<Rightarrow> Ok () s
      | _ \<Rightarrow> Throw die s)"

text \<open>The network card delivers a message: it uses up a posted receive.\<close>

definition deliver :: "nat \<Rightarrow> byte list \<Rightarrow> 'x rdma_server \<Rightarrow> (unit, 'x rdma_server) outcome" where
  "deliver cid m = with_ctx cid (\<lambda>c. c\<lparr>cc_recv_msg := m, cc_receives := cc_receives c - 1\<rparr>)"

section \<open>The allocation server\<close>

datatype blade_message =
    Alloc u64 | AllocAck u64 u64 u64 | Dealloc u64 | DeallocAck byte | NoBladeData

text \<open>
  The allocator of the pool: creation over an address and a size, allocation (\<open>None\<close>:
  \<^verbatim>\<open>bad_alloc\<close>), and release of an address (\<open>None\<close>: undefined, the address is not allocated).
\<close>

record 'al pool_alloc =
  al_create :: "u64 \<Rightarrow> u64 \<Rightarrow> 'al"
  al_allocate :: "u64 \<Rightarrow> 'al \<Rightarrow> (u64 \<times> 'al) option"
  al_deallocate :: "u64 \<Rightarrow> 'al \<Rightarrow> 'al option"

text \<open>
  The code outside the server: the message encoding, the allocator, and what
  \<^verbatim>\<open>posix_memalign\<close> and \<^verbatim>\<open>ibv_reg_mr\<close> return for the pool, its address and key (\<open>None\<close>: one of them
  fails).
\<close>

record 'al blade_env =
  be_enc :: "blade_message \<Rightarrow> byte list"
  be_dec :: "byte list \<Rightarrow> blade_message option"
  be_alloc :: "'al pool_alloc"
  be_pool :: "(u64 \<times> u64) option"

record 'al blade_server =
  big_pool_rkey :: u64
  big_pool_data :: u64
  big_pool_size :: u64
  mrs_data :: "u64 list"
  id_to_alloc :: "(u64 \<times> u64) list"
  num_allocs :: u64
  mem_allocated :: u64
  allocator :: "'al option"

definition BladeAllocServer :: "u64 \<Rightarrow> 'al blade_server" where
  "BladeAllocServer pool_size =
     \<lparr>big_pool_rkey = 0, big_pool_data = 0, big_pool_size = pool_size, mrs_data = [], id_to_alloc = [],
      num_allocs = 0, mem_allocated = 0, allocator = None\<rparr>"

definition create_pool :: "'al blade_env \<Rightarrow> u64 \<Rightarrow> 'al blade_server \<Rightarrow> (bool, 'al blade_server) outcome" where
  "create_pool env size' s =
     (case be_pool env of
        None \<Rightarrow> Throw die s
      | Some (addr, rkey) \<Rightarrow>
          Ok True (s\<lparr>big_pool_data := addr, big_pool_rkey := rkey,
                     allocator := Some (al_create (be_alloc env) addr size')\<rparr>))"

text \<open>\<^verbatim>\<open>std::call_once(pool_flag_, ...)\<close>: the pool is created with the first message.\<close>

definition ensure_pool :: "'al blade_env \<Rightarrow> 'al blade_server \<Rightarrow> (bool, 'al blade_server) outcome" where
  "ensure_pool env s =
     (if allocator s = None then create_pool env (big_pool_size s) s else Ok True s)"

definition handle_alloc ::
  "'al blade_env \<Rightarrow> u64 \<Rightarrow> 'al blade_server \<Rightarrow> (blade_message, 'al blade_server) outcome" where
  "handle_alloc env size' s =
     (case allocator s of
        None \<Rightarrow> Undef
      | Some al \<Rightarrow>
          (case al_allocate (be_alloc env) size' al of
             None \<Rightarrow> Ok (AllocAck 0 0 (big_pool_rkey s)) s
           | Some (ptr, al') \<Rightarrow>
               Ok (AllocAck (num_allocs s) ptr (big_pool_rkey s))
                 (s\<lparr>allocator := Some al', num_allocs := num_allocs s + 1,
                    id_to_alloc := AList.update (num_allocs s) ptr (id_to_alloc s),
                    mrs_data := List.insert ptr (mrs_data s)\<rparr>)))"

definition handle_dealloc ::
  "'al blade_env \<Rightarrow> u64 \<Rightarrow> 'al blade_server \<Rightarrow> (blade_message, 'al blade_server) outcome" where
  "handle_dealloc env addr s =
     (case allocator s of
        None \<Rightarrow> Undef
      | Some al \<Rightarrow>
          (case al_deallocate (be_alloc env) addr al of
             None \<Rightarrow> Undef
           | Some al' \<Rightarrow> Ok (DeallocAck 1) (s\<lparr>allocator := Some al'\<rparr>)))"

definition blade_handle ::
  "'al blade_env \<Rightarrow> blade_message \<Rightarrow> 'al blade_server \<Rightarrow> (blade_message, 'al blade_server) outcome" where
  "blade_handle env msg s =
     bindO (ensure_pool env s) (\<lambda>_ s1.
       case msg of
         Alloc n \<Rightarrow> handle_alloc env n s1
       | Dealloc a \<Rightarrow> handle_dealloc env a s1
       | _ \<Rightarrow> Throw die s1)"

text \<open>\<^verbatim>\<open>process_message\<close>: the answer is encoded and sent.\<close>

definition blade_process ::
  "'al blade_env \<Rightarrow> byte list \<Rightarrow> 'al blade_server \<Rightarrow> (byte list option, 'al blade_server) outcome" where
  "blade_process env m s =
     (case be_dec env m of
        None \<Rightarrow> Undef
      | Some msg \<Rightarrow> bindO (blade_handle env msg s) (\<lambda>reply s1. Ok (Some (be_enc env reply)) s1))"

section \<open>The object store server\<close>

datatype bos_message =
    BosAlloc u64 | BosAllocAck u64 u64 u64 | BosDealloc u64 | BosDeallocAck byte
  | KeepAlive u64 | KeepAliveAck u64 | Sub u64 | SubAck u64 | Flush u64 | FlushAck u64
  | Lock u64 | LockAck u64 | NoBosData

text \<open>The handlers of \<^verbatim>\<open>BladeObjectStore::process_message\<close>; here \<^verbatim>\<open>bad_alloc\<close> is not caught.\<close>

definition bos_handle ::
  "'al blade_env \<Rightarrow> bos_message \<Rightarrow> 'al blade_server \<Rightarrow> (bos_message, 'al blade_server) outcome" where
  "bos_handle env msg s =
     bindO (ensure_pool env s) (\<lambda>_ s1.
       case msg of
         BosAlloc n \<Rightarrow>
           (case allocator s1 of
              None \<Rightarrow> Undef
            | Some al \<Rightarrow>
                (case al_allocate (be_alloc env) n al of
                   None \<Rightarrow> Throw bad_alloc s1
                 | Some (ptr, al') \<Rightarrow>
                     Ok (BosAllocAck (num_allocs s1) ptr (big_pool_rkey s1))
                       (s1\<lparr>allocator := Some al', num_allocs := num_allocs s1 + 1,
                           id_to_alloc := AList.update (num_allocs s1) ptr (id_to_alloc s1),
                           mrs_data := List.insert ptr (mrs_data s1)\<rparr>)))
       | BosDealloc a \<Rightarrow>
           (case allocator s1 of
              None \<Rightarrow> Undef
            | Some al \<Rightarrow>
                (case al_deallocate (be_alloc env) a al of
                   None \<Rightarrow> Undef
                 | Some al' \<Rightarrow> Ok (BosDeallocAck 1) (s1\<lparr>allocator := Some al'\<rparr>)))
       | KeepAlive r \<Rightarrow> Ok (KeepAliveAck r) s1
       | Sub oid \<Rightarrow> Ok (SubAck oid) s1
       | Flush oid \<Rightarrow> Ok (FlushAck oid) s1
       | Lock oid \<Rightarrow> Ok (LockAck oid) s1
       | _ \<Rightarrow> Throw die s1)"

section \<open>The pool server\<close>

record pool_server =
  mr_data :: "u64 list"
  mr_pool :: "u64 list"
  ps_pool_size :: u64
  pool_created :: bool

definition BladePoolServer :: "u64 \<Rightarrow> pool_server" where
  "BladePoolServer pool_size = \<lparr>mr_data = [], mr_pool = [], ps_pool_size = pool_size, pool_created = False\<rparr>"

definition pool_create :: "(u64 \<times> u64) option \<Rightarrow> pool_server \<Rightarrow> (u32, pool_server) outcome" where
  "pool_create sys s =
     (case sys of
        None \<Rightarrow> Throw die s
      | Some (addr, rkey) \<Rightarrow>
          Ok 0 (s\<lparr>mr_data := mr_data s @ [addr], mr_pool := mr_pool s @ [rkey], pool_created := True\<rparr>))"

definition pool_handle ::
  "(u64 \<times> u64) option \<Rightarrow> blade_message \<Rightarrow> pool_server \<Rightarrow> (blade_message, pool_server) outcome" where
  "pool_handle sys msg s =
     bindO (if pool_created s then Ok 0 s else pool_create sys s) (\<lambda>_ s1.
       case msg of
         Alloc n \<Rightarrow> Ok (AllocAck 42 (mr_data s1 ! 0) (mr_pool s1 ! 0)) s1
       | _ \<Rightarrow> Throw die s1)"

section \<open>The resource allocator\<close>

text \<open>\<^verbatim>\<open>src/src/authentication/\<close>: the key of a token is zeroed when it is constructed.\<close>

record auth_token =
  gkey :: "byte list"
  token_allow :: byte

definition GrantingKey_new :: "byte list" where
  "GrantingKey_new = replicate 10 0"

definition AuthenticationToken :: "bool \<Rightarrow> auth_token" where
  "AuthenticationToken allow' = \<lparr>gkey = GrantingKey_new, token_allow = (if allow' then 1 else 0)\<rparr>"

definition create_default_allow_token :: auth_token where
  "create_default_allow_token = AuthenticationToken True"

definition create_default_deny_token :: auth_token where
  "create_default_deny_token = AuthenticationToken False"

text \<open>\<^verbatim>\<open>AllocatorMessage\<close>: a type and the member of the union it selects.\<close>

datatype allocator_data =
    AUTH1 u64 | AUTH_ACK1 byte u64 | AUTH2 u64 | AUTH_ACK2 byte auth_token
  | STATS | STATS_ACK u64 | ALLOC | ALLOC_ACK

record allocator_message =
  am_id :: int
  am_data :: allocator_data

text \<open>\<^verbatim>\<open>AllocatorMessageGenerator\<close>: messages are written over what the buffer held; the id is kept.\<close>

definition gen_auth1 :: "u64 \<Rightarrow> allocator_message \<Rightarrow> allocator_message" where
  "gen_auth1 app_id m = m\<lparr>am_data := AUTH1 app_id\<rparr>"

definition gen_auth_ack1 :: "byte \<Rightarrow> u64 \<Rightarrow> allocator_message \<Rightarrow> allocator_message" where
  "gen_auth_ack1 allow' challenge m = m\<lparr>am_data := AUTH_ACK1 allow' challenge\<rparr>"

definition gen_auth2 :: "u64 \<Rightarrow> allocator_message \<Rightarrow> allocator_message" where
  "gen_auth2 response m = m\<lparr>am_data := AUTH2 response\<rparr>"

definition gen_auth_ack2 :: "byte \<Rightarrow> auth_token \<Rightarrow> allocator_message \<Rightarrow> allocator_message" where
  "gen_auth_ack2 allow' tok m = m\<lparr>am_data := AUTH_ACK2 allow' tok\<rparr>"

definition gen_stats :: "allocator_message \<Rightarrow> allocator_message" where
  "gen_stats m = m\<lparr>am_data := STATS\<rparr>"

definition gen_stats_ack :: "u64 \<Rightarrow> allocator_message \<Rightarrow> allocator_message" where
  "gen_stats_ack mem_total m = m\<lparr>am_data := STATS_ACK mem_total\<rparr>"

definition gen_alloc :: "allocator_message \<Rightarrow> allocator_message" where
  "gen_alloc m = m\<lparr>am_data := ALLOC\<rparr>"

definition gen_alloc_ack :: "allocator_message \<Rightarrow> allocator_message" where
  "gen_alloc_ack m = m\<lparr>am_data := ALLOC_ACK\<rparr>"

text \<open>\<open>ra_send\<close> is the send buffer, over which the answers are generated.\<close>

record resource_allocator =
  total_mem_allocated :: u64
  ra_send :: allocator_message

definition ResourceAllocator :: "allocator_message \<Rightarrow> resource_allocator" where
  "ResourceAllocator buf = \<lparr>total_mem_allocated = 0, ra_send = buf\<rparr>"

definition send_challenge :: "resource_allocator \<Rightarrow> (allocator_message option, resource_allocator) outcome" where
  "send_challenge s = (let m = gen_auth_ack1 1 42 (ra_send s) in Ok (Some m) (s\<lparr>ra_send := m\<rparr>))"

definition send_stats :: "resource_allocator \<Rightarrow> (allocator_message option, resource_allocator) outcome" where
  "send_stats s =
     (let m = gen_stats_ack (total_mem_allocated s) (ra_send s) in Ok (Some m) (s\<lparr>ra_send := m\<rparr>))"

text \<open>The case of \<^verbatim>\<open>ALLOC\<close> falls through to the default.\<close>

definition ra_process ::
  "allocator_message \<Rightarrow> resource_allocator \<Rightarrow> (allocator_message option, resource_allocator) outcome" where
  "ra_process msg s =
     (case am_data msg of
        AUTH1 app_id \<Rightarrow> send_challenge s
      | AUTH2 response \<Rightarrow> Ok None s
      | STATS \<Rightarrow> send_stats s
      | _ \<Rightarrow> Throw die s)"

section \<open>Receives stay posted\<close>

text \<open>
  The number of receive requests posted on a connection. A message uses one up, and its
  completion posts one again before the message is processed.
\<close>

definition receives :: "nat \<Rightarrow> 'x rdma_server \<Rightarrow> nat option" where
  "receives cid s =
     (case map_of (id_ctx s) cid of
        None \<Rightarrow> None
      | Some i \<Rightarrow> if i < length (conns s) then Some (cc_receives (conns s ! i)) else None)"

definition ctx_inv :: "'x rdma_server \<Rightarrow> bool" where
  "ctx_inv s \<longleftrightarrow> wf_alist (id_ctx s) \<and> (\<forall>cid i. map_of (id_ctx s) cid = Some i \<longrightarrow> i < length (conns s))
     \<and> (\<forall>cid cid' i. map_of (id_ctx s) cid = Some i \<longrightarrow> map_of (id_ctx s) cid' = Some i \<longrightarrow> cid = cid')"

datatype rdma_step = Event cm_event | Message nat "byte list"

text \<open>
  One step of the server: an event of the connection manager, or a message that arrives
  and whose completion is handled.
\<close>

definition server_step ::
  "(byte list \<Rightarrow> 'x \<Rightarrow> (byte list option, 'x) outcome) \<Rightarrow> rdma_step \<Rightarrow> 'x rdma_server
    \<Rightarrow> (unit, 'x rdma_server) outcome" where
  "server_step pm st s =
     (case st of
        Event e \<Rightarrow> cm_step True e s
      | Message cid m \<Rightarrow>
          if receives cid s = Some 0 then Throw die s
          else bindO (deliver cid m s) (\<lambda>_. on_completion pm True cid WC_RECV))"

fun server_steps ::
  "(byte list \<Rightarrow> 'x \<Rightarrow> (byte list option, 'x) outcome) \<Rightarrow> rdma_step list \<Rightarrow> 'x rdma_server
    \<Rightarrow> (unit, 'x rdma_server) outcome" where
  "server_steps pm [] s = Ok () s"
| "server_steps pm (st # sts) s = bindO (server_step pm st s) (\<lambda>_. server_steps pm sts)"

lemma with_ctx_Ok:
  "with_ctx cid f s = Ok () s' \<longleftrightarrow>
     (\<exists>i. map_of (id_ctx s) cid = Some i \<and> i < length (conns s)
        \<and> s' = s\<lparr>conns := (conns s)[i := f (conns s ! i)]\<rparr>)"
  by (auto simp: with_ctx_def split: option.splits if_splits)

lemma with_ctx_inv:
  assumes "ctx_inv s" "with_ctx cid f s = Ok () s'"
  shows "ctx_inv s'" "receives cid s' = map_option (\<lambda>_. cc_receives (f (conns s ! the (map_of (id_ctx s) cid)))) (receives cid s)"
    "cid' \<noteq> cid \<Longrightarrow> receives cid' s' = receives cid' s"
proof -
  obtain i where i: "map_of (id_ctx s) cid = Some i" "i < length (conns s)"
      "s' = s\<lparr>conns := (conns s)[i := f (conns s ! i)]\<rparr>"
    using assms(2) by (auto simp: with_ctx_Ok)
  show "ctx_inv s'" using assms(1) i by (simp add: ctx_inv_def)
  show "receives cid s' = map_option (\<lambda>_. cc_receives (f (conns s ! the (map_of (id_ctx s) cid)))) (receives cid s)"
    using i by (simp add: receives_def)
  show "receives cid' s' = receives cid' s" if "cid' \<noteq> cid"
  proof (cases "map_of (id_ctx s) cid'")
    case (Some j)
    then have "j \<noteq> i" using assms(1) i(1) that by (auto simp: ctx_inv_def)
    then show ?thesis using Some i by (simp add: receives_def)
  qed (simp add: receives_def i)
qed

lemma post_receive_inv:
  assumes "ctx_inv s" "post_msg_receive cid s = Ok () s'"
  shows "ctx_inv s'" "receives cid s' = map_option Suc (receives cid s)"
    "cid' \<noteq> cid \<Longrightarrow> receives cid' s' = receives cid' s"
proof -
  note w = with_ctx_inv [OF assms(1) assms(2) [unfolded post_msg_receive_def]]
  show "ctx_inv s'" "cid' \<noteq> cid \<Longrightarrow> receives cid' s' = receives cid' s" using w(1,3) by simp_all
  show "receives cid s' = map_option Suc (receives cid s)"
    unfolding w(2) by (auto simp: receives_def split: option.splits)
qed

lemma post_receives_inv:
  assumes "ctx_inv s" "post_receives cid n s = Ok () s'"
  shows "ctx_inv s' \<and> receives cid s' = map_option ((+) n) (receives cid s)
    \<and> (\<forall>cid'. cid' \<noteq> cid \<longrightarrow> receives cid' s' = receives cid' s)"
  using assms
proof (induction n arbitrary: s)
  case 0
  then show ?case by (cases "receives cid s") auto
next
  case (Suc n)
  then obtain s1 where "post_msg_receive cid s = Ok () s1" "post_receives cid n s1 = Ok () s'"
    by (auto simp: bindO_eq_Ok)
  then show ?case using Suc.IH [of s1] post_receive_inv [OF Suc.prems(1)]
    by (cases "receives cid s") auto
qed

lemma create_context_inv:
  assumes "ctx_inv s"
  shows "ctx_inv (create_connection_context cid s)"
    and "receives cid (create_connection_context cid s) = Some 0"
    and "cid' \<noteq> cid \<Longrightarrow> receives cid' (create_connection_context cid s) = receives cid' s"
proof -
  let ?s = "create_connection_context cid s"
  have m: "map_of (id_ctx ?s) = (map_of (id_ctx s))(cid \<mapsto> length (conns s))"
    by (simp add: create_connection_context_def update_conv')
  have lt: "i < length (conns s)" if "map_of (id_ctx s) c = Some i" for c i
    using assms that by (auto simp: ctx_inv_def)
  have inj: "c = c'" if "map_of (id_ctx ?s) c = Some i" "map_of (id_ctx ?s) c' = Some i" for c c' i
    using that assms lt [of c] lt [of c'] unfolding m ctx_inv_def by (auto split: if_splits)
  have "i < length (conns ?s)" if "map_of (id_ctx ?s) c = Some i" for c i
    using that lt [of c i] unfolding m
    by (auto simp: create_connection_context_def less_Suc_eq split: if_splits)
  moreover have "wf_alist (id_ctx ?s)" using assms by (simp add: ctx_inv_def create_connection_context_def)
  ultimately show "ctx_inv ?s" unfolding ctx_inv_def using inj by blast
  show "receives cid ?s = Some 0"
    by (simp add: receives_def m) (simp add: create_connection_context_def ConnectionContext_new_def)
  show "receives cid' ?s = receives cid' s" if "cid' \<noteq> cid"
  proof (cases "map_of (id_ctx s) cid'")
    case (Some i)
    with lt [OF Some] that show ?thesis
      by (simp add: receives_def m) (simp add: create_connection_context_def nth_append)
  qed (use that in \<open>simp add: receives_def m\<close>)
qed

lemma same_ctx:
  assumes "id_ctx s' = id_ctx s" "conns s' = conns s"
  shows "ctx_inv s' \<longleftrightarrow> ctx_inv s" "receives cid s' = receives cid s"
  using assms by (simp_all add: ctx_inv_def receives_def split: option.split)

lemma handle_established_unfold:
  "handle_established cid = post_receives cid (Suc (Suc (Suc (Suc 0))))"
  by (simp add: handle_established_def numeral_eq_Suc)

text \<open>A step that makes a new context for an identifier or drops the identifier.\<close>

definition renews :: "nat \<Rightarrow> rdma_step \<Rightarrow> bool" where
  "renews cid st \<longleftrightarrow>
     st \<in> {Event (CM_ADDR_RESOLVED cid), Event (CM_CONNECT_REQUEST cid), Event (CM_DISCONNECTED cid)}"

definition keeps_receives :: "nat \<Rightarrow> 'x rdma_server \<Rightarrow> 'x rdma_server \<Rightarrow> bool" where
  "keeps_receives cid s s' \<longleftrightarrow> (\<forall>n. receives cid s = Some n \<longrightarrow> (\<exists>n'\<ge>n. receives cid s' = Some n'))"

lemma cm_step_inv:
  assumes "ctx_inv s" "cm_step True e s = Ok () s'"
  shows "ctx_inv s' \<and> (\<not> renews cid (Event e) \<longrightarrow> keeps_receives cid s s')"
proof (cases e)
  case (CM_ADDR_RESOLVED c)
  have "ctx_inv (build_connection c s)" "receives cid (build_connection c s) = receives cid s"
    using assms(1) same_ctx [of "build_connection c s" s] by (simp_all add: build_connection_def)
  then show ?thesis using assms(2) CM_ADDR_RESOLVED create_context_inv [of "build_connection c s"]
    by (cases "c = cid") (auto simp: cm_step_def renews_def keeps_receives_def)
next
  case (CM_CONNECT_REQUEST c)
  have "ctx_inv (build_connection c s)" "receives cid (build_connection c s) = receives cid s"
    using assms(1) same_ctx [of "build_connection c s" s] by (simp_all add: build_connection_def)
  then show ?thesis using assms(2) CM_CONNECT_REQUEST create_context_inv [of "build_connection c s"]
    by (cases "c = cid") (auto simp: cm_step_def renews_def keeps_receives_def)
next
  case (CM_ESTABLISHED c)
  then show ?thesis using assms post_receives_inv [OF assms(1), of c 4 s']
    by (cases "c = cid") (auto simp: cm_step_def handle_established_def keeps_receives_def)
next
  case (CM_DISCONNECTED c)
  let ?s0 = "s\<lparr>queue_pairs := remove1 c (queue_pairs s)\<rparr>"
  obtain s1 where 1: "with_ctx c (\<lambda>x. x\<lparr>cc_registered := False\<rparr>) ?s0 = Ok () s1"
      "s' = s1\<lparr>id_ctx := AList.delete c (id_ctx s1)\<rparr>"
    using assms(2) CM_DISCONNECTED by (auto simp: cm_step_def handle_disconnected_def bindO_eq_Ok)
  have 0: "ctx_inv ?s0" "receives cid ?s0 = receives cid s"
    using assms(1) same_ctx [of ?s0 s] by simp_all
  note w = with_ctx_inv [OF 0(1) 1(1)]
  have m: "map_of (id_ctx s') = (map_of (id_ctx s1))(c := None)" using 1(2) by (simp add: delete_conv')
  have "ctx_inv s'" using w(1) unfolding ctx_inv_def m by (auto simp: 1(2) split: if_splits)
  moreover have "receives cid s' = receives cid s" if "c \<noteq> cid"
  proof -
    have "receives cid s' = receives cid s1" using that 1(2) m by (simp add: receives_def split: option.split)
    then show ?thesis using w(3) [of cid] 0(2) that by simp
  qed
  ultimately show ?thesis using CM_DISCONNECTED by (auto simp: renews_def keeps_receives_def)
qed (use assms in \<open>auto simp: cm_step_def keeps_receives_def\<close>)

lemma message_inv:
  assumes "ctx_inv s" "server_step pm (Message c m) s = Ok () s'"
  shows "ctx_inv s' \<and> keeps_receives cid s s'"
proof -
  obtain s1 where 1: "with_ctx c (\<lambda>x. x\<lparr>cc_recv_msg := m, cc_receives := cc_receives x - 1\<rparr>) s = Ok () s1"
      "on_completion pm True c WC_RECV s1 = Ok () s'" "receives c s \<noteq> Some 0"
    using assms(2) by (auto simp: server_step_def deliver_def bindO_eq_Ok split: if_splits)
  obtain s2 i where 2: "post_msg_receive c s1 = Ok () s2" "map_of (id_ctx s2) c = Some i"
      "bindO (liftO (\<lambda>x. s2\<lparr>impl := x\<rparr>) (pm (cc_recv_msg (conns s2 ! i)) (impl s2))) (\<lambda>reply s3.
         case reply of None \<Rightarrow> Ok () s3 | Some r \<Rightarrow> send_message True c r s3) = Ok () s'"
    using 1(2) by (auto simp: on_completion_def bindO_eq_Ok split: option.splits)
  note w1 = with_ctx_inv [OF assms(1) 1(1)]
  note w2 = post_receive_inv [OF w1(1) 2(1)]
  obtain reply x where 3: "(case reply of None \<Rightarrow> Ok () (s2\<lparr>impl := x\<rparr>)
      | Some r \<Rightarrow> send_message True c r (s2\<lparr>impl := x\<rparr>)) = Ok () s'"
    using 2(3) by (auto simp: bindO_eq_Ok liftO_eq_Ok)
  have x: "ctx_inv (s2\<lparr>impl := x\<rparr>)" "receives d (s2\<lparr>impl := x\<rparr>) = receives d s2" for d
    using w2(1) same_ctx [of "s2\<lparr>impl := x\<rparr>" s2] by simp_all
  have "ctx_inv s' \<and> (\<forall>d. receives d s' = receives d s2)"
  proof (cases reply)
    case None
    then show ?thesis using 3 x by auto
  next
    case (Some r)
    then obtain s3 where s3: "with_ctx c (\<lambda>y. y\<lparr>cc_send_msg := r\<rparr>) (s2\<lparr>impl := x\<rparr>) = Ok () s3"
        "s' = s3\<lparr>sent := sent s3 @ [(c, r)]\<rparr>"
      using 3 by (auto simp: send_message_def bindO_eq_Ok split: if_splits)
    note w3 = with_ctx_inv [OF x(1) s3(1)]
    have "receives d s3 = receives d s2" for d
      using w3(2) w3(3) [of d] x(2) by (cases "d = c") (auto simp: receives_def split: option.splits if_splits)
    then show ?thesis using w3(1) s3(2) same_ctx [of s' s3] by simp
  qed
  moreover have "keeps_receives cid s s2"
  proof (cases "cid = c")
    case True
    have "receives c s2 = map_option (\<lambda>_. Suc (cc_receives (conns s ! the (map_of (id_ctx s) c)) - 1)) (receives c s)"
      using w2(2) w1(2) by (simp add: option.map_comp o_def)
    then show ?thesis using True 1(3) by (auto simp: keeps_receives_def receives_def split: option.splits if_splits)
  next
    case False
    then show ?thesis using w1(3) [of cid] w2(3) [of cid] by (simp add: keeps_receives_def)
  qed
  ultimately show ?thesis by (simp add: keeps_receives_def)
qed

lemma server_steps_inv:
  assumes "ctx_inv s" "server_steps pm sts s = Ok () s'"
  shows "ctx_inv s' \<and> ((\<forall>st\<in>set sts. \<not> renews cid st) \<longrightarrow> keeps_receives cid s s')"
  using assms
proof (induction sts arbitrary: s)
  case Nil
  then show ?case by (auto simp: keeps_receives_def)
next
  case (Cons st sts)
  then obtain s1 where 1: "server_step pm st s = Ok () s1" "server_steps pm sts s1 = Ok () s'"
    by (auto simp: bindO_eq_Ok)
  have "ctx_inv s1 \<and> (\<not> renews cid st \<longrightarrow> keeps_receives cid s s1)"
    using cm_step_inv [OF Cons.prems(1)] message_inv [OF Cons.prems(1)] 1(1)
    by (cases st) (auto simp: server_step_def)
  moreover have "keeps_receives cid s s'" if "keeps_receives cid s s1" "keeps_receives cid s1 s'"
    using that unfolding keeps_receives_def by (meson le_trans)
  ultimately show ?case using Cons.IH [of s1] 1(2) by auto
qed

lemma server_steps_append:
  "server_steps pm (xs @ ys) s = bindO (server_steps pm xs s) (\<lambda>_. server_steps pm ys)"
  by (induction xs arbitrary: s) (auto simp: bindO_def split: outcome.split)



section \<open>Allocations are kept apart\<close>

definition span :: "u64 \<Rightarrow> nat \<Rightarrow> nat set" where
  "span a n = {unat a..<unat a + n}"

text \<open>
  What is documented of the allocator. \<open>blocks\<close> are its live allocations with their sizes,
  \<open>pool\<close> the addresses it manages: an allocation is inside the pool and disjoint from the live
  ones, and exactly the live ones can be released.
\<close>

definition allocator_documented ::
  "'al pool_alloc \<Rightarrow> ('al \<Rightarrow> (u64 \<rightharpoonup> nat)) \<Rightarrow> ('al \<Rightarrow> nat set) \<Rightarrow> bool" where
  "allocator_documented al blocks pool \<longleftrightarrow>
     (\<forall>base sz. blocks (al_create al base sz) = Map.empty \<and> pool (al_create al base sz) = span base (unat sz)) \<and>
     (\<forall>n a p a'. al_allocate al n a = Some (p, a') \<longrightarrow>
        p \<noteq> 0 \<and> blocks a p = None \<and> blocks a' = (blocks a)(p \<mapsto> unat n) \<and> pool a' = pool a
        \<and> span p (unat n) \<subseteq> pool a \<and> (\<forall>q m. blocks a q = Some m \<longrightarrow> span p (unat n) \<inter> span q m = {})) \<and>
     (\<forall>p a. blocks a p \<noteq> None \<longrightarrow> al_deallocate al p a \<noteq> None) \<and>
     (\<forall>p a a'. al_deallocate al p a = Some a' \<longrightarrow>
        blocks a p \<noteq> None \<and> blocks a' = (blocks a)(p := None) \<and> pool a' = pool a)"

lemma documented_create:
  "allocator_documented al blocks pool \<Longrightarrow>
     blocks (al_create al base sz) = Map.empty \<and> pool (al_create al base sz) = span base (unat sz)"
  by (simp add: allocator_documented_def)

lemma documented_allocate:
  assumes "allocator_documented al blocks pool" "al_allocate al n a = Some (p, a')"
  shows "p \<noteq> 0" "blocks a p = None" "blocks a' = (blocks a)(p \<mapsto> unat n)" "pool a' = pool a"
    "span p (unat n) \<subseteq> pool a" "blocks a q = Some m \<Longrightarrow> span p (unat n) \<inter> span q m = {}"
  using assms unfolding allocator_documented_def by blast+

lemma documented_deallocate:
  assumes "allocator_documented al blocks pool"
  shows "blocks a p \<noteq> None \<Longrightarrow> \<exists>a'. al_deallocate al p a = Some a'"
    "al_deallocate al p a = Some a' \<Longrightarrow> blocks a p \<noteq> None \<and> blocks a' = (blocks a)(p := None) \<and> pool a' = pool a"
  using assms unfolding allocator_documented_def by blast+

text \<open>Live allocations that do not overlap and stay inside a region.\<close>

definition apart :: "(u64 \<rightharpoonup> nat) \<Rightarrow> nat set \<Rightarrow> bool" where
  "apart L A \<longleftrightarrow> (\<forall>p n. L p = Some n \<longrightarrow> span p n \<subseteq> A)
     \<and> (\<forall>p q n m. L p = Some n \<longrightarrow> L q = Some m \<longrightarrow> p \<noteq> q \<longrightarrow> span p n \<inter> span q m = {})"

lemma apart_upd:
  assumes "apart L A" "span p n \<subseteq> A" "\<And>q m. L q = Some m \<Longrightarrow> span p n \<inter> span q m = {}"
  shows "apart (L(p \<mapsto> n)) A"
  using assms unfolding apart_def by (auto split: if_splits)

lemma apart_drop: "apart L A \<Longrightarrow> apart (L(p := None)) A"
  unfolding apart_def by auto

text \<open>The transcript of a server: what the clients have been given and have not returned.\<close>

fun live_step :: "blade_message \<times> blade_message \<Rightarrow> (u64 \<rightharpoonup> nat) \<Rightarrow> (u64 \<rightharpoonup> nat)" where
  "live_step (Alloc n, AllocAck i p k) L = (if p = 0 then L else L(p \<mapsto> unat n))"
| "live_step (Dealloc a, DeallocAck r) L = L(a := None)"
| "live_step (m, r) L = L"

fun blade_run ::
  "'al blade_env \<Rightarrow> blade_message list \<Rightarrow> 'al blade_server \<Rightarrow> (blade_message list, 'al blade_server) outcome" where
  "blade_run env [] s = Ok [] s"
| "blade_run env (m # ms) s =
     bindO (blade_handle env m s) (\<lambda>r s1. bindO (blade_run env ms s1) (\<lambda>rs s2. Ok (r # rs) s2))"

text \<open>The state of the server against the transcript.\<close>

definition blade_inv ::
  "'al blade_env \<Rightarrow> ('al \<Rightarrow> (u64 \<rightharpoonup> nat)) \<Rightarrow> ('al \<Rightarrow> nat set) \<Rightarrow> u64 \<Rightarrow> 'al blade_server \<Rightarrow> (u64 \<rightharpoonup> nat) \<Rightarrow> bool" where
  "blade_inv env blocks pool size' s L \<longleftrightarrow> big_pool_size s = size' \<and>
     (case allocator s of
        None \<Rightarrow> L = Map.empty
      | Some a \<Rightarrow> (\<exists>base key. be_pool env = Some (base, key) \<and> big_pool_rkey s = key
          \<and> blocks a = L \<and> pool a = span base (unat size') \<and> apart L (pool a)))"

lemma blade_handle_inv:
  assumes doc: "allocator_documented (be_alloc env) blocks pool"
    and inv: "blade_inv env blocks pool size' s L" and h: "blade_handle env m s = Ok r s'"
  shows "blade_inv env blocks pool size' s' (live_step (m, r) L)"
proof -
  obtain b s1 where s1: "ensure_pool env s = Ok b s1"
    using h by (auto simp: blade_handle_def bindO_eq_Ok)
  then obtain a base key where a: "allocator s1 = Some a" "be_pool env = Some (base, key)" "big_pool_rkey s1 = key"
      "blocks a = L" "pool a = span base (unat size')" "apart L (pool a)" "big_pool_size s1 = size'"
    using inv documented_create [OF doc]
    by (auto simp: ensure_pool_def create_pool_def blade_inv_def apart_def split: option.splits if_splits)
  have "handle_alloc env n s1 = Ok r s' \<Longrightarrow> m = Alloc n \<Longrightarrow> ?thesis" for n
    using a documented_allocate [OF doc, of n a] apart_upd [OF a(6)]
    by (auto simp: handle_alloc_def blade_inv_def split: option.splits prod.splits)
  moreover have "handle_dealloc env p s1 = Ok r s' \<Longrightarrow> m = Dealloc p \<Longrightarrow> ?thesis" for p
    using a documented_deallocate [OF doc, where a = a and p = p] apart_drop [OF a(6)]
    by (auto simp: handle_dealloc_def blade_inv_def split: option.splits)
  ultimately show ?thesis using h s1 by (auto simp: blade_handle_def split: blade_message.splits)
qed

lemma blade_run_inv:
  assumes "allocator_documented (be_alloc env) blocks pool"
    and "blade_inv env blocks pool size' s L" "blade_run env ms s = Ok rs s'"
  shows "blade_inv env blocks pool size' s' (fold live_step (zip ms rs) L)"
  using assms(2,3)
proof (induction ms arbitrary: s L rs)
  case (Cons m ms)
  then obtain r s1 rs' where "blade_handle env m s = Ok r s1" "blade_run env ms s1 = Ok rs' s'" "rs = r # rs'"
    by (auto simp: bindO_eq_Ok)
  then show ?case using Cons.IH [OF blade_handle_inv [OF assms(1) Cons.prems(1)]] by simp
qed simp

text \<open>
  C12. Over an allocator that behaves as documented, the memory the allocation server has given
  out and not taken back is never given out twice: for every sequence of requests it
  answers, the live allocations, read off the answers alone, are inside the pool and do
  not overlap.
\<close>

theorem alloc_server_isolates:
  assumes "allocator_documented (be_alloc env) blocks pool" "be_pool env = Some (base, key)"
    and "blade_run env ms (BladeAllocServer size') = Ok rs s"
  shows "apart (fold live_step (zip ms rs) Map.empty) (span base (unat size'))"
proof -
  have "blade_inv env blocks pool size' (BladeAllocServer size') Map.empty"
    by (simp add: blade_inv_def BladeAllocServer_def)
  from blade_run_inv [OF assms(1) this assms(3)] show ?thesis
    using assms(2) by (auto simp: blade_inv_def apart_def split: option.splits)
qed

subsection \<open>An allocator\<close>

text \<open>
  A concrete allocator for the examples: it hands out addresses from the start of the pool
  on, and keeps the list of live blocks.
\<close>

record bump_alloc =
  bump_pool :: "u64 \<times> u64"
  bump_next :: nat
  bump_live :: "(u64 \<times> nat) list"

definition bump_addr :: "bump_alloc \<Rightarrow> u64" where
  "bump_addr a = word_of_nat (bump_next a)"

definition bump_fits :: "u64 \<Rightarrow> bump_alloc \<Rightarrow> bool" where
  "bump_fits n a \<longleftrightarrow>
     (case bump_pool a of (base, sz) \<Rightarrow>
        0 < bump_next a \<and> unat base \<le> bump_next a \<and> bump_next a + unat n \<le> unat base + unat sz
        \<and> bump_next a < 2 ^ 64
        \<and> list_all (\<lambda>(q, m). unat q + m \<le> bump_next a \<and> q \<noteq> bump_addr a) (bump_live a))"

definition bump :: "bump_alloc pool_alloc" where
  "bump = \<lparr>
     al_create = (\<lambda>base sz. \<lparr>bump_pool = (base, sz), bump_next = max 1 (unat base), bump_live = []\<rparr>),
     al_allocate = (\<lambda>n a.
       if bump_fits n a
       then Some (bump_addr a, a\<lparr>bump_next := bump_next a + max 1 (unat n),
                                  bump_live := (bump_addr a, unat n) # bump_live a\<rparr>)
       else None),
     al_deallocate = (\<lambda>p a.
       if p \<in> set (map fst (bump_live a))
       then Some (a\<lparr>bump_live := AList.delete p (bump_live a)\<rparr>) else None)\<rparr>"

lemma bump_documented:
  "allocator_documented bump (\<lambda>a. map_of (bump_live a)) (\<lambda>a. span (fst (bump_pool a)) (unat (snd (bump_pool a))))"
proof -
  have alloc: "p \<noteq> 0 \<and> map_of (bump_live a) p = None \<and> map_of (bump_live a') = (map_of (bump_live a))(p \<mapsto> unat n)
      \<and> bump_pool a' = bump_pool a \<and> span p (unat n) \<subseteq> span (fst (bump_pool a)) (unat (snd (bump_pool a)))
      \<and> (\<forall>q m. map_of (bump_live a) q = Some m \<longrightarrow> span p (unat n) \<inter> span q m = {})"
    if "al_allocate bump n a = Some (p, a')" for n a p a'
  proof -
    have f: "bump_fits n a" and p: "p = bump_addr a"
        "a' = a\<lparr>bump_next := bump_next a + max 1 (unat n), bump_live := (bump_addr a, unat n) # bump_live a\<rparr>"
      using that by (auto simp: bump_def split: if_splits)
    obtain base sz where b: "bump_pool a = (base, sz)" by (cases "bump_pool a")
    have n: "0 < bump_next a" "unat base \<le> bump_next a" "bump_next a + unat n \<le> unat base + unat sz"
        "bump_next a < 2 ^ 64" and l: "\<And>q m. (q, m) \<in> set (bump_live a) \<Longrightarrow> unat q + m \<le> bump_next a \<and> q \<noteq> p"
      using f b p(1) by (auto simp: bump_fits_def list_all_iff)
    have u: "unat p = bump_next a" using n(4) p(1) by (simp add: bump_addr_def unat_of_nat)
    have "p \<noteq> 0" using u n(1) by auto
    moreover have "map_of (bump_live a) p = None" using l by (cases "map_of (bump_live a) p") (auto dest: map_of_SomeD)
    moreover have "span p (unat n) \<inter> span q m = {}" if "map_of (bump_live a) q = Some m" for q m
      using l [OF map_of_SomeD [OF that]] u by (auto simp: span_def)
    moreover have "span p (unat n) \<subseteq> span base (unat sz)" using n(2,3) u by (auto simp: span_def)
    ultimately show ?thesis using p b by simp
  qed
  show ?thesis
    unfolding allocator_documented_def
    by (intro conjI allI impI; (use alloc in \<open>fastforce\<close>)?)
      (auto simp: bump_def delete_conv' span_def map_of_eq_None_iff image_iff split: if_splits)
qed

subsection \<open>A message encoding\<close>

text \<open>
  What is documented of FlatBuffers: reading a buffer that starts with an encoded message
  gives the message. The receive request of the client has room for 1000 bytes.
\<close>

definition blade_codec_documented :: "'al blade_env \<Rightarrow> bool" where
  "blade_codec_documented env \<longleftrightarrow>
     (\<forall>m rest. be_dec env (be_enc env m @ rest) = Some m) \<and> (\<forall>m. length (be_enc env m) \<le> 1000)"

fun blade_encode :: "blade_message \<Rightarrow> byte list" where
  "blade_encode NoBladeData = [0]"
| "blade_encode (Alloc n) = 1 # store64 n"
| "blade_encode (AllocAck i p k) = 2 # store64 i @ store64 p @ store64 k"
| "blade_encode (Dealloc a) = 3 # store64 a"
| "blade_encode (DeallocAck r) = [4, r]"

definition blade_decode :: "byte list \<Rightarrow> blade_message option" where
  "blade_decode bs =
     (case bs of
        [] \<Rightarrow> None
      | t # r \<Rightarrow>
          if t = 0 then Some NoBladeData
          else if t = 1 then Some (Alloc (load64 (take 8 r)))
          else if t = 2 then Some (AllocAck (load64 (take 8 r)) (load64 (take 8 (drop 8 r))) (load64 (take 8 (drop 16 r))))
          else if t = 3 then Some (Dealloc (load64 (take 8 r)))
          else case r of [] \<Rightarrow> None | b # _ \<Rightarrow> Some (DeallocAck b))"

definition demo_blade :: "bump_alloc blade_env" where
  "demo_blade = \<lparr>be_enc = blade_encode, be_dec = blade_decode, be_alloc = bump, be_pool = Some (4096, 7)\<rparr>"

lemma demo_blade_documented:
  "blade_codec_documented demo_blade"
  "allocator_documented (be_alloc demo_blade) (\<lambda>a. map_of (bump_live a))
     (\<lambda>a. span (fst (bump_pool a)) (unat (snd (bump_pool a))))"
proof -
  have "blade_decode (blade_encode m @ rest) = Some m" for m rest
    by (cases m) (simp_all add: blade_decode_def)
  moreover have "length (blade_encode m) \<le> 1000" for m by (cases m) simp_all
  ultimately show "blade_codec_documented demo_blade" by (simp add: blade_codec_documented_def demo_blade_def)
  show "allocator_documented (be_alloc demo_blade) (\<lambda>a. map_of (bump_live a))
      (\<lambda>a. span (fst (bump_pool a)) (unat (snd (bump_pool a))))"
    using bump_documented by (simp add: demo_blade_def)
qed

lemma alloc_server_isolates_witness:
  "\<exists>s. blade_run demo_blade [Alloc 10, Alloc 20, Dealloc 4096, Alloc 200] (BladeAllocServer 100) =
       Ok [AllocAck 0 4096 7, AllocAck 1 4106 7, DeallocAck 1, AllocAck 0 0 7] s
     \<and> apart [4106 \<mapsto> 20] (span 4096 100)"
proof -
  let ?ms = "[Alloc 10, Alloc 20, Dealloc 4096, Alloc 200]"
  let ?rs = "[AllocAck 0 4096 7, AllocAck 1 4106 7, DeallocAck 1, AllocAck 0 0 7]"
  obtain s where s: "blade_run demo_blade ?ms (BladeAllocServer 100) = Ok ?rs s"
    by (simp add: demo_blade_def BladeAllocServer_def blade_handle_def ensure_pool_def create_pool_def
        handle_alloc_def handle_dealloc_def bump_def bump_fits_def bump_addr_def)
  have "be_pool demo_blade = Some (4096, 7)" by (simp add: demo_blade_def)
  from alloc_server_isolates [OF demo_blade_documented(2) this s]
  moreover have "fold live_step (zip ?ms ?rs) Map.empty = [4106 \<mapsto> 20]"
    by (auto simp: fun_eq_iff)
  ultimately show ?thesis using s by simp
qed

text \<open>The pool server gives every client the same memory.\<close>

lemma pool_server_aliases:
  "\<exists>s s'. pool_handle (Some (a, k)) (Alloc n) (BladePoolServer sz) = Ok (AllocAck 42 a k) s
     \<and> pool_handle (Some (a, k)) (Alloc m) s = Ok (AllocAck 42 a k) s'"
  by (simp add: pool_handle_def BladePoolServer_def pool_create_def)

end
