(* ===== verification/RDMA_Client.thy ===== *)
theory RDMA_Client
  imports Blade_Servers Cirrus_Serializer Future_Sync
begin

text \<open>
  The client over RDMA, \<^verbatim>\<open>src/src/client/RDMAClient.cpp\<close>: it asks the allocation server for
  memory, keeps the locations of its objects, and reads and writes the remote memory through
  work requests. Three agents share the state: the thread of the caller, the network card,
  which executes the posted work requests in order, and the thread that polls the completion
  queue. A call names the places where the other two may run. The remote memory and what the
  card does to it are parameters, with the documented behaviour as a hypothesis.
\<close>

section \<open>State\<close>

record AllocationRecord =
  alloc_id :: u32
  remote_addr :: u64
  peer_rkey :: u64

record BladeLocation =
  loc_size :: u64
  allocRec :: AllocationRecord

text \<open>
  Local memory a work request names: the buffer a future owns, or one allocated on the heap.
\<close>

datatype local_mem = InFuture nat | InBuf nat

text \<open>\<^verbatim>\<open>RDMAMem\<close>, a piece of memory to register with the card.\<close>

record RDMAMem =
  mem_addr :: local_mem
  mem_size :: u64
  registered :: bool
  cleared :: bool

definition RDMAMem_new :: "local_mem \<Rightarrow> u64 \<Rightarrow> RDMAMem" where
  "RDMAMem_new a n = \<lparr>mem_addr = a, mem_size = n, registered = False, cleared = False\<rparr>"

text \<open>
  \<^verbatim>\<open>RDMAOpInfo\<close>: the future it completes (none for a receive, whose lock is the one of the
  connection and whose future nobody reads), the buffer it frees, and the memory
  \<^verbatim>\<open>apply_fn\<close> deregisters.
\<close>

record op_info =
  op_fd :: "nat option"
  op_data :: "nat option"
  op_clear :: "RDMAMem option"

text \<open>
  Work requests: the pointer to the \<^verbatim>\<open>RDMAOpInfo\<close>, the local memory, the length and the remote
  address.
\<close>

datatype work_request =
    WrSend nat u64
  | WrWrite nat nat u64 u64
  | WrRead nat local_mem u64 u64

text \<open>A step of the network card or of the polling thread.\<close>

datatype move = Card | Poll

text \<open>
  \<open>write_bufs\<close> are the buffers allocated with \<^verbatim>\<open>new\<close> and not deleted, \<open>ops\<close> the live
  \<^verbatim>\<open>RDMAOpInfo\<close>s, \<open>fds\<close> the futures, \<open>recv_posted\<close> the receives posted. \<open>sched\<close> lists the moves the
  other agents make at the places where a call leaves room for them, \<open>post_errors\<close> and
  \<open>reg_errors\<close> which of the next calls of \<^verbatim>\<open>ibv_post_send\<close> and \<^verbatim>\<open>ibv_reg_mr\<close> fail. \<open>live_regs\<close> counts
  the registrations not undone.
\<close>

record ('al, 'm) rdma_client =
  objects :: "(ObjectID \<times> BladeLocation) list"
  outstanding_send_wr :: u64
  send_queue :: "work_request list"
  comp_queue :: "(nat \<times> wc_opcode) list"
  write_bufs :: "nat \<rightharpoonup> byte list"
  ops :: "nat \<rightharpoonup> op_info"
  next_ptr :: nat
  fds :: "FutureData list"
  recv_sem :: SpinLock
  recv_posted :: "nat list"
  rc_send_msg :: "byte list"
  rc_recv_msg :: "byte list"
  setup_done :: bool
  blade :: "'al blade_server"
  remote :: 'm
  sched :: "move list list"
  post_errors :: "bool list"
  reg_errors :: "bool list"
  live_regs :: nat

text \<open>The remote memory as the card sees it.\<close>

record 'm rnic =
  nic_write :: "u64 \<Rightarrow> byte list \<Rightarrow> 'm \<Rightarrow> 'm"
  nic_read :: "u64 \<Rightarrow> nat \<Rightarrow> 'm \<Rightarrow> byte list"

record ('al, 'm) rdma_env =
  re_blade :: "'al blade_env"
  re_nic :: "'m rnic"
  re_uninit :: "nat \<Rightarrow> byte"

definition SEND_MSG_SIZE :: nat where "SEND_MSG_SIZE = 200 * (1024 * 1024)"

definition RECV_MSG_SIZE :: nat where "RECV_MSG_SIZE = 200 * (1024 * 1024)"

definition MAX_SEND_WR :: u64 where "MAX_SEND_WR = 500"

text \<open>
  A client before it connects. The lock of the connection is taken when it is constructed;
  no constructor sets \<^verbatim>\<open>outstanding_send_wr\<close>, which starts at \<open>n\<close>.
\<close>

definition RDMAClient_new :: "u64 \<Rightarrow> 'al blade_server \<Rightarrow> 'm \<Rightarrow> move list list \<Rightarrow> ('al, 'm) rdma_client" where
  "RDMAClient_new n b m sc =
     \<lparr>objects = [], outstanding_send_wr = n, send_queue = [], comp_queue = [], write_bufs = Map.empty,
      ops = Map.empty, next_ptr = 0, fds = [], recv_sem = True, recv_posted = [], rc_send_msg = [],
      rc_recv_msg = [], setup_done = False, blade = b, remote = m, sched = sc, post_errors = [],
      reg_errors = [], live_regs = 0\<rparr>"

section \<open>The card\<close>

text \<open>
  The card executes the oldest work request. A send reaches the server, whose answer uses
  up a posted receive of 1000 bytes; when the server does not answer, or no receive is
  posted, the caller waits for ever. A write reads its local buffer, which must be alive
  and long enough.
\<close>

definition card_step ::
  "('al, 'm) rdma_env \<Rightarrow> ('al, 'm) rdma_client \<Rightarrow> (unit, ('al, 'm) rdma_client) call" where
  "card_step env s =
     (case send_queue s of
        [] \<Rightarrow> Some (Ok () s)
      | wr # q \<Rightarrow>
          (case wr of
             WrSend p n \<Rightarrow>
               (case blade_process (re_blade env) (take (unat n) (rc_send_msg s)) (blade s) of
                  Ok (Some reply) b' \<Rightarrow>
                    (case recv_posted s of
                       [] \<Rightarrow> None
                     | r # rs \<Rightarrow>
                         if length reply \<le> 1000
                         then Some (Ok () (s\<lparr>send_queue := q, comp_queue := comp_queue s @ [(p, WC_SEND), (r, WC_RECV)],
                                recv_posted := rs, rc_recv_msg := reply @ drop (length reply) (rc_recv_msg s),
                                blade := b'\<rparr>))
                         else None)
                | _ \<Rightarrow> None)
           | WrWrite p b n a \<Rightarrow>
               (case write_bufs s b of
                  None \<Rightarrow> Some Undef
                | Some bs \<Rightarrow>
                    if unat n \<le> length bs
                    then Some (Ok () (s\<lparr>send_queue := q, comp_queue := comp_queue s @ [(p, WC_RDMA_WRITE)],
                           remote := nic_write (re_nic env) a (take (unat n) bs) (remote s)\<rparr>))
                    else Some Undef)
           | WrRead p dst n a \<Rightarrow>
               (let bytes = nic_read (re_nic env) a (unat n) (remote s);
                    s1 = s\<lparr>send_queue := q, comp_queue := comp_queue s @ [(p, WC_RDMA_READ)]\<rparr>
                in case dst of
                     InFuture f \<Rightarrow> Some (Ok () (s1\<lparr>fds := (fds s)[f := (fds s ! f)\<lparr>fut_data := Some bytes\<rparr>]\<rparr>))
                   | InBuf b \<Rightarrow>
                       (case write_bufs s b of
                          None \<Rightarrow> Some Undef
                        | Some bs \<Rightarrow>
                            if unat n \<le> length bs
                            then Some (Ok () (s1\<lparr>write_bufs := (write_bufs s)(b \<mapsto> bytes @ drop (unat n) bs)\<rparr>))
                            else Some Undef))))"

section \<open>Registered memory\<close>

text \<open>\<^verbatim>\<open>RDMAMem::prepare\<close> and \<^verbatim>\<open>RDMAMem::clear\<close>.\<close>

definition prepare :: "RDMAMem \<Rightarrow> ('al, 'm) rdma_client \<Rightarrow> (RDMAMem, ('al, 'm) rdma_client) call" where
  "prepare mem s =
     (if registered mem then Some (Ok mem s)
      else case reg_errors s of
             True # es \<Rightarrow> Some (Throw (runtime_error ''Error in prepare()'') (s\<lparr>reg_errors := es\<rparr>))
           | False # es \<Rightarrow> Some (Ok (mem\<lparr>registered := True\<rparr>) (s\<lparr>reg_errors := es, live_regs := live_regs s + 1\<rparr>))
           | [] \<Rightarrow> Some (Ok (mem\<lparr>registered := True\<rparr>) (s\<lparr>live_regs := live_regs s + 1\<rparr>)))"

definition mem_clear :: "RDMAMem \<Rightarrow> ('al, 'm) rdma_client \<Rightarrow> (RDMAMem, ('al, 'm) rdma_client) outcome" where
  "mem_clear mem s =
     (if \<not> registered mem then Throw (runtime_error ''Not registered'') s
      else Ok (mem\<lparr>cleared := True\<rparr>) (s\<lparr>live_regs := live_regs s - 1\<rparr>))"

section \<open>The polling thread\<close>

text \<open>
  \<^verbatim>\<open>RDMAOpInfo::apply\<close> runs \<^verbatim>\<open>apply_fn\<close>, which deregisters a copy of the memory, and marks the
  future as completed.
\<close>

definition op_apply :: "op_info \<Rightarrow> ('al, 'm) rdma_client \<Rightarrow> (unit, ('al, 'm) rdma_client) outcome" where
  "op_apply oi s =
     bindO (case op_clear oi of None \<Rightarrow> Ok () s | Some mem \<Rightarrow> bindO (mem_clear mem s) (\<lambda>_. Ok ())) (\<lambda>_ s1.
       Ok () (case op_fd oi of
                None \<Rightarrow> s1
              | Some f \<Rightarrow> s1\<lparr>fds := (fds s1)[f := (fds s1 ! f)\<lparr>result_available := True, fut_result := True\<rparr>]\<rparr>))"

definition op_signal :: "op_info \<Rightarrow> ('al, 'm) rdma_client \<Rightarrow> ('al, 'm) rdma_client" where
  "op_signal oi s =
     (case op_fd oi of
        None \<Rightarrow> s\<lparr>recv_sem := spin_signal (recv_sem s)\<rparr>
      | Some f \<Rightarrow> s\<lparr>fds := (fds s)[f := (fds s ! f)\<lparr>sem := spin_signal (sem (fds s ! f))\<rparr>]\<rparr>)"

definition op_free :: "op_info \<Rightarrow> ('al, 'm) rdma_client \<Rightarrow> ('al, 'm) rdma_client" where
  "op_free oi s = (case op_data oi of None \<Rightarrow> s | Some b \<Rightarrow> s\<lparr>write_bufs := (write_bufs s)(b := None)\<rparr>)"

text \<open>The completion of a work request of the send queue.\<close>

definition retire :: "('al, 'm) rdma_client \<Rightarrow> (unit, ('al, 'm) rdma_client) outcome" where
  "retire s =
     (if outstanding_send_wr s > 0 then Ok () (s\<lparr>outstanding_send_wr := outstanding_send_wr s - 1\<rparr>)
      else Throw (assertion_failed ''outstanding_send_wr > 0'') s)"

definition client_on_completion ::
  "nat \<Rightarrow> wc_opcode \<Rightarrow> ('al, 'm) rdma_client \<Rightarrow> (unit, ('al, 'm) rdma_client) outcome" where
  "client_on_completion p opcode s =
     (case ops s p of
        None \<Rightarrow> Undef
      | Some oi \<Rightarrow>
          bindO (op_apply oi s) (\<lambda>_ s1.
            bindO (case opcode of
                     WC_RECV \<Rightarrow> Ok () (op_signal oi s1)
                   | WC_RDMA_READ \<Rightarrow> bindO (retire s1) (\<lambda>_ s2. Ok () (op_free oi (op_signal oi s2)))
                   | WC_RDMA_WRITE \<Rightarrow> bindO (retire s1) (\<lambda>_ s2. Ok () (op_free oi (op_signal oi s2)))
                   | WC_SEND \<Rightarrow> bindO (retire s1) (\<lambda>_ s2. Ok () (op_signal oi s2))
                   | WC_OTHER \<Rightarrow> Throw (process_exit (- 1)) s1)
              (\<lambda>_ s3. Ok () (s3\<lparr>ops := (ops s3)(p := None)\<rparr>))))"

text \<open>One completion of \<^verbatim>\<open>poll_cq\<close>.\<close>

definition poll_step :: "('al, 'm) rdma_client \<Rightarrow> (unit, ('al, 'm) rdma_client) call" where
  "poll_step s =
     (case comp_queue s of
        [] \<Rightarrow> Some (Ok () s)
      | (p, opcode) # q \<Rightarrow> Some (client_on_completion p opcode (s\<lparr>comp_queue := q\<rparr>)))"

fun run_moves ::
  "('al, 'm) rdma_env \<Rightarrow> move list \<Rightarrow> ('al, 'm) rdma_client \<Rightarrow> (unit, ('al, 'm) rdma_client) call" where
  "run_moves env [] s = Some (Ok () s)"
| "run_moves env (mv # mvs) s =
     bindW (case mv of Card \<Rightarrow> card_step env s | Poll \<Rightarrow> poll_step s) (\<lambda>_. run_moves env mvs)"

text \<open>What the other agents do at the next place a call leaves room for them.\<close>

definition race :: "('al, 'm) rdma_env \<Rightarrow> ('al, 'm) rdma_client \<Rightarrow> (unit, ('al, 'm) rdma_client) call" where
  "race env s = (case sched s of [] \<Rightarrow> Some (Ok () s) | mvs # rest \<Rightarrow> run_moves env mvs (s\<lparr>sched := rest\<rparr>))"

text \<open>
  A blocked caller goes on when the other agents have done all there is to do: each work
  request is executed and gives at most two completions.
\<close>

definition settle :: "('al, 'm) rdma_env \<Rightarrow> ('al, 'm) rdma_client \<Rightarrow> (unit, ('al, 'm) rdma_client) call" where
  "settle env s =
     run_moves env (replicate (length (send_queue s)) Card
       @ replicate (2 * length (send_queue s) + length (comp_queue s)) Poll) s"

section \<open>Posting work requests\<close>

definition post_send :: "work_request \<Rightarrow> ('al, 'm) rdma_client \<Rightarrow> bool \<times> ('al, 'm) rdma_client" where
  "post_send wr s =
     (if outstanding_send_wr s = MAX_SEND_WR then (False, s)
      else let s1 = s\<lparr>outstanding_send_wr := outstanding_send_wr s + 1\<rparr> in
        case post_errors s of
          True # es \<Rightarrow> (True, s1\<lparr>post_errors := es\<rparr>)
        | False # es \<Rightarrow> (True, s1\<lparr>post_errors := es, send_queue := send_queue s @ [wr]\<rparr>)
        | [] \<Rightarrow> (True, s1\<lparr>send_queue := send_queue s @ [wr]\<rparr>))"

text \<open>\<^verbatim>\<open>new RDMAOpInfo(id)\<close>, with a new future.\<close>

definition new_op :: "('al, 'm) rdma_client \<Rightarrow> nat \<times> nat \<times> ('al, 'm) rdma_client" where
  "new_op s =
     (next_ptr s, length (fds s),
      s\<lparr>ops := (ops s)(next_ptr s \<mapsto> \<lparr>op_fd = Some (length (fds s)), op_data = None, op_clear = None\<rparr>),
        next_ptr := next_ptr s + 1, fds := fds s @ [FutureData_new]\<rparr>)"

definition new_buf :: "byte list \<Rightarrow> ('al, 'm) rdma_client \<Rightarrow> nat \<times> ('al, 'm) rdma_client" where
  "new_buf bs s =
     (next_ptr s, s\<lparr>write_bufs := (write_bufs s)(next_ptr s \<mapsto> bs), next_ptr := next_ptr s + 1\<rparr>)"

definition post_receive :: "('al, 'm) rdma_client \<Rightarrow> ('al, 'm) rdma_client" where
  "post_receive s =
     s\<lparr>ops := (ops s)(next_ptr s \<mapsto> \<lparr>op_fd = None, op_data = None, op_clear = None\<rparr>), next_ptr := next_ptr s + 1,
       recv_posted := recv_posted s @ [next_ptr s]\<rparr>"

text \<open>
  Waiting for the lock of a future; \<^verbatim>\<open>op_info->fd->sem->wait()\<close> follows the pointer to the
  \<^verbatim>\<open>RDMAOpInfo\<close> first.
\<close>

definition fd_acquire :: "nat \<Rightarrow> ('al, 'm) rdma_client \<Rightarrow> (unit, ('al, 'm) rdma_client) call" where
  "fd_acquire f s =
     (case spin_wait (sem (fds s ! f)) of
        Some l \<Rightarrow> Some (Ok () (s\<lparr>fds := (fds s)[f := (fds s ! f)\<lparr>sem := l\<rparr>]\<rparr>))
      | None \<Rightarrow> None)"

definition fd_wait :: "('al, 'm) rdma_env \<Rightarrow> nat \<Rightarrow> ('al, 'm) rdma_client \<Rightarrow> (unit, ('al, 'm) rdma_client) call" where
  "fd_wait env f s =
     (if sem (fds s ! f) then bindW (settle env s) (\<lambda>_ s1. fd_acquire f s1) else fd_acquire f s)"

definition op_wait :: "('al, 'm) rdma_env \<Rightarrow> nat \<Rightarrow> nat \<Rightarrow> ('al, 'm) rdma_client \<Rightarrow> (unit, ('al, 'm) rdma_client) call" where
  "op_wait env p f s = (if ops s p = None then Some Undef else fd_wait env f s)"

definition recv_wait :: "('al, 'm) rdma_env \<Rightarrow> ('al, 'm) rdma_client \<Rightarrow> (unit, ('al, 'm) rdma_client) call" where
  "recv_wait env s =
     (case spin_wait (recv_sem s) of
        Some l \<Rightarrow> Some (Ok () (s\<lparr>recv_sem := l\<rparr>))
      | None \<Rightarrow>
          bindW (settle env s) (\<lambda>_ s1.
            case spin_wait (recv_sem s1) of Some l \<Rightarrow> Some (Ok () (s1\<lparr>recv_sem := l\<rparr>)) | None \<Rightarrow> None))"

definition client_send_message :: "u64 \<Rightarrow> ('al, 'm) rdma_client \<Rightarrow> (nat \<times> nat) option \<times> ('al, 'm) rdma_client" where
  "client_send_message size' s =
     (let (p, f, s1) = new_op s; (ok, s2) = post_send (WrSend p size') s1
      in (if ok then Some (p, f) else None, s2))"

definition send_receive_message_sync ::
  "('al, 'm) rdma_env \<Rightarrow> u64 \<Rightarrow> ('al, 'm) rdma_client \<Rightarrow> (bool, ('al, 'm) rdma_client) call" where
  "send_receive_message_sync env size' s =
     (case client_send_message size' (post_receive s) of
        (None, s1) \<Rightarrow> Some (Ok False s1)
      | (Some (p, f), s1) \<Rightarrow>
          bindW (race env s1) (\<lambda>_ s2.
            bindW (op_wait env p f s2) (\<lambda>_ s3.
              bindW (recv_wait env s3) (\<lambda>_ s4. Some (Ok True s4)))))"

text \<open>
  \<^verbatim>\<open>write_rdma_async\<close>: the buffer is left to the completion to free.
\<close>

definition write_rdma_async ::
  "nat \<Rightarrow> u64 \<Rightarrow> u64 \<Rightarrow> nat \<Rightarrow> ('al, 'm) rdma_client \<Rightarrow> (unit, ('al, 'm) rdma_client) call" where
  "write_rdma_async p size' addr buf s =
     (case post_send (WrWrite p buf size' addr)
             (s\<lparr>ops := (ops s)(p := map_option (\<lambda>oi. oi\<lparr>op_data := Some buf\<rparr>) (ops s p))\<rparr>) of
        (True, s1) \<Rightarrow> Some (Ok () s1)
      | (False, s1) \<Rightarrow> Some (Throw (runtime_error ''write_rdma_async: error post_send'') s1))"

definition write_rdma_sync ::
  "('al, 'm) rdma_env \<Rightarrow> u64 \<Rightarrow> u64 \<Rightarrow> nat \<Rightarrow> ('al, 'm) rdma_client \<Rightarrow> (bool, ('al, 'm) rdma_client) call" where
  "write_rdma_sync env size' addr buf s =
     (case new_op s of
        (p, f, s1) \<Rightarrow>
          bindW (write_rdma_async p size' addr buf s1) (\<lambda>_ s2.
            bindW (race env s2) (\<lambda>_ s3.
              bindW (op_wait env p f s3) (\<lambda>_ s4. Some (Ok True s4)))))"

definition read_rdma_async ::
  "nat \<Rightarrow> u64 \<Rightarrow> u64 \<Rightarrow> local_mem \<Rightarrow> ('al, 'm) rdma_client \<Rightarrow> (unit, ('al, 'm) rdma_client) call" where
  "read_rdma_async p size' addr dst s =
     (case post_send (WrRead p dst size' addr) s of
        (True, s1) \<Rightarrow> Some (Ok () s1)
      | (False, s1) \<Rightarrow> Some (Throw (runtime_error ''read_rdma_async: error post_send'') s1))"

text \<open>The loop of \<^verbatim>\<open>read_rdma_sync\<close> reads the future through the \<^verbatim>\<open>RDMAOpInfo\<close> each time.\<close>

partial_function (option) read_wait ::
  "('al, 'm) rdma_env \<Rightarrow> nat \<Rightarrow> nat \<Rightarrow> ('al, 'm) rdma_client \<Rightarrow> (unit, ('al, 'm) rdma_client) call" where
  "read_wait env p f s =
     (if ops s p = None then Some Undef
      else if result_available (fds s ! f) then Some (Ok () s)
      else case fd_wait env f s of
             None \<Rightarrow> None
           | Some (Ok _ s1) \<Rightarrow> read_wait env p f s1
           | Some (Throw e s1) \<Rightarrow> Some (Throw e s1)
           | Some Undef \<Rightarrow> Some Undef)"

definition read_rdma_sync ::
  "('al, 'm) rdma_env \<Rightarrow> u64 \<Rightarrow> u64 \<Rightarrow> local_mem \<Rightarrow> ('al, 'm) rdma_client \<Rightarrow> (unit, ('al, 'm) rdma_client) call" where
  "read_rdma_sync env size' addr dst s =
     (case new_op s of
        (p, f, s1) \<Rightarrow>
          bindW (read_rdma_async p size' addr dst s1) (\<lambda>_ s2.
            bindW (race env s2) (\<lambda>_ s3. read_wait env p f s3)))"

section \<open>Remote allocation\<close>

definition rdma_allocate ::
  "('al, 'm) rdma_env \<Rightarrow> u64 \<Rightarrow> ('al, 'm) rdma_client \<Rightarrow> (AllocationRecord, ('al, 'm) rdma_client) call" where
  "rdma_allocate env size' s =
     (let m = be_enc (re_blade env) (Alloc size') in
      bindW (send_receive_message_sync env (word_of_nat (length m)) (s\<lparr>rc_send_msg := m @ drop (length m) (rc_send_msg s)\<rparr>)) (\<lambda>_ s1.
        case be_dec (re_blade env) (rc_recv_msg s1) of
          Some (AllocAck i addr key) \<Rightarrow>
            if addr = 0
            then Some (Throw (ServerMemoryErrorException ''Server threw exception when allocating memory.'') s1)
            else Some (Ok \<lparr>alloc_id = ucast i, remote_addr = addr, peer_rkey = key\<rparr> s1)
        | _ \<Rightarrow> Some Undef))"

definition rdma_deallocate ::
  "('al, 'm) rdma_env \<Rightarrow> AllocationRecord \<Rightarrow> ('al, 'm) rdma_client \<Rightarrow> (bool, ('al, 'm) rdma_client) call" where
  "rdma_deallocate env ar s =
     (let m = be_enc (re_blade env) (Dealloc (remote_addr ar)) in
      bindW (send_receive_message_sync env (word_of_nat (length m)) (s\<lparr>rc_send_msg := m @ drop (length m) (rc_send_msg s)\<rparr>)) (\<lambda>_ s1.
        case be_dec (re_blade env) (rc_recv_msg s1) of
          Some (DeallocAck r) \<Rightarrow>
            if r = 0 then Some (Throw (runtime_error ''Error with deallocation'') s1) else Some (Ok True s1)
        | _ \<Rightarrow> Some Undef))"

section \<open>Reading and writing objects\<close>

text \<open>
  The only caller of \<^verbatim>\<open>rdma_write_sync\<close>, and the one of \<^verbatim>\<open>rdma_read_sync\<close>, pass memory of their own;
  the callers of the asynchronous routines pass none.
\<close>

definition rdma_write_sync ::
  "('al, 'm) rdma_env \<Rightarrow> AllocationRecord \<Rightarrow> u64 \<Rightarrow> u64 \<Rightarrow> nat \<Rightarrow> RDMAMem \<Rightarrow> ('al, 'm) rdma_client
    \<Rightarrow> (bool, ('al, 'm) rdma_client) call" where
  "rdma_write_sync env ar off len buf mem s =
     (if unat len > SEND_MSG_SIZE then Some (Ok False s)
      else bindW (prepare (mem\<lparr>mem_addr := InBuf buf\<rparr>) s) (\<lambda>_ s1.
        bindW (write_rdma_sync env len (remote_addr ar + off) buf s1) (\<lambda>_ s2. Some (Ok True s2))))"

definition rdma_write_async ::
  "AllocationRecord \<Rightarrow> u64 \<Rightarrow> u64 \<Rightarrow> nat \<Rightarrow> ('al, 'm) rdma_client \<Rightarrow> (nat, ('al, 'm) rdma_client) call" where
  "rdma_write_async ar off len buf s =
     (if unat len > SEND_MSG_SIZE then Some (Throw (Exception ''Message being sent is over RDMA max size.'') s)
      else case new_op s of
             (p, f, s1) \<Rightarrow>
               bindW (prepare (RDMAMem_new (InBuf buf) len) s1) (\<lambda>_ s2.
                 bindW (write_rdma_async p len (remote_addr ar + off) buf s2) (\<lambda>_ s3. Some (Ok f s3))))"

definition rdma_read_sync ::
  "('al, 'm) rdma_env \<Rightarrow> AllocationRecord \<Rightarrow> u64 \<Rightarrow> u64 \<Rightarrow> nat \<Rightarrow> RDMAMem \<Rightarrow> ('al, 'm) rdma_client
    \<Rightarrow> (bool, ('al, 'm) rdma_client) call" where
  "rdma_read_sync env ar off len buf mem s =
     (if unat len > RECV_MSG_SIZE then Some (Ok False s)
      else bindW (prepare (mem\<lparr>mem_addr := InBuf buf, mem_size := len\<rparr>) s) (\<lambda>_ s1.
        bindW (read_rdma_sync env len (remote_addr ar + off) (InBuf buf) s1) (\<lambda>_ s2. Some (Ok True s2))))"

text \<open>
  The buffer of an asynchronous read is owned by its future from the start; \<^verbatim>\<open>data_size\<close> is not
  set. The completion deregisters the memory.
\<close>

definition rdma_read_async ::
  "('al, 'm) rdma_env \<Rightarrow> AllocationRecord \<Rightarrow> u64 \<Rightarrow> u64 \<Rightarrow> ('al, 'm) rdma_client
    \<Rightarrow> (nat, ('al, 'm) rdma_client) call" where
  "rdma_read_async env ar off len s =
     (if unat len > RECV_MSG_SIZE
      then Some (Throw (Exception ''Incoming message greater than RDMA max message size.'') s)
      else bindW (prepare (RDMAMem_new (InFuture (length (fds s))) len) s) (\<lambda>mem s1.
        case new_op s1 of
          (p, f, s2) \<Rightarrow>
            (let s3 = s2\<lparr>ops := (ops s2)(p \<mapsto> \<lparr>op_fd = Some f, op_data = None, op_clear = Some mem\<rparr>),
                         fds := (fds s2)[f := (fds s2 ! f)\<lparr>fut_data := Some (uninit_buffer (re_uninit env) (unat len))\<rparr>]\<rparr>
             in bindW (read_rdma_async p len (remote_addr ar + off) (InFuture f) s3) (\<lambda>_ s4. Some (Ok f s4)))))"

definition readToLocal ::
  "('al, 'm) rdma_env \<Rightarrow> BladeLocation \<Rightarrow> nat \<Rightarrow> ('al, 'm) rdma_client \<Rightarrow> (bool, ('al, 'm) rdma_client) call" where
  "readToLocal env loc buf s =
     bindW (rdma_read_sync env (allocRec loc) 0 (loc_size loc) buf (RDMAMem_new (InBuf buf) (loc_size loc)) s)
       (\<lambda>_ s1. Some (Ok True s1))"

definition writeRemote ::
  "('al, 'm) rdma_env \<Rightarrow> nat \<Rightarrow> BladeLocation \<Rightarrow> ('al, 'm) rdma_client \<Rightarrow> (bool, ('al, 'm) rdma_client) call" where
  "writeRemote env buf loc s =
     bindW (rdma_write_sync env (allocRec loc) 0 (loc_size loc) buf (RDMAMem_new (InBuf buf) (loc_size loc)) s)
       (\<lambda>_ s1. Some (Ok True s1))"

definition writeRemoteAsync ::
  "nat \<Rightarrow> BladeLocation \<Rightarrow> ('al, 'm) rdma_client \<Rightarrow> (nat, ('al, 'm) rdma_client) call" where
  "writeRemoteAsync buf loc = rdma_write_async (allocRec loc) 0 (loc_size loc) buf"

definition readToLocalAsync ::
  "('al, 'm) rdma_env \<Rightarrow> BladeLocation \<Rightarrow> ('al, 'm) rdma_client \<Rightarrow> (nat, ('al, 'm) rdma_client) call" where
  "readToLocalAsync env loc = rdma_read_async env (allocRec loc) 0 (loc_size loc)"

definition insertObjectLocation ::
  "ObjectID \<Rightarrow> u64 \<Rightarrow> AllocationRecord \<Rightarrow> ('al, 'm) rdma_client \<Rightarrow> ('al, 'm) rdma_client" where
  "insertObjectLocation oid size' ar s =
     s\<lparr>objects := AList.update oid \<lparr>loc_size = size', allocRec = ar\<rparr> (objects s)\<rparr>"

text \<open>\<^verbatim>\<open>ClientFuture::wait\<close> and \<^verbatim>\<open>getDataPair\<close> on a future of this client.\<close>

partial_function (option) rdma_wait ::
  "('al, 'm) rdma_env \<Rightarrow> nat \<Rightarrow> ('al, 'm) rdma_client \<Rightarrow> (unit, ('al, 'm) rdma_client) call" where
  "rdma_wait env f s =
     (if result_available (fds s ! f) then Some (Ok () s)
      else case fd_wait env f s of
             None \<Rightarrow> None
           | Some (Ok _ s1) \<Rightarrow> rdma_wait env f s1
           | Some (Throw e s1) \<Rightarrow> Some (Throw e s1)
           | Some Undef \<Rightarrow> Some Undef)"

definition rdma_getDataPair ::
  "('al, 'm) rdma_env \<Rightarrow> nat \<Rightarrow> ('al, 'm) rdma_client \<Rightarrow> (byte list \<times> u32, ('al, 'm) rdma_client) call" where
  "rdma_getDataPair env f s =
     bindW (rdma_wait env f s) (\<lambda>_ s1. raise_or (future_getDataPair (fds s1 ! f)) s1)"

section \<open>The interface of the client\<close>

definition rdma_write_sync_obj ::
  "('al, 'm) rdma_env \<Rightarrow> ObjectID \<Rightarrow> write_unit \<Rightarrow> ('al, 'm) rdma_client \<Rightarrow> (bool, ('al, 'm) rdma_client) call" where
  "rdma_write_sync_obj env oid w s =
     (case serialized (re_uninit env) w of
        None \<Rightarrow> Some Undef
      | Some bs \<Rightarrow>
          (case new_buf bs s of
             (buf, s1) \<Rightarrow>
               (case map_of (objects s1) oid of
                  Some loc \<Rightarrow> writeRemote env buf loc s1
                | None \<Rightarrow>
                    bindW (rdma_allocate env (wu_size w) s1) (\<lambda>ar s2.
                      writeRemote env buf \<lparr>loc_size = wu_size w, allocRec = ar\<rparr>
                        (insertObjectLocation oid (wu_size w) ar s2)))))"

definition rdma_write_async_obj ::
  "('al, 'm) rdma_env \<Rightarrow> ObjectID \<Rightarrow> write_unit \<Rightarrow> ('al, 'm) rdma_client \<Rightarrow> (nat, ('al, 'm) rdma_client) call" where
  "rdma_write_async_obj env oid w s =
     (case serialized (re_uninit env) w of
        None \<Rightarrow> Some Undef
      | Some bs \<Rightarrow>
          (case new_buf bs s of
             (buf, s1) \<Rightarrow>
               (case map_of (objects s1) oid of
                  Some loc \<Rightarrow> writeRemoteAsync buf loc s1
                | None \<Rightarrow>
                    bindW (rdma_allocate env (wu_size w) s1) (\<lambda>ar s2.
                      writeRemoteAsync buf \<lparr>loc_size = wu_size w, allocRec = ar\<rparr>
                        (insertObjectLocation oid (wu_size w) ar s2)))))"

definition rdma_read_async_obj ::
  "('al, 'm) rdma_env \<Rightarrow> ObjectID \<Rightarrow> ('al, 'm) rdma_client \<Rightarrow> (nat, ('al, 'm) rdma_client) call" where
  "rdma_read_async_obj env oid s =
     (case map_of (objects s) oid of
        None \<Rightarrow> Some (Throw (NoSuchIDException ''Requested ObjectID does not exist remotely.'') s)
      | Some loc \<Rightarrow> readToLocalAsync env loc s)"

definition rdma_read_sync_obj ::
  "('al, 'm) rdma_env \<Rightarrow> ObjectID \<Rightarrow> ('al, 'm) rdma_client \<Rightarrow> (byte list \<times> u32, ('al, 'm) rdma_client) call" where
  "rdma_read_sync_obj env oid s =
     (case map_of (objects s) oid of
        Some loc \<Rightarrow> bindW (readToLocalAsync env loc s) (rdma_getDataPair env)
      | None \<Rightarrow> Some (Throw (NoSuchIDException ''Requested ObjectID does not exist remotely.'') s))"

definition rdma_remove ::
  "('al, 'm) rdma_env \<Rightarrow> ObjectID \<Rightarrow> ('al, 'm) rdma_client \<Rightarrow> (bool, ('al, 'm) rdma_client) call" where
  "rdma_remove env oid s =
     (case map_of (objects s) oid of
        Some loc \<Rightarrow> rdma_deallocate env (allocRec loc) (s\<lparr>objects := AList.delete oid (objects s)\<rparr>)
      | None \<Rightarrow> Some (Throw (NoSuchIDException ''Error. Trying to remove nonnexistent object'') s))"

text \<open>\<^verbatim>\<open>read_sync_bulk\<close>, \<^verbatim>\<open>write_sync_bulk\<close>, \<^verbatim>\<open>read_async_bulk\<close> and \<^verbatim>\<open>write_async_bulk\<close>.\<close>

definition rdma_bulk :: "('al, 'm) rdma_client \<Rightarrow> ('a, ('al, 'm) rdma_client) call" where
  "rdma_bulk s = Some (Throw (runtime_error ''Not implemented'') s)"

section \<open>Connecting\<close>

datatype conn_event =
    EvAddrResolved | EvRouteResolved | EvEstablished | EvUnreachable | EvRejected | EvConnectError | EvOther

text \<open>
  The event loop of \<^verbatim>\<open>connect_rdma_cm\<close>; the list ends where \<^verbatim>\<open>rdma_get_cm_event\<close> fails.
\<close>

fun connect_rdma_cm :: "conn_event list \<Rightarrow> ('al, 'm) rdma_client \<Rightarrow> (unit, ('al, 'm) rdma_client) outcome" where
  "connect_rdma_cm [] s = Ok () s"
| "connect_rdma_cm (e # es) s =
     (case e of
        EvAddrResolved \<Rightarrow> connect_rdma_cm es (s\<lparr>setup_done := True\<rparr>)
      | EvRouteResolved \<Rightarrow> connect_rdma_cm es s
      | EvEstablished \<Rightarrow> Ok () s
      | _ \<Rightarrow> Throw (process_exit (- 1)) s)"

end
