(* ===== verification/RDMA_Agents.thy ===== *)
theory RDMA_Agents
  imports RDMA_Client
begin

text \<open>
  The client over RDMA together with the allocation server, the network card and the polling
  thread: the invariant every step of an agent keeps, what a read and an exchange of messages
  promise while the agents run, and what the waits of the caller return.
\<close>

section \<open>What the agents keep\<close>

fun wr_op :: "work_request \<Rightarrow> nat" where
  "wr_op (WrSend p n) = p"
| "wr_op (WrWrite p b n a) = p"
| "wr_op (WrRead p d n a) = p"

text \<open>The remote memory once the work requests of a queue have been executed.\<close>

fun pend :: "'m rnic \<Rightarrow> (nat \<rightharpoonup> byte list) \<Rightarrow> work_request list \<Rightarrow> 'm \<Rightarrow> 'm" where
  "pend nic bufs [] m = m"
| "pend nic bufs (WrWrite p b n a # q) m = pend nic bufs q (nic_write nic a (take (unat n) (the (bufs b))) m)"
| "pend nic bufs (WrSend p n # q) m = pend nic bufs q m"
| "pend nic bufs (WrRead p d n a # q) m = pend nic bufs q m"

lemma pend_append [simp]: "pend nic bufs (q @ q') m = pend nic bufs q' (pend nic bufs q m)"
  by (induction nic bufs q m rule: pend.induct) simp_all

lemma pend_cong:
  "(\<And>p b n a. WrWrite p b n a \<in> set q \<Longrightarrow> bufs b = bufs' b) \<Longrightarrow> pend nic bufs q m = pend nic bufs' q m"
proof (induction q arbitrary: m)
  case (Cons wr q)
  from Cons.IH Cons.prems show ?case by (cases wr) (simp_all, metis)
qed simp

text \<open>The queue reads \<open>v\<close> into the buffer of the future \<open>f\<close>.\<close>

fun due :: "'m rnic \<Rightarrow> (nat \<rightharpoonup> byte list) \<Rightarrow> nat \<Rightarrow> byte list \<Rightarrow> work_request list \<Rightarrow> 'm \<Rightarrow> bool" where
  "due nic bufs f v [] m = False"
| "due nic bufs f v (WrWrite p b n a # q) m = due nic bufs f v q (nic_write nic a (take (unat n) (the (bufs b))) m)"
| "due nic bufs f v (WrSend p n # q) m = due nic bufs f v q m"
| "due nic bufs f v (WrRead p d n a # q) m =
     (if d = InFuture f then nic_read nic a (unat n) m = v else due nic bufs f v q m)"

lemma due_cong:
  "(\<And>p b n a. WrWrite p b n a \<in> set q \<Longrightarrow> bufs b = bufs' b) \<Longrightarrow> due nic bufs f v q m = due nic bufs' f v q m"
proof (induction q arbitrary: m)
  case (Cons wr q)
  from Cons.IH Cons.prems show ?case by (cases wr) (simp_all, metis)
qed simp

lemma due_in: "due nic bufs f v q m \<Longrightarrow> \<exists>p n a. WrRead p (InFuture f) n a \<in> set q"
  by (induction nic bufs q m rule: pend.induct) (auto split: if_splits)

lemma due_last:
  "\<forall>p n a. WrRead p (InFuture f) n a \<notin> set q \<Longrightarrow>
     due nic bufs f v (q @ [WrRead p (InFuture f) n a]) m = (nic_read nic a (unat n) (pend nic bufs q m) = v)"
  by (induction nic bufs q m rule: pend.induct) auto

text \<open>
  A posted work request names a live \<^verbatim>\<open>RDMAOpInfo\<close> and memory that is alive and long
  enough; so does a completion.
\<close>

definition wr_ok :: "('al, 'm) rdma_client \<Rightarrow> work_request \<Rightarrow> bool" where
  "wr_ok s wr =
     (case wr of
        WrSend p n \<Rightarrow> \<exists>f. ops s p = Some \<lparr>op_fd = Some f, op_data = None, op_clear = None\<rparr> \<and> f < length (fds s)
      | WrWrite p b n a \<Rightarrow>
          (\<exists>f bs. ops s p = Some \<lparr>op_fd = Some f, op_data = Some b, op_clear = None\<rparr> \<and> f < length (fds s)
             \<and> write_bufs s b = Some bs \<and> unat n \<le> length bs)
      | WrRead p d n a \<Rightarrow>
          (\<exists>f mem. d = InFuture f \<and> ops s p = Some \<lparr>op_fd = Some f, op_data = None, op_clear = Some mem\<rparr>
             \<and> registered mem \<and> f < length (fds s)))"

definition comp_ok :: "('al, 'm) rdma_client \<Rightarrow> nat \<times> wc_opcode \<Rightarrow> bool" where
  "comp_ok s c \<longleftrightarrow>
     (if snd c = WC_RECV then ops s (fst c) = Some \<lparr>op_fd = None, op_data = None, op_clear = None\<rparr>
      else snd c \<noteq> WC_OTHER \<and> (\<exists>oi f. ops s (fst c) = Some oi \<and> op_fd oi = Some f \<and> f < length (fds s)
        \<and> (snd c = WC_SEND \<longrightarrow> op_data oi = None) \<and> (\<forall>mem. op_clear oi = Some mem \<longrightarrow> registered mem)))"

text \<open>The work requests that are counted: posted, or executed and not yet polled.\<close>

definition load :: "('al, 'm) rdma_client \<Rightarrow> nat" where
  "load s = length (send_queue s) + length (filter (\<lambda>c. snd c \<noteq> WC_RECV) (comp_queue s))"

definition ops_apart :: "(nat \<rightharpoonup> op_info) \<Rightarrow> bool" where
  "ops_apart T \<longleftrightarrow> (\<forall>p q oi oj. T p = Some oi \<longrightarrow> T q = Some oj \<longrightarrow> p \<noteq> q \<longrightarrow>
     (\<forall>f. op_fd oi = Some f \<longrightarrow> op_fd oj \<noteq> Some f) \<and> (\<forall>b. op_data oi = Some b \<longrightarrow> op_data oj \<noteq> Some b))"

lemma ops_apartD:
  assumes "ops_apart T" "T p = Some oi" "T q = Some oj"
  shows "op_fd oi = Some f \<Longrightarrow> op_fd oj = Some f \<Longrightarrow> p = q"
    "op_data oi = Some b \<Longrightarrow> op_data oj = Some b \<Longrightarrow> p = q"
  using assms unfolding ops_apart_def by blast+

definition queue_inv :: "('al, 'm) rdma_client \<Rightarrow> bool" where
  "queue_inv s \<longleftrightarrow>
     (\<forall>wr\<in>set (send_queue s). wr_ok s wr) \<and> (\<forall>c\<in>set (comp_queue s). comp_ok s c)
     \<and> (\<forall>r\<in>set (recv_posted s). ops s r = Some \<lparr>op_fd = None, op_data = None, op_clear = None\<rparr>)
     \<and> distinct (map wr_op (send_queue s) @ map fst (comp_queue s) @ recv_posted s)
     \<and> ops_apart (ops s)
     \<and> (\<forall>p\<ge>next_ptr s. ops s p = None \<and> write_bufs s p = None)
     \<and> (\<forall>p oi f. ops s p = Some oi \<longrightarrow> op_fd oi = Some f \<longrightarrow> f < length (fds s))
     \<and> (\<forall>p oi b. ops s p = Some oi \<longrightarrow> op_data oi = Some b \<longrightarrow> b < next_ptr s)
     \<and> outstanding_send_wr s = word_of_nat (load s) \<and> load s \<le> 500"

text \<open>
  An exchange of messages: none, or one whose answer \<open>rep\<close> and server state \<open>b\<close> are
  determined. Its send is the last work request posted, or the answer is in the receive
  buffer and its completion is pending or polled.
\<close>

definition no_recv :: "('al, 'm) rdma_client \<Rightarrow> bool" where
  "no_recv s \<longleftrightarrow> filter (\<lambda>c. snd c = WC_RECV) (comp_queue s) = []"

definition no_send :: "work_request list \<Rightarrow> bool" where
  "no_send q \<longleftrightarrow> (\<forall>wr\<in>set q. \<forall>p n. wr \<noteq> WrSend p n)"

definition exch ::
  "('al, 'm) rdma_env \<Rightarrow> ('al, 'm) rdma_client \<Rightarrow> (blade_message \<times> 'al blade_server) option \<Rightarrow> bool" where
  "exch env s A =
     (case A of
        None \<Rightarrow> no_send (send_queue s) \<and> recv_posted s = [] \<and> no_recv s \<and> recv_sem s
      | Some (rep, b) \<Rightarrow>
          (\<exists>q p n r msg. send_queue s = q @ [WrSend p n] \<and> no_send q \<and> recv_posted s = [r] \<and> no_recv s
             \<and> recv_sem s \<and> take (unat n) (rc_send_msg s) = be_enc (re_blade env) msg
             \<and> blade_handle (re_blade env) msg (blade s) = Ok rep b)
          \<or> no_send (send_queue s) \<and> recv_posted s = [] \<and> blade s = b
             \<and> (\<exists>rest. rc_recv_msg s = be_enc (re_blade env) rep @ rest)
             \<and> recv_sem s = (\<not> no_recv s)
             \<and> length (filter (\<lambda>c. snd c = WC_RECV) (comp_queue s)) \<le> 1)"

definition agents_inv ::
  "('al, 'm) rdma_env \<Rightarrow> ('al, 'm) rdma_client \<Rightarrow> (blade_message \<times> 'al blade_server) option \<Rightarrow> 'm \<Rightarrow> bool" where
  "agents_inv env s A M \<longleftrightarrow>
     queue_inv s \<and> pend (re_nic env) (write_bufs s) (send_queue s) (remote s) = M \<and> exch env s A"

text \<open>The read into the future \<open>f\<close> has been executed and not polled.\<close>

definition reading :: "nat \<Rightarrow> ('al, 'm) rdma_client \<Rightarrow> bool" where
  "reading f s \<longleftrightarrow> (\<exists>p oi. (p, WC_RDMA_READ) \<in> set (comp_queue s) \<and> ops s p = Some oi \<and> op_fd oi = Some f)"

lemma reading_mono: "reading f s \<Longrightarrow> comp_queue s' = comp_queue s @ q \<Longrightarrow> ops s' = ops s \<Longrightarrow> reading f s'"
  by (auto simp: reading_def)

text \<open>The future \<open>f\<close> of a read is going to hold \<open>v\<close>, or holds it.\<close>

definition promised :: "('al, 'm) rdma_env \<Rightarrow> nat \<Rightarrow> byte list \<Rightarrow> ('al, 'm) rdma_client \<Rightarrow> bool" where
  "promised env f v s \<longleftrightarrow>
     f < length (fds s) \<and> fut_error (fds s ! f) = kOk \<and> data_size (fds s ! f) = 0 \<and>
     (due (re_nic env) (write_bufs s) f v (send_queue s) (remote s) \<and> \<not> result_available (fds s ! f)
      \<or> fut_data (fds s ! f) = Some v \<and> (\<forall>p n a. WrRead p (InFuture f) n a \<notin> set (send_queue s))
        \<and> (if result_available (fds s ! f) then \<not> sem (fds s ! f)
           else reading f s))"

text \<open>A buffer the caller has filled and not handed over.\<close>

definition unowned :: "nat \<Rightarrow> byte list \<Rightarrow> ('al, 'm) rdma_client \<Rightarrow> bool" where
  "unowned b bs s \<longleftrightarrow> write_bufs s b = Some bs \<and> b < next_ptr s
     \<and> (\<forall>p oi. ops s p = Some oi \<longrightarrow> op_data oi \<noteq> Some b)"

lemma unowned_simps [simp]:
  "unowned b bs (s\<lparr>sched := x1\<rparr>) = unowned b bs s"
  "unowned b bs (s\<lparr>recv_sem := x2\<rparr>) = unowned b bs s"
  "unowned b bs (s\<lparr>objects := x3\<rparr>) = unowned b bs s"
  "unowned b bs (s\<lparr>rc_send_msg := x4\<rparr>) = unowned b bs s"
  "unowned b bs (s\<lparr>live_regs := x5\<rparr>) = unowned b bs s"
  "unowned b bs (s\<lparr>reg_errors := x6\<rparr>) = unowned b bs s"
  by (simp_all add: unowned_def)

text \<open>What no agent changes.\<close>

definition same_caller :: "('al, 'm) rdma_client \<Rightarrow> ('al, 'm) rdma_client \<Rightarrow> bool" where
  "same_caller s s' \<longleftrightarrow> objects s' = objects s \<and> sched s' = sched s \<and> post_errors s' = post_errors s
     \<and> reg_errors s' = reg_errors s \<and> next_ptr s' = next_ptr s \<and> length (fds s') = length (fds s)
     \<and> load s' \<le> load s \<and> (\<forall>b bs. unowned b bs s \<longrightarrow> unowned b bs s')"

lemma same_caller_refl [simp]: "same_caller s s"
  by (simp add: same_caller_def)

lemma same_caller_trans [trans]: "same_caller s s1 \<Longrightarrow> same_caller s1 s2 \<Longrightarrow> same_caller s s2"
  by (simp add: same_caller_def)

subsection \<open>The card\<close>

lemma wr_ok_cong:
  "ops s' = ops s \<Longrightarrow> write_bufs s' = write_bufs s \<Longrightarrow> length (fds s') = length (fds s) \<Longrightarrow> wr_ok s' = wr_ok s"
  by (simp add: fun_eq_iff wr_ok_def split: work_request.split)

lemma comp_ok_cong:
  "ops s' = ops s \<Longrightarrow> length (fds s') = length (fds s) \<Longrightarrow> comp_ok s' = comp_ok s"
  by (simp add: fun_eq_iff comp_ok_def)

lemma queue_inv_cong:
  assumes "send_queue s' = send_queue s" "comp_queue s' = comp_queue s" "recv_posted s' = recv_posted s"
    "ops s' = ops s" "write_bufs s' = write_bufs s" "length (fds s') = length (fds s)"
    "next_ptr s' = next_ptr s" "outstanding_send_wr s' = outstanding_send_wr s"
  shows "queue_inv s' = queue_inv s" "load s' = load s"
proof -
  show l: "load s' = load s" using assms by (simp add: load_def)
  show "queue_inv s' = queue_inv s"
    unfolding queue_inv_def wr_ok_cong [OF assms(4,5,6)] comp_ok_cong [OF assms(4,6)] assms l ..
qed

lemma agents_inv_cong:
  assumes "send_queue s' = send_queue s" "comp_queue s' = comp_queue s" "recv_posted s' = recv_posted s"
    "ops s' = ops s" "write_bufs s' = write_bufs s" "length (fds s') = length (fds s)"
    "next_ptr s' = next_ptr s" "outstanding_send_wr s' = outstanding_send_wr s" "recv_sem s' = recv_sem s"
    "rc_send_msg s' = rc_send_msg s \<or> A = None" "rc_recv_msg s' = rc_recv_msg s \<or> A = None"
    "blade s' = blade s \<or> A = None" "remote s' = remote s"
  shows "agents_inv env s' A M = agents_inv env s A M" "load s' = load s"
proof -
  have n: "no_recv s' = no_recv s" using assms by (simp add: no_recv_def)
  have "exch env s' A = exch env s A" using assms by (cases A) (auto simp: exch_def n)
  then show "agents_inv env s' A M = agents_inv env s A M"
    using queue_inv_cong(1) [OF assms(1-8)] by (simp add: agents_inv_def assms)
  show "load s' = load s" using queue_inv_cong(2) [OF assms(1-8)] .
qed

lemma queue_inv_card:
  assumes "queue_inv s" "send_queue s = wr # q"
    and s': "send_queue s' = q" "comp_queue s' = comp_queue s @ (wr_op wr, opc) # map (\<lambda>r. (r, WC_RECV)) rs"
      "recv_posted s = rs @ recv_posted s'" "ops s' = ops s" "write_bufs s' = write_bufs s"
      "length (fds s') = length (fds s)" "next_ptr s' = next_ptr s" "outstanding_send_wr s' = outstanding_send_wr s"
    and opc: "opc \<noteq> WC_RECV" "opc \<noteq> WC_OTHER" "opc = WC_SEND \<longleftrightarrow> (\<exists>p n. wr = WrSend p n)"
  shows "queue_inv s'" "load s' = load s"
proof -
  have wr: "wr_ok s wr" and recv: "\<forall>r\<in>set rs. comp_ok s (r, WC_RECV)"
    using assms(1,2) s'(3) by (simp_all add: queue_inv_def comp_ok_def)
  have c: "comp_ok s (wr_op wr, opc)"
    using wr opc by (cases wr) (auto simp: wr_ok_def comp_ok_def)
  show l: "load s' = load s" using assms by (simp add: load_def filter_map o_def)
  show "queue_inv s'"
    using assms(1,2) s' wr recv c l
    unfolding queue_inv_def wr_ok_cong [OF s'(4,5,6)] comp_ok_cong [OF s'(4,6)]
    by (simp add: o_def ball_Un)
qed

lemma read_once:
  assumes "queue_inv s" "send_queue s = WrRead p (InFuture f) n a # q"
  shows "WrRead p' (InFuture f) n' a' \<notin> set q"
proof
  assume w: "WrRead p' (InFuture f) n' a' \<in> set q"
  then have "p' \<in> wr_op ` set q" by (metis image_eqI wr_op.simps(3))
  then have "p' \<noteq> p" using assms by (auto simp: queue_inv_def)
  moreover have "wr_ok s (WrRead p (InFuture f) n a)" "wr_ok s (WrRead p' (InFuture f) n' a')" "ops_apart (ops s)"
    using assms w by (simp_all add: queue_inv_def)
  ultimately show False by (auto simp: wr_ok_def dest: ops_apartD(1))
qed

lemma exch_card:
  assumes "exch env s A" "send_queue s = wr # q" "\<And>p n. wr \<noteq> WrSend p n" "opc \<noteq> WC_RECV"
    and "send_queue s' = q" "comp_queue s' = comp_queue s @ [(p, opc)]" "recv_posted s' = recv_posted s"
      "recv_sem s' = recv_sem s" "rc_send_msg s' = rc_send_msg s" "rc_recv_msg s' = rc_recv_msg s" "blade s' = blade s"
  shows "exch env s' A"
proof -
  have "no_recv s' = no_recv s" using assms(4,6) by (simp add: no_recv_def)
  then show ?thesis
    using assms by (auto simp: exch_def no_send_def Cons_eq_append_conv split: option.splits)
qed

text \<open>What \<open>k\<close> steps of the card keep.\<close>

definition card_keeps ::
  "('al, 'm) rdma_env \<Rightarrow> (blade_message \<times> 'al blade_server) option \<Rightarrow> 'm \<Rightarrow> nat
    \<Rightarrow> ('al, 'm) rdma_client \<Rightarrow> ('al, 'm) rdma_client \<Rightarrow> bool" where
  "card_keeps env A M k s s' \<longleftrightarrow> agents_inv env s' A M \<and> same_caller s s' \<and> ops s' = ops s \<and> recv_sem s' = recv_sem s
     \<and> (A = None \<longrightarrow> blade s' = blade s) \<and> map sem (fds s') = map sem (fds s) \<and> (\<forall>f v. promised env f v s \<longrightarrow> promised env f v s')
     \<and> length (send_queue s') = length (send_queue s) - k
     \<and> length (comp_queue s') + 2 * length (send_queue s') \<le> length (comp_queue s) + 2 * length (send_queue s)"

lemma card_write:
  assumes inv: "agents_inv env s A M" and q: "send_queue s = WrWrite p b n a # q"
  shows "\<exists>s'. card_step env s = Some (Ok () s') \<and> card_keeps env A M 1 s s'"
proof -
  from inv have qi: "queue_inv s" and M: "pend (re_nic env) (write_bufs s) (send_queue s) (remote s) = M"
    and ex: "exch env s A" by (simp_all add: agents_inv_def)
  then obtain bs where bs: "write_bufs s b = Some bs" "unat n \<le> length bs"
    using q by (auto simp: queue_inv_def wr_ok_def)
  let ?s = "s\<lparr>send_queue := q, comp_queue := comp_queue s @ [(p, WC_RDMA_WRITE)],
    remote := nic_write (re_nic env) a (take (unat n) bs) (remote s)\<rparr>"
  have "queue_inv ?s" "load ?s = load s"
    using queue_inv_card [OF qi q, of ?s WC_RDMA_WRITE "[]"] by simp_all
  moreover have "exch env ?s A"
    by (rule exch_card [OF ex q, where opc = WC_RDMA_WRITE]) simp_all
  moreover have "promised env f v ?s" if "promised env f v s" for f v
    using that q bs reading_mono [of f s ?s] by (auto simp: promised_def)
  ultimately have "card_keeps env A M 1 s ?s"
    using M q bs by (simp add: card_keeps_def agents_inv_def same_caller_def unowned_def)
  then show ?thesis using q bs by (simp add: card_step_def)
qed

lemma card_read:
  assumes inv: "agents_inv env s A M" and q: "send_queue s = WrRead p d n a # q"
  shows "\<exists>s'. card_step env s = Some (Ok () s') \<and> card_keeps env A M 1 s s'"
proof -
  from inv have qi: "queue_inv s" and M: "pend (re_nic env) (write_bufs s) (send_queue s) (remote s) = M"
    and ex: "exch env s A" by (simp_all add: agents_inv_def)
  then obtain f mem where f: "d = InFuture f" "f < length (fds s)"
      "ops s p = Some \<lparr>op_fd = Some f, op_data = None, op_clear = Some mem\<rparr>"
    using q by (auto simp: queue_inv_def wr_ok_def)
  let ?v = "nic_read (re_nic env) a (unat n) (remote s)"
  let ?s = "s\<lparr>send_queue := q, comp_queue := comp_queue s @ [(p, WC_RDMA_READ)],
    fds := (fds s)[f := (fds s ! f)\<lparr>fut_data := Some ?v\<rparr>]\<rparr>"
  have "queue_inv ?s" "load ?s = load s"
    using queue_inv_card [OF qi q, of ?s WC_RDMA_READ "[]"] by simp_all
  moreover have "exch env ?s A"
    by (rule exch_card [OF ex q, where opc = WC_RDMA_READ]) simp_all
  moreover have "promised env g v ?s" if pr: "promised env g v s" for g v
  proof (cases "g = f")
    case True
    with f pr q read_once [OF qi q [unfolded f(1)]] show ?thesis by (auto simp: promised_def reading_def)
  next
    case False
    with f pr q reading_mono [of g s ?s] show ?thesis by (auto simp: promised_def)
  qed
  ultimately have "card_keeps env A M 1 s ?s"
    using M q by (simp add: card_keeps_def agents_inv_def same_caller_def unowned_def map_update list_update_same_conv f(2))
  then show ?thesis using q f by (simp add: card_step_def)
qed

lemma card_send:
  assumes codec: "blade_codec_documented (re_blade env)"
    and inv: "agents_inv env s A M" and q: "send_queue s = WrSend p n # q"
  shows "\<exists>s'. card_step env s = Some (Ok () s') \<and> card_keeps env A M 1 s s'"
proof -
  from inv have qi: "queue_inv s" and M: "pend (re_nic env) (write_bufs s) (send_queue s) (remote s) = M"
    and ex: "exch env s A" by (simp_all add: agents_inv_def)
  from ex q obtain rep b r msg where A: "A = Some (rep, b)" "q = []" "recv_posted s = [r]" "no_recv s" "recv_sem s"
      "take (unat n) (rc_send_msg s) = be_enc (re_blade env) msg" "blade_handle (re_blade env) msg (blade s) = Ok rep b"
    by (auto simp: exch_def no_send_def Cons_eq_append_conv split: option.splits)
  have dec: "be_dec (re_blade env) (be_enc (re_blade env) m) = Some m" "length (be_enc (re_blade env) m) \<le> 1000" for m
    using codec by (simp_all add: blade_codec_documented_def) (metis append.right_neutral)
  let ?rep = "be_enc (re_blade env) rep"
  let ?s = "s\<lparr>send_queue := [], comp_queue := comp_queue s @ [(p, WC_SEND), (r, WC_RECV)], recv_posted := [],
    rc_recv_msg := ?rep @ drop (length ?rep) (rc_recv_msg s), blade := b\<rparr>"
  have "queue_inv ?s" "load ?s = load s"
    using queue_inv_card [OF qi q, of ?s WC_SEND "[r]"] A(2,3) by simp_all
  moreover have "exch env ?s A"
    using A by (simp add: exch_def no_send_def no_recv_def)
  moreover have "promised env f v ?s" if "promised env f v s" for f v
    using that q A(2) reading_mono [of f s ?s] by (auto simp: promised_def)
  ultimately have "card_keeps env A M 1 s ?s"
    using M q A by (simp add: card_keeps_def agents_inv_def same_caller_def unowned_def)
  moreover have "card_step env s = Some (Ok () ?s)"
    using q A dec by (simp add: card_step_def blade_process_def)
  ultimately show ?thesis by blast
qed

lemma card_any:
  assumes "blade_codec_documented (re_blade env)" "agents_inv env s A M"
  shows "\<exists>s'. card_step env s = Some (Ok () s') \<and> card_keeps env A M 1 s s'"
proof (cases "send_queue s")
  case Nil
  with assms(2) show ?thesis by (simp add: card_step_def card_keeps_def)
next
  case (Cons wr q)
  show ?thesis
  proof (cases wr)
    case (WrSend p n)
    with Cons card_send [OF assms, of p n q] show ?thesis by simp
  next
    case (WrWrite p b n a)
    with Cons card_write [OF assms(2), of p b n a q] show ?thesis by simp
  next
    case (WrRead p d n a)
    with Cons card_read [OF assms(2), of p d n a q] show ?thesis by simp
  qed
qed

subsection \<open>The polling thread\<close>

lemma load_word:
  assumes "queue_inv s"
  shows "outstanding_send_wr s > 0 \<longleftrightarrow> load s > 0" "unat (outstanding_send_wr s) = load s"
    "load s > 0 \<Longrightarrow> outstanding_send_wr s - 1 = word_of_nat (load s - 1)"
proof -
  have "load s < 2 ^ 64" "outstanding_send_wr s = word_of_nat (load s)"
    using assms by (simp_all add: queue_inv_def)
  then show u: "unat (outstanding_send_wr s) = load s" by (simp add: unat_of_nat take_bit_nat_eq_self)
  then show "outstanding_send_wr s > 0 \<longleftrightarrow> load s > 0" by (simp add: word_less_nat_alt)
  show "load s > 0 \<Longrightarrow> outstanding_send_wr s - 1 = word_of_nat (load s - 1)"
    using \<open>outstanding_send_wr s = word_of_nat (load s)\<close> by (simp add: of_nat_diff)
qed

definition drop_buf :: "nat option \<Rightarrow> (nat \<rightharpoonup> byte list) \<Rightarrow> (nat \<rightharpoonup> byte list)" where
  "drop_buf d bufs = (case d of None \<Rightarrow> bufs | Some b \<Rightarrow> bufs(b := None))"

lemma drop_buf_None [simp]: "drop_buf None bufs = bufs"
  by (simp add: drop_buf_def)

lemma queue_inv_poll:
  assumes qi: "queue_inv s" and c: "comp_queue s = (p, opc) # cq" and oi: "ops s p = Some oi"
    and s': "send_queue s' = send_queue s" "comp_queue s' = cq" "recv_posted s' = recv_posted s"
      "ops s' = (ops s)(p := None)" "length (fds s') = length (fds s)" "next_ptr s' = next_ptr s"
      "write_bufs s' = drop_buf (op_data oi) (write_bufs s)"
      "outstanding_send_wr s' = (if opc = WC_RECV then outstanding_send_wr s else outstanding_send_wr s - 1)"
  shows "queue_inv s'" "load s' = (if opc = WC_RECV then load s else load s - 1)"
    "\<And>p' b n a. WrWrite p' b n a \<in> set (send_queue s) \<Longrightarrow> write_bufs s' b = write_bufs s b"
proof -
  have ap: "ops_apart (ops s)" and p: "p \<notin> wr_op ` set (send_queue s)" "p \<notin> fst ` set cq" "p \<notin> set (recv_posted s)"
    using qi c by (auto simp: queue_inv_def)
  have wr: "wr_ok s wr \<and> wr_op wr \<noteq> p" if "wr \<in> set (send_queue s)" for wr
    using qi that p(1) by (auto simp: queue_inv_def)
  show keep: "write_bufs s' b = write_bufs s b" if "WrWrite p' b n a \<in> set (send_queue s)" for p' b n a
  proof -
    from wr [OF that] obtain oj where "ops s p' = Some oj" "op_data oj = Some b" "p' \<noteq> p"
      by (auto simp: wr_ok_def)
    with ops_apartD(2) [OF ap this(1) oi] s'(7) show ?thesis by (auto simp: drop_buf_def split: option.split)
  qed
  have wr': "wr_ok s' w" if "w \<in> set (send_queue s)" for w
  proof (cases w)
    case (WrWrite p' b n a)
    with wr [OF that] keep [of p' b n a] that s'(4,5) show ?thesis by (simp add: wr_ok_def)
  qed (use wr [OF that] s'(4,5) in \<open>simp_all add: wr_ok_def\<close>)
  have c': "comp_ok s' c" if "c \<in> set cq" for c
  proof -
    have "comp_ok s c" "fst c \<noteq> p" using qi c p(2) that by (auto simp: queue_inv_def)
    with s'(4,5) show ?thesis by (auto simp: comp_ok_def split: if_splits)
  qed
  show l: "load s' = (if opc = WC_RECV then load s else load s - 1)"
    using c s'(1,2) by (simp add: load_def)
  have ap': "ops_apart (ops s')" using ap unfolding s'(4) ops_apart_def by simp
  have pos: "opc \<noteq> WC_RECV \<Longrightarrow> load s > 0" using c by (simp add: load_def)
  have out: "outstanding_send_wr s' = word_of_nat (load s')"
    using s'(8) l load_word(3) [OF qi pos] qi by (simp add: queue_inv_def)
  have fr: "\<forall>q\<ge>next_ptr s. write_bufs s' q = None"
    using qi s'(7) by (auto simp: queue_inv_def drop_buf_def split: option.split)
  have rp: "((ops s)(p := None)) r = Some \<lparr>op_fd = None, op_data = None, op_clear = None\<rparr>"
    if "r \<in> set (recv_posted s)" for r
    using qi that p(3) by (auto simp: queue_inv_def)
  have sub: "ops s q = Some oj" if "ops s' q = Some oj" for q oj
    using that by (simp add: s'(4) split: if_splits)
  have dis: "distinct (map wr_op (send_queue s) @ map fst cq @ recv_posted s)" and le: "load s' \<le> 500"
    using qi c l by (auto simp: queue_inv_def)
  have fds: "f < length (fds s')" if "ops s' q = Some oj" "op_fd oj = Some f" for q oj f
    using qi sub [OF that(1)] that(2) by (simp add: queue_inv_def s'(5))
  have dat: "b < next_ptr s'" if "ops s' q = Some oj" "op_data oj = Some b" for q oj b
    using qi sub [OF that(1)] that(2) by (simp add: queue_inv_def s'(6))
  have fr': "\<forall>q\<ge>next_ptr s'. ops s' q = None \<and> write_bufs s' q = None"
    using qi fr by (simp add: queue_inv_def s'(4,6))
  show "queue_inv s'"
    unfolding queue_inv_def s'(1-3) by (intro conjI ballI allI impI) (use wr' c' rp dis ap' fr' fds dat out le in \<open>simp_all add: s'(4)\<close>)
qed

definition poll_keeps ::
  "('al, 'm) rdma_env \<Rightarrow> (blade_message \<times> 'al blade_server) option \<Rightarrow> 'm \<Rightarrow> nat
    \<Rightarrow> ('al, 'm) rdma_client \<Rightarrow> ('al, 'm) rdma_client \<Rightarrow> bool" where
  "poll_keeps env A M k s s' \<longleftrightarrow> agents_inv env s' A M \<and> same_caller s s'
     \<and> (\<forall>f v. promised env f v s \<longrightarrow> promised env f v s')
     \<and> blade s' = blade s \<and> send_queue s' = send_queue s \<and> length (comp_queue s') = length (comp_queue s) - k"

lemma poll_recv:
  assumes inv: "agents_inv env s A M" and c: "comp_queue s = (p, WC_RECV) # cq"
  shows "\<exists>s'. poll_step s = Some (Ok () s') \<and> poll_keeps env A M 1 s s'"
proof -
  from inv have qi: "queue_inv s" and M: "pend (re_nic env) (write_bufs s) (send_queue s) (remote s) = M"
    and ex: "exch env s A" by (simp_all add: agents_inv_def)
  let ?oi = "\<lparr>op_fd = None, op_data = None, op_clear = None\<rparr>"
  have oi: "ops s p = Some ?oi" using qi c by (simp add: queue_inv_def comp_ok_def)
  let ?s = "s\<lparr>comp_queue := cq, recv_sem := False, ops := (ops s)(p := None)\<rparr>"
  have "queue_inv ?s" "load ?s = load s"
    using queue_inv_poll [OF qi c oi, of ?s] by (simp_all add: drop_buf_def)
  moreover have "exch env ?s A"
    using ex c by (auto simp: exch_def no_recv_def split: option.splits)
  moreover have "promised env f v ?s" if "promised env f v s" for f v
  proof -
    have "reading f ?s" if "reading f s"
      using that c oi by (auto simp: reading_def) (metis op_info.select_convs(1) option.distinct(1) option.inject)
    with that show ?thesis by (auto simp: promised_def)
  qed
  ultimately have "poll_keeps env A M 1 s ?s"
    using M c by (simp add: poll_keeps_def agents_inv_def same_caller_def unowned_def)
  moreover have "poll_step s = Some (Ok () ?s)"
    using c oi by (simp add: poll_step_def client_on_completion_def op_apply_def op_signal_def spin_signal_def)
  ultimately show ?thesis by blast
qed

text \<open>The state after the completion of a work request of the send queue.\<close>

definition retired :: "nat \<Rightarrow> op_info \<Rightarrow> nat \<Rightarrow> ('al, 'm) rdma_client \<Rightarrow> ('al, 'm) rdma_client" where
  "retired p oi f s = s\<lparr>comp_queue := tl (comp_queue s),
     live_regs := (if op_clear oi = None then live_regs s else live_regs s - 1),
     outstanding_send_wr := outstanding_send_wr s - 1,
     fds := (fds s)[f := (fds s ! f)\<lparr>result_available := True, fut_result := True, sem := False\<rparr>],
     write_bufs := drop_buf (op_data oi) (write_bufs s),
     ops := (ops s)(p := None)\<rparr>"

lemma poll_retired:
  assumes qi: "queue_inv s" and c: "comp_queue s = (p, opc) # cq" "opc \<noteq> WC_RECV"
  obtains oi f where "ops s p = Some oi" "op_fd oi = Some f" "f < length (fds s)"
    "poll_step s = Some (Ok () (retired p oi f s))"
proof -
  have "comp_ok s (p, opc)" using qi c(1) by (simp add: queue_inv_def)
  with c(2) obtain oi f where oi: "ops s p = Some oi" "op_fd oi = Some f" "f < length (fds s)" "opc \<noteq> WC_OTHER"
      "opc = WC_SEND \<Longrightarrow> op_data oi = None" "\<And>mem. op_clear oi = Some mem \<Longrightarrow> registered mem"
    by (auto simp: comp_ok_def)
  have "outstanding_send_wr s > 0" using load_word(1) [OF qi] c by (simp add: load_def)
  let ?s1 = "s\<lparr>comp_queue := cq, live_regs := (if op_clear oi = None then live_regs s else live_regs s - 1),
    fds := (fds s)[f := (fds s ! f)\<lparr>result_available := True, fut_result := True\<rparr>]\<rparr>"
  have ap: "op_apply oi (s\<lparr>comp_queue := cq\<rparr>) = Ok () ?s1"
    using oi(2,6) by (cases "op_clear oi") (simp_all add: op_apply_def mem_clear_def)
  have fr: "op_free oi t = t\<lparr>write_bufs := drop_buf (op_data oi) (write_bufs t)\<rparr>"
    for t :: "('a, 'b) rdma_client"
    by (simp add: op_free_def drop_buf_def split: option.split)
  have rt: "retire ?s1 = Ok () (?s1\<lparr>outstanding_send_wr := outstanding_send_wr s - 1\<rparr>)"
    using \<open>outstanding_send_wr s > 0\<close> by (simp add: retire_def)
  have "opc = WC_SEND \<or> opc = WC_RDMA_READ \<or> opc = WC_RDMA_WRITE" using c(2) oi(4) by (cases opc) simp_all
  then have "poll_step s = Some (Ok () (retired p oi f s))"
    using c(1) oi(1,2,3,5)
    by (elim disjE) (simp_all add: poll_step_def client_on_completion_def ap rt fr op_signal_def spin_signal_def retired_def)
  with that oi show ?thesis by blast
qed

lemma poll_any:
  assumes inv: "agents_inv env s A M"
  shows "\<exists>s'. poll_step s = Some (Ok () s') \<and> poll_keeps env A M 1 s s'"
proof (cases "comp_queue s")
  case Nil
  with inv show ?thesis by (simp add: poll_step_def poll_keeps_def)
next
  case (Cons c cq)
  from inv have qi: "queue_inv s" and M: "pend (re_nic env) (write_bufs s) (send_queue s) (remote s) = M"
    and ex: "exch env s A" by (simp_all add: agents_inv_def)
  obtain p opc where c: "c = (p, opc)" by (cases c)
  show ?thesis
  proof (cases "opc = WC_RECV")
    case True
    with poll_recv [OF inv] Cons c show ?thesis by simp
  next
    case False
    obtain oi f where oi: "ops s p = Some oi" "op_fd oi = Some f" "f < length (fds s)"
        "poll_step s = Some (Ok () (retired p oi f s))"
      using poll_retired [OF qi Cons [unfolded c] False] by metis
    let ?s = "retired p oi f s"
    note q = queue_inv_poll [OF qi Cons [unfolded c] oi(1), of ?s]
    have "queue_inv ?s" "load ?s \<le> load s" using q(1,2) False Cons by (simp_all add: retired_def)
    have keep: "write_bufs s b = write_bufs ?s b" if "WrWrite p' b n a \<in> set (send_queue s)" for p' b n a
      using q(3) [OF _ _ _ _ _ _ _ _ that] False Cons by (simp add: retired_def)
    have due': "due (re_nic env) (write_bufs ?s) g v (send_queue s) (remote s)
        = due (re_nic env) (write_bufs s) g v (send_queue s) (remote s)" for g v
      by (rule due_cong) (rule keep [symmetric])
    have pend': "pend (re_nic env) (write_bufs ?s) (send_queue s) (remote s) = M"
      unfolding M [symmetric] by (rule pend_cong) (rule keep [symmetric])
    have "exch env ?s A"
      using ex Cons c False by (simp add: exch_def no_recv_def retired_def split: option.splits prod.splits)
    moreover have "promised env g v ?s" if pr: "promised env g v s" for g v
    proof (cases "g = f")
      case True
      have "\<not> due (re_nic env) (write_bufs s) f v (send_queue s) (remote s)"
      proof
        assume "due (re_nic env) (write_bufs s) f v (send_queue s) (remote s)"
        then obtain p' n a where w: "WrRead p' (InFuture f) n a \<in> set (send_queue s)" using due_in by metis
        have "wr_ok s (WrRead p' (InFuture f) n a)" "ops_apart (ops s)" using qi w by (simp_all add: queue_inv_def)
        then have "p' = p" using oi(1,2) by (auto simp: wr_ok_def dest: ops_apartD(1))
        then have "p \<in> wr_op ` set (send_queue s)" using w by (metis image_eqI wr_op.simps(3))
        then show False using qi Cons c by (auto simp: queue_inv_def)
      qed
      with True pr oi(3) show ?thesis by (auto simp: promised_def retired_def)
    next
      case False
      have "reading g ?s" if "reading g s"
      proof -
        from that obtain q' oj where "(q', WC_RDMA_READ) \<in> set (comp_queue s)" "ops s q' = Some oj" "op_fd oj = Some g"
          by (auto simp: reading_def)
        with False oi(1,2) Cons c show ?thesis unfolding reading_def by (intro exI [of _ q'] exI [of _ oj]) (auto simp: retired_def)
      qed
      moreover have "fds ?s ! g = fds s ! g" "length (fds ?s) = length (fds s)" "send_queue ?s = send_queue s"
        "remote ?s = remote s"
        using False by (simp_all add: retired_def)
      ultimately show ?thesis using pr due' [of g v] unfolding promised_def by auto
    qed
    moreover have "unowned b bs ?s" if "unowned b bs s" for b bs
      using that oi(1) by (cases "op_data oi") (auto simp: unowned_def retired_def drop_buf_def)
    ultimately have "poll_keeps env A M 1 s ?s"
      using \<open>queue_inv ?s\<close> \<open>load ?s \<le> load s\<close> Cons pend'
      by (simp add: poll_keeps_def agents_inv_def same_caller_def) (simp add: retired_def)
    with oi(4) show ?thesis by blast
  qed
qed

subsection \<open>Runs of the agents\<close>

lemma run_cards:
  assumes codec: "blade_codec_documented (re_blade env)"
  shows "set mvs \<subseteq> {Card} \<Longrightarrow> agents_inv env s A M \<Longrightarrow>
    \<exists>s'. run_moves env mvs s = Some (Ok () s') \<and> card_keeps env A M (length mvs) s s'"
proof (induction mvs arbitrary: s)
  case (Cons mv mvs)
  from card_any [OF codec Cons.prems(2)] obtain s1 where
    1: "card_step env s = Some (Ok () s1)" "card_keeps env A M 1 s s1" by blast
  then have "agents_inv env s1 A M" by (simp add: card_keeps_def)
  from Cons.IH [OF _ this] Cons.prems(1) obtain s2 where
    2: "run_moves env mvs s1 = Some (Ok () s2)" "card_keeps env A M (length mvs) s1 s2" by auto
  have "card_keeps env A M (length (mv # mvs)) s s2"
    using 1(2) 2(2) by (auto simp: card_keeps_def intro: same_caller_trans)
  with 1 2 Cons.prems(1) show ?case by auto
qed (simp add: card_keeps_def)

lemma run_polls:
  "agents_inv env s A M \<Longrightarrow>
    \<exists>s'. run_moves env (replicate n Poll) s = Some (Ok () s') \<and> poll_keeps env A M n s s'"
proof (induction n arbitrary: s)
  case (Suc n)
  from poll_any [OF Suc.prems] obtain s1 where
    1: "poll_step s = Some (Ok () s1)" "poll_keeps env A M 1 s s1" by blast
  then have "agents_inv env s1 A M" by (simp add: poll_keeps_def)
  from Suc.IH [OF this] obtain s2 where
    2: "run_moves env (replicate n Poll) s1 = Some (Ok () s2)" "poll_keeps env A M n s1 s2" by blast
  have "poll_keeps env A M (Suc n) s s2"
    using 1(2) 2(2) by (auto simp: poll_keeps_def intro: same_caller_trans)
  with 1 2 show ?case by auto
qed (simp add: poll_keeps_def)

lemma run_moves_append:
  "run_moves env (ms @ ms') s = bindW (run_moves env ms s) (\<lambda>_. run_moves env ms')"
proof (induction ms arbitrary: s)
  case (Cons mv ms)
  then have "(\<lambda>_ :: unit. run_moves env (ms @ ms')) = (\<lambda>_ s. bindW (run_moves env ms s) (\<lambda>_. run_moves env ms'))"
    by (simp add: fun_eq_iff)
  then show ?case by (simp only: append.simps run_moves.simps bindW_assoc)
qed simp

text \<open>Waiting until the agents have done everything leaves no work request and no completion.\<close>

lemma settle_ok:
  assumes codec: "blade_codec_documented (re_blade env)" and inv: "agents_inv env s A M"
  obtains s' where "settle env s = Some (Ok () s')" "agents_inv env s' A M" "same_caller s s'"
    "\<And>f v. promised env f v s \<Longrightarrow> promised env f v s'" "send_queue s' = []" "comp_queue s' = []"
    "A = None \<longrightarrow> blade s' = blade s"
proof -
  let ?n = "length (send_queue s)"
  from run_cards [OF codec _ inv, of "replicate ?n Card"] obtain s1 where
    1: "run_moves env (replicate ?n Card) s = Some (Ok () s1)" "card_keeps env A M ?n s s1"
    by (auto simp: subset_iff)
  then have inv1: "agents_inv env s1 A M" by (simp add: card_keeps_def)
  from run_polls [OF this, of "2 * ?n + length (comp_queue s)"] obtain s2 where
    2: "run_moves env (replicate (2 * ?n + length (comp_queue s)) Poll) s1 = Some (Ok () s2)"
      "poll_keeps env A M (2 * ?n + length (comp_queue s)) s1 s2" by blast
  show ?thesis
  proof (rule that)
    show "settle env s = Some (Ok () s2)" using 1 2 by (simp add: settle_def run_moves_append)
    show "agents_inv env s2 A M" "send_queue s2 = []" "comp_queue s2 = []" "A = None \<longrightarrow> blade s2 = blade s"
      using 1(2) 2(2) by (auto simp: card_keeps_def poll_keeps_def)
    show "same_caller s s2" using 1(2) 2(2) by (auto simp: card_keeps_def poll_keeps_def intro: same_caller_trans)
    show "promised env f v s2" if "promised env f v s" for f v
      using that 1(2) 2(2) by (auto simp: card_keeps_def poll_keeps_def)
  qed
qed

text \<open>The polling thread does not run between the posting of a work request and the wait for it.\<close>

definition calm :: "('al, 'm) rdma_client \<Rightarrow> bool" where
  "calm s \<longleftrightarrow> (\<forall>mvs\<in>set (sched s). Poll \<notin> set mvs) \<and> True \<notin> set (post_errors s) \<and> True \<notin> set (reg_errors s)"

lemma race_ok:
  assumes codec: "blade_codec_documented (re_blade env)" and inv: "agents_inv env s A M" and calm: "calm s"
  obtains s' k where "race env s = Some (Ok () s')" "card_keeps env A M k (s\<lparr>sched := sched s'\<rparr>) s'" "calm s'"
proof (cases "sched s")
  case Nil
  have "s\<lparr>sched := sched s\<rparr> = s" by simp
  with inv have "card_keeps env A M 0 (s\<lparr>sched := sched s\<rparr>) s" by (simp only: card_keeps_def) simp
  with Nil calm that [of s 0] show ?thesis by (simp add: race_def)
next
  case (Cons mvs rest)
  let ?s = "s\<lparr>sched := rest\<rparr>"
  have "mv = Card" if "mv \<in> set mvs" for mv
    using calm Cons that by (cases mv) (auto simp: calm_def)
  then have mvs: "set mvs \<subseteq> {Card}" by blast
  have "agents_inv env ?s A M"
    using inv agents_inv_cong(1) [of ?s s A env M] by simp
  from run_cards [OF codec mvs this] obtain s' where
    s': "run_moves env mvs ?s = Some (Ok () s')" "card_keeps env A M (length mvs) ?s s'" by blast
  then have "sched s' = rest" "calm s'"
    using calm Cons by (auto simp: card_keeps_def same_caller_def calm_def)
  with s' Cons that [of s' "length mvs"] show ?thesis by (simp add: race_def)
qed

subsection \<open>Posting\<close>

definition posted ::
  "work_request \<Rightarrow> op_info \<Rightarrow> FutureData \<Rightarrow> ('al, 'm) rdma_client \<Rightarrow> ('al, 'm) rdma_client" where
  "posted wr oi fd s =
     s\<lparr>ops := (ops s)(next_ptr s \<mapsto> oi), next_ptr := Suc (next_ptr s), fds := fds s @ [fd],
       send_queue := send_queue s @ [wr], outstanding_send_wr := outstanding_send_wr s + 1\<rparr>"

lemma post_send_ok:
  assumes "queue_inv s" "load s < 500" "outstanding_send_wr t = outstanding_send_wr s" "True \<notin> set (post_errors t)"
  shows "post_send wr t = (True, t\<lparr>send_queue := send_queue t @ [wr],
    outstanding_send_wr := outstanding_send_wr t + 1, post_errors := tl (post_errors t)\<rparr>)"
proof -
  have "outstanding_send_wr t \<noteq> MAX_SEND_WR"
    using load_word(2) [OF assms(1)] assms(2,3) by (auto simp: MAX_SEND_WR_def)
  then show ?thesis using assms(4) by (auto simp: post_send_def Let_def split: list.split bool.split)
qed

lemma queue_inv_fresh:
  assumes "queue_inv s"
  shows "ops s (next_ptr s) = None" "wr \<in> set (send_queue s) \<Longrightarrow> wr_op wr \<noteq> next_ptr s"
    "c \<in> set (comp_queue s) \<Longrightarrow> fst c \<noteq> next_ptr s" "r \<in> set (recv_posted s) \<Longrightarrow> r \<noteq> next_ptr s"
proof -
  show f: "ops s (next_ptr s) = None" using assms by (simp add: queue_inv_def)
  show "wr_op wr \<noteq> next_ptr s" if "wr \<in> set (send_queue s)"
  proof -
    have "wr_ok s wr" using assms that by (simp add: queue_inv_def)
    with f show ?thesis by (cases wr) (auto simp: wr_ok_def)
  qed
  show "fst c \<noteq> next_ptr s" if "c \<in> set (comp_queue s)"
  proof -
    have "comp_ok s c" using assms that by (simp add: queue_inv_def)
    with f show ?thesis by (auto simp: comp_ok_def split: if_splits)
  qed
  show "r \<noteq> next_ptr s" if "r \<in> set (recv_posted s)"
  proof -
    have "ops s r \<noteq> None" using assms that by (simp add: queue_inv_def)
    with f show ?thesis by metis
  qed
qed

text \<open>A new \<^verbatim>\<open>RDMAOpInfo\<close> at a fresh pointer disturbs no work request in flight.\<close>

lemma queue_inv_new:
  assumes qi: "queue_inv s"
    and s': "send_queue s' = send_queue s" "comp_queue s' = comp_queue s" "recv_posted s' = recv_posted s"
      "ops s' = (ops s)(next_ptr s \<mapsto> oi)" "write_bufs s' = write_bufs s" "next_ptr s' = Suc (next_ptr s)"
      "length (fds s') \<ge> length (fds s)" "outstanding_send_wr s' = outstanding_send_wr s"
    and oi: "\<And>f. op_fd oi = Some f \<Longrightarrow> f = length (fds s) \<and> f < length (fds s')"
      "\<And>b. op_data oi = Some b \<Longrightarrow> \<exists>bs. unowned b bs s"
  shows "queue_inv s'" "load s' = load s"
proof -
  note new = queue_inv_fresh [OF qi]
  show l: "load s' = load s" using s' by (simp add: load_def)
  have wr: "wr_ok s' wr" if "wr \<in> set (send_queue s)" for wr
  proof -
    have "wr_ok s wr" using qi that by (simp add: queue_inv_def)
    with new(2) [OF that] s'(4,5,7) show ?thesis by (cases wr) (auto simp: wr_ok_def)
  qed
  have c: "comp_ok s' c" if "c \<in> set (comp_queue s)" for c
  proof -
    have "comp_ok s c" using qi that by (simp add: queue_inv_def)
    with new(3) [OF that] s'(4,7) show ?thesis by (auto simp: comp_ok_def split: if_splits)
  qed
  have rp: "ops s' r = Some \<lparr>op_fd = None, op_data = None, op_clear = None\<rparr>" if "r \<in> set (recv_posted s)" for r
    using qi that new(4) [OF that] s'(4) by (simp add: queue_inv_def)
  have old: "op_fd oj = Some f \<Longrightarrow> f < length (fds s)" "op_data oj = Some b \<Longrightarrow> b < next_ptr s"
    if "ops s q = Some oj" for q oj f b
    using qi that by (simp_all add: queue_inv_def)
  have ap: "ops_apart (ops s')"
  proof -
    have "ops_apart (ops s)" using qi by (simp add: queue_inv_def)
    moreover have "op_fd oj \<noteq> op_fd oi \<or> op_fd oi = None" "op_data oj \<noteq> op_data oi \<or> op_data oi = None"
      if "ops s q = Some oj" for q oj
      using old [OF that] oi that by (cases "op_fd oi", auto) (cases "op_data oi", auto simp: unowned_def)
    ultimately show ?thesis unfolding s'(4) ops_apart_def by (auto split: if_splits)
  qed
  have fd: "f < length (fds s')" if "ops s' q = Some oj" "op_fd oj = Some f" for q oj f
    using that oi(1) old s'(4,7) by (fastforce split: if_splits)
  have dat: "b < next_ptr s'" if "ops s' q = Some oj" "op_data oj = Some b" for q oj b
    using that oi(2) old(2) s'(4,6) by (fastforce simp: unowned_def split: if_splits)
  have fr: "\<forall>q\<ge>next_ptr s'. ops s' q = None \<and> write_bufs s' q = None"
    using qi by (simp add: queue_inv_def s'(4,5,6))
  have rest: "distinct (map wr_op (send_queue s) @ map fst (comp_queue s) @ recv_posted s)"
    "outstanding_send_wr s' = word_of_nat (load s')" "load s' \<le> 500"
    using qi l s'(8) by (simp_all add: queue_inv_def)
  show "queue_inv s'"
    unfolding queue_inv_def s'(1-3) by (intro conjI ballI allI impI) (use wr c rp rest ap fr fd dat in simp_all)
qed

lemma queue_inv_post:
  assumes qi: "queue_inv s" and load: "load s < 500" and wr: "wr_ok s' wr" "ops s (wr_op wr) = Some oi"
    "wr_op wr \<notin> wr_op ` set (send_queue s)" "wr_op wr \<notin> fst ` set (comp_queue s)" "wr_op wr \<notin> set (recv_posted s)"
    and s': "send_queue s' = send_queue s @ [wr]" "comp_queue s' = comp_queue s" "recv_posted s' = recv_posted s"
      "ops s' = ops s" "write_bufs s' = write_bufs s" "next_ptr s' = next_ptr s"
      "length (fds s') = length (fds s)" "outstanding_send_wr s' = outstanding_send_wr s + 1"
  shows "queue_inv s'" "load s' = Suc (load s)"
proof -
  show l: "load s' = Suc (load s)" using s' by (simp add: load_def)
  have out: "outstanding_send_wr s' = word_of_nat (load s')" using qi l s'(8) by (simp add: queue_inv_def)
  have d: "distinct (map wr_op (send_queue s @ [wr]) @ map fst (comp_queue s) @ recv_posted s)"
    using qi wr(3-5) by (auto simp: queue_inv_def)
  have w: "wr_ok s' w" if "w \<in> set (send_queue s @ [wr])" for w
    using that wr(1) qi wr_ok_cong [OF s'(4,5,7)] by (auto simp: queue_inv_def)
  have le: "load s' \<le> 500" using l load by simp
  show "queue_inv s'"
    using qi unfolding queue_inv_def comp_ok_cong [OF s'(4,7)] s'(1-7)
    by (elim conjE, intro conjI) (assumption | rule d out le | (rule ballI, erule w))+
qed

lemma queue_inv_posted:
  assumes qi: "queue_inv s" and load: "load s < 500" and wr: "wr_ok (posted wr oi fd s) wr" "wr_op wr = next_ptr s"
    and oi: "op_fd oi = Some (length (fds s))" "\<And>b. op_data oi = Some b \<Longrightarrow> \<exists>bs. unowned b bs s"
  shows "queue_inv (posted wr oi fd s)" "load (posted wr oi fd s) = Suc (load s)"
proof -
  let ?s = "s\<lparr>ops := (ops s)(next_ptr s \<mapsto> oi), next_ptr := Suc (next_ptr s), fds := fds s @ [fd]\<rparr>"
  have n: "queue_inv ?s" "load ?s = load s"
    by (rule queue_inv_new [OF qi, of ?s oi]; use oi in simp)+
  have f: "next_ptr s \<notin> wr_op ` set (send_queue s)" "next_ptr s \<notin> fst ` set (comp_queue s)"
    "next_ptr s \<notin> set (recv_posted s)"
    using queue_inv_fresh(2-4) [OF qi] by (metis imageE)+
  show "queue_inv (posted wr oi fd s)" "load (posted wr oi fd s) = Suc (load s)"
    using queue_inv_post [OF n(1) _ wr(1), of oi] n(2) load wr(2) f by (simp_all add: posted_def)
qed

subsection \<open>The waits of the caller\<close>

lemma fd_acquire_ok:
  assumes "agents_inv env s A M" "\<not> sem (fds s ! f)"
  obtains s' where "fd_acquire f s = Some (Ok () s')" "agents_inv env s' A M" "same_caller s s'"
    "s' = s\<lparr>fds := (fds s)[f := (fds s ! f)\<lparr>sem := True\<rparr>]\<rparr>"
proof (rule that)
  let ?s = "s\<lparr>fds := (fds s)[f := (fds s ! f)\<lparr>sem := True\<rparr>]\<rparr>"
  show "fd_acquire f s = Some (Ok () ?s)"
    using assms(2) by (simp add: fd_acquire_def spin_wait_def test_and_set_def)
  show "agents_inv env ?s A M" "same_caller s ?s"
    using assms(1) agents_inv_cong [of ?s s] by (simp_all add: same_caller_def unowned_def)
qed simp

lemma card_keeps_sem:
  "card_keeps env A M k s s' \<Longrightarrow> f < length (fds s) \<Longrightarrow> sem (fds s' ! f) = sem (fds s ! f)"
  by (auto simp: card_keeps_def same_caller_def dest: arg_cong [where f = "\<lambda>xs. xs ! f"])

text \<open>
  Posting a work request and waiting for the lock of its future: the lock of a new future is
  free, so the wait ends at once, whatever the card has done.
\<close>

lemma race_wait_ok:
  assumes codec: "blade_codec_documented (re_blade env)" and inv: "agents_inv env s A M" and calm: "calm s"
    and f: "f < length (fds s)" "\<not> sem (fds s ! f)" and p: "ops s p \<noteq> None"
  obtains s' where "bindW (race env s) (\<lambda>_. op_wait env p f) = Some (Ok () s')" "agents_inv env s' A M" "calm s'"
    "same_caller (s\<lparr>sched := sched s'\<rparr>) s'" "recv_sem s' = recv_sem s"
    "A = None \<longrightarrow> blade s' = blade s"
proof -
  from race_ok [OF codec inv calm] obtain s1 k where
    1: "race env s = Some (Ok () s1)" "card_keeps env A M k (s\<lparr>sched := sched s1\<rparr>) s1" "calm s1" .
  then have inv1: "agents_inv env s1 A M" and p1: "ops s1 p \<noteq> None" and f1: "\<not> sem (fds s1 ! f)"
    using p card_keeps_sem [OF 1(2), of f] f by (simp_all add: card_keeps_def)
  from fd_acquire_ok [OF inv1 f1] obtain s2 where
    2: "fd_acquire f s1 = Some (Ok () s2)" "agents_inv env s2 A M" "same_caller s1 s2"
      "s2 = s1\<lparr>fds := (fds s1)[f := (fds s1 ! f)\<lparr>sem := True\<rparr>]\<rparr>" .
  show ?thesis
  proof (rule that)
    show "bindW (race env s) (\<lambda>_. op_wait env p f) = Some (Ok () s2)"
      using 1(1) 2(1) p1 f1 by (simp add: op_wait_def fd_wait_def)
    show "calm s2" using 1(3) 2(4) by (simp add: calm_def)
    show "same_caller (s\<lparr>sched := sched s2\<rparr>) s2"
      using 1(2) 2(3,4) by (auto simp: card_keeps_def intro: same_caller_trans)
    show "recv_sem s2 = recv_sem s" "A = None \<longrightarrow> blade s2 = blade s"
      using 1(2) 2(4) by (simp_all add: card_keeps_def)
  qed (rule 2(2))
qed

subsection \<open>An exchange of messages\<close>

lemma queue_inv_recv:
  assumes qi: "queue_inv s" and r: "ops s r = Some \<lparr>op_fd = None, op_data = None, op_clear = None\<rparr>"
      "r \<notin> wr_op ` set (send_queue s)" "r \<notin> fst ` set (comp_queue s)" "r \<notin> set (recv_posted s)"
    and s': "send_queue s' = send_queue s" "comp_queue s' = comp_queue s" "recv_posted s' = recv_posted s @ [r]"
      "ops s' = ops s" "write_bufs s' = write_bufs s" "next_ptr s' = next_ptr s" "length (fds s') = length (fds s)"
      "outstanding_send_wr s' = outstanding_send_wr s"
  shows "queue_inv s'" "load s' = load s"
proof -
  show l: "load s' = load s" using s' by (simp add: load_def)
  have d: "distinct (map wr_op (send_queue s) @ map fst (comp_queue s) @ recv_posted s @ [r])"
    using qi r(2-4) by (auto simp: queue_inv_def)
  have p: "\<forall>r'\<in>set (recv_posted s @ [r]). ops s r' = Some \<lparr>op_fd = None, op_data = None, op_clear = None\<rparr>"
    using qi r(1) by (simp add: queue_inv_def)
  show "queue_inv s'"
    using qi unfolding queue_inv_def wr_ok_cong [OF s'(4,5,7)] comp_ok_cong [OF s'(4,7)] l s'
    by (elim conjE, intro conjI) (assumption | rule d p)+
qed

lemma queue_inv_post_receive:
  assumes qi: "queue_inv s"
  shows "queue_inv (post_receive s)" "load (post_receive s) = load s"
proof -
  let ?oi = "\<lparr>op_fd = None, op_data = None, op_clear = None\<rparr>"
  let ?s = "s\<lparr>ops := (ops s)(next_ptr s \<mapsto> ?oi), next_ptr := Suc (next_ptr s)\<rparr>"
  have n: "queue_inv ?s" "load ?s = load s" by (rule queue_inv_new [OF qi, of ?s ?oi]; simp)+
  have f: "next_ptr s \<notin> wr_op ` set (send_queue s)" "next_ptr s \<notin> fst ` set (comp_queue s)"
    "next_ptr s \<notin> set (recv_posted s)"
    using queue_inv_fresh(2-4) [OF qi] by (metis imageE)+
  show "queue_inv (post_receive s)"
    by (rule queue_inv_recv [OF n(1), of "next_ptr s"]) (use f in \<open>simp_all add: post_receive_def\<close>)
  show "load (post_receive s) = load s" by (simp add: load_def post_receive_def)
qed

lemma agents_inv_asked:
  assumes inv: "agents_inv env s None M" and load: "load s < 500"
    and msg: "take (unat n) (rc_send_msg s) = be_enc (re_blade env) msg"
    and h: "blade_handle (re_blade env) msg (blade s) = Ok rep b"
  shows "agents_inv env (posted (WrSend (Suc (next_ptr s)) n)
      \<lparr>op_fd = Some (length (fds s)), op_data = None, op_clear = None\<rparr> FutureData_new (post_receive s)) (Some (rep, b)) M"
    (is "agents_inv env ?s _ _")
proof -
  from inv have qi: "queue_inv s" and M: "pend (re_nic env) (write_bufs s) (send_queue s) (remote s) = M"
    and ex: "no_send (send_queue s)" "recv_posted s = []" "no_recv s" "recv_sem s"
    by (simp_all add: agents_inv_def exch_def)
  note r = queue_inv_post_receive [OF qi]
  have "queue_inv ?s"
    by (rule queue_inv_posted [OF r(1)]) (use load r(2) in \<open>simp_all add: wr_ok_def posted_def post_receive_def\<close>)
  moreover have "exch env ?s (Some (rep, b))"
    using ex msg h by (auto simp: exch_def posted_def post_receive_def no_recv_def)
  moreover have "pend (re_nic env) (write_bufs ?s) (send_queue ?s) (remote ?s) = M"
    using M by (simp add: posted_def post_receive_def)
  ultimately show ?thesis by (simp add: agents_inv_def)
qed

lemma answered:
  assumes "agents_inv env s (Some (rep, b)) M" "send_queue s = []" "comp_queue s = []"
  shows "\<not> recv_sem s" "agents_inv env (s\<lparr>recv_sem := True\<rparr>) None M" "blade s = b"
    "\<exists>rest. rc_recv_msg s = be_enc (re_blade env) rep @ rest" "load s = 0"
proof -
  let ?s = "s\<lparr>recv_sem := True\<rparr>"
  from assms have qi: "queue_inv s" and M: "remote s = M" and ex: "recv_posted s = []" "\<not> recv_sem s" "blade s = b"
      "\<exists>rest. rc_recv_msg s = be_enc (re_blade env) rep @ rest"
    by (auto simp: agents_inv_def exch_def no_recv_def)
  show "\<not> recv_sem s" "blade s = b" "\<exists>rest. rc_recv_msg s = be_enc (re_blade env) rep @ rest" by fact+
  show "load s = 0" using assms(2,3) by (simp add: load_def)
  have "queue_inv ?s"
    using qi queue_inv_cong(1) [of ?s s] by simp
  with assms(2,3) M ex show "agents_inv env ?s None M"
    by (simp add: agents_inv_def exch_def no_send_def no_recv_def)
qed

lemma client_send_message_ok:
  assumes "queue_inv s" "load s < 500" "True \<notin> set (post_errors s)"
  shows "client_send_message n (post_receive s) =
    (Some (Suc (next_ptr s), length (fds s)),
     (posted (WrSend (Suc (next_ptr s)) n) \<lparr>op_fd = Some (length (fds s)), op_data = None, op_clear = None\<rparr>
        FutureData_new (post_receive s))\<lparr>post_errors := tl (post_errors s)\<rparr>)"
proof -
  let ?s = "post_receive s"
  have "new_op ?s = (Suc (next_ptr s), length (fds s),
      ?s\<lparr>ops := (ops ?s)(Suc (next_ptr s) \<mapsto> \<lparr>op_fd = Some (length (fds s)), op_data = None, op_clear = None\<rparr>),
         next_ptr := Suc (Suc (next_ptr s)), fds := fds s @ [FutureData_new]\<rparr>)"
    by (simp add: new_op_def post_receive_def)
  then have e: "client_send_message n ?s = (let (ok, s2) = post_send (WrSend (Suc (next_ptr s)) n)
      (?s\<lparr>ops := (ops ?s)(Suc (next_ptr s) \<mapsto> \<lparr>op_fd = Some (length (fds s)), op_data = None, op_clear = None\<rparr>),
         next_ptr := Suc (Suc (next_ptr s)), fds := fds s @ [FutureData_new]\<rparr>)
      in (if ok then Some (Suc (next_ptr s), length (fds s)) else None, s2))"
    by (simp add: client_send_message_def)
  show ?thesis
    unfolding e
    by (subst post_send_ok [OF queue_inv_post_receive(1) [OF assms(1)]])
      (use assms(2,3) queue_inv_post_receive(2) [OF assms(1)] in \<open>simp_all add: posted_def post_receive_def\<close>)
qed

text \<open>
  A message gets its answer, and when the call returns every earlier work request has been
  executed and completed.
\<close>

lemma exchange_ok:
  assumes codec: "blade_codec_documented (re_blade env)" and inv: "agents_inv env s None M" and calm: "calm s"
    and load: "load s < 500" and msg: "take (unat n) (rc_send_msg s) = be_enc (re_blade env) msg"
    and h: "blade_handle (re_blade env) msg (blade s) = Ok rep b"
  obtains s' where "send_receive_message_sync env n s = Some (Ok True s')" "agents_inv env s' None M" "calm s'"
    "load s' = 0" "blade s' = b" "\<exists>rest. rc_recv_msg s' = be_enc (re_blade env) rep @ rest" "objects s' = objects s"
    "\<forall>b bs. unowned b bs s \<longrightarrow> unowned b bs s'"
proof -
  from inv have qi: "queue_inv s" and rs: "recv_sem s" by (simp_all add: agents_inv_def exch_def)
  let ?p = "posted (WrSend (Suc (next_ptr s)) n) \<lparr>op_fd = Some (length (fds s)), op_data = None, op_clear = None\<rparr>
    FutureData_new (post_receive s)"
  let ?s = "?p\<lparr>post_errors := tl (post_errors s)\<rparr>"
  have inv1: "agents_inv env ?s (Some (rep, b)) M"
    using agents_inv_asked [OF inv load msg h] agents_inv_cong(1) [of ?s ?p] by simp
  have fs: "fds ?s = fds s @ [FutureData_new]" "recv_sem ?s = recv_sem s" "objects ?s = objects s"
    by (simp_all add: posted_def post_receive_def)
  have own: "unowned c bs ?s" if "unowned c bs s" for c bs
    using that by (auto simp: unowned_def posted_def post_receive_def)
  have calm1: "calm ?s" using calm by (cases "post_errors s") (simp_all add: calm_def posted_def post_receive_def)
  have f: "length (fds s) < length (fds ?s)" "\<not> sem (fds ?s ! length (fds s))"
    unfolding fs by (simp_all add: FutureData_new_def SpinLock_new_def)
  have o: "ops ?s (Suc (next_ptr s)) \<noteq> None" by (simp add: posted_def post_receive_def)
  obtain s2 where 2: "bindW (race env ?s) (\<lambda>_. op_wait env (Suc (next_ptr s)) (length (fds s))) = Some (Ok () s2)"
      "agents_inv env s2 (Some (rep, b)) M" "calm s2" "same_caller (?s\<lparr>sched := sched s2\<rparr>) s2" "recv_sem s2 = recv_sem ?s"
    by (rule race_wait_ok [OF codec inv1 calm1 f o])
  from settle_ok [OF codec 2(2)] obtain s3 where 3: "settle env s2 = Some (Ok () s3)"
      "agents_inv env s3 (Some (rep, b)) M" "same_caller s2 s3" "send_queue s3 = []" "comp_queue s3 = []" by metis
  note a = answered [OF 3(2,4,5)]
  have w: "recv_wait env s2 = Some (Ok () (s3\<lparr>recv_sem := True\<rparr>))"
    using 2(5) rs fs(2) 3(1) a(1) by (simp add: recv_wait_def spin_wait_def test_and_set_def)
  show ?thesis
  proof (rule that)
    show "send_receive_message_sync env n s = Some (Ok True (s3\<lparr>recv_sem := True\<rparr>))"
      using 2(1) w calm client_send_message_ok [OF qi load, of n]
      by (simp add: send_receive_message_sync_def calm_def bindW_assoc [symmetric])
    show "agents_inv env (s3\<lparr>recv_sem := True\<rparr>) None M" "blade (s3\<lparr>recv_sem := True\<rparr>) = b"
      "\<exists>rest. rc_recv_msg (s3\<lparr>recv_sem := True\<rparr>) = be_enc (re_blade env) rep @ rest"
      "load (s3\<lparr>recv_sem := True\<rparr>) = 0"
      using a by (simp_all add: load_def)
    show "calm (s3\<lparr>recv_sem := True\<rparr>)" using 2(3) 3(3) by (simp add: calm_def same_caller_def)
    show "objects (s3\<lparr>recv_sem := True\<rparr>) = objects s" using 2(4) 3(3) fs(3) by (simp add: same_caller_def)
    show "\<forall>c bs. unowned c bs s \<longrightarrow> unowned c bs (s3\<lparr>recv_sem := True\<rparr>)"
      using own 2(4) 3(3) by (simp add: same_caller_def)
  qed
qed

end
