(* ===== verification/RDMA_Store.thy ===== *)
theory RDMA_Store
  imports RDMA_Agents
begin

text \<open>
  The calls of the client over RDMA and the store the caller sees: a map from ids to bytes, as
  long as an object keeps its size and the polling thread does not overtake the caller; and
  what happens otherwise.
\<close>

section \<open>The calls of the client\<close>

subsection \<open>Remote memory\<close>

lemma blade_alloc_answers:
  assumes doc: "allocator_documented (be_alloc env) blocks pool"
    and inv: "blade_inv env blocks pool sz s L" and pool: "be_pool env \<noteq> None"
  obtains i p k s' where "blade_handle env (Alloc n) s = Ok (AllocAck i p k) s'" "p \<noteq> 0 \<Longrightarrow> L p = None"
    "p = 0 \<Longrightarrow> \<exists>a. allocator s' = Some a \<and> al_allocate (be_alloc env) n a = None"
proof -
  obtain r s1 where s1: "ensure_pool env s = Ok r s1"
    using pool by (cases "allocator s") (auto simp: ensure_pool_def create_pool_def)
  then obtain a where a: "allocator s1 = Some a" "blocks a = L"
    using inv documented_create [OF doc]
    by (auto simp: ensure_pool_def create_pool_def blade_inv_def split: option.splits if_splits)
  show ?thesis
  proof (cases "al_allocate (be_alloc env) n a")
    case None
    with s1 a that show ?thesis by (simp add: blade_handle_def handle_alloc_def)
  next
    case (Some pa)
    with s1 a that documented_allocate(1,2) [OF doc, of n a "fst pa" "snd pa"] show ?thesis
      by (cases pa) (simp add: blade_handle_def handle_alloc_def)
  qed
qed

lemma blade_dealloc_answers:
  assumes doc: "allocator_documented (be_alloc env) blocks pool"
    and inv: "blade_inv env blocks pool sz s L" and live: "L p \<noteq> None"
  obtains s' where "blade_handle env (Dealloc p) s = Ok (DeallocAck 1) s'"
proof -
  from inv live obtain a where a: "allocator s = Some a" "blocks a = L"
    by (auto simp: blade_inv_def split: option.splits)
  with documented_deallocate(1) [OF doc, of a p] live obtain a' where "al_deallocate (be_alloc env) p a = Some a'" by auto
  with a that show ?thesis by (simp add: blade_handle_def ensure_pool_def handle_dealloc_def)
qed

lemma exchange_of:
  assumes codec: "blade_codec_documented (re_blade env)" and inv: "agents_inv env s None M" and calm: "calm s"
    and load: "load s < 500" and h: "blade_handle (re_blade env) msg (blade s) = Ok rep b"
  defines "m \<equiv> be_enc (re_blade env) msg"
  obtains s' where "send_receive_message_sync env (word_of_nat (length m))
      (s\<lparr>rc_send_msg := m @ drop (length m) (rc_send_msg s)\<rparr>) = Some (Ok True s')"
    "agents_inv env s' None M" "calm s'" "load s' = 0" "blade s' = b"
    "be_dec (re_blade env) (rc_recv_msg s') = Some rep" "objects s' = objects s"
    "\<forall>b bs. unowned b bs s \<longrightarrow> unowned b bs s'"
proof -
  let ?s = "s\<lparr>rc_send_msg := m @ drop (length m) (rc_send_msg s)\<rparr>"
  have "length m \<le> 1000" using codec by (simp add: blade_codec_documented_def m_def)
  then have n: "unat (word_of_nat (length m) :: u64) = length m"
    by (simp add: unat_of_nat take_bit_nat_eq_self)
  have inv': "agents_inv env ?s None M" and l: "load ?s = load s"
    using inv agents_inv_cong [of ?s s None] by simp_all
  have calm': "calm ?s" using calm by (simp add: calm_def)
  have h': "blade_handle (re_blade env) msg (blade ?s) = Ok rep b" and load': "load ?s < 500"
    and msg: "take (unat (word_of_nat (length m) :: u64)) (rc_send_msg ?s) = be_enc (re_blade env) msg"
    using h load l n by (simp_all add: m_def)
  obtain s' where s': "send_receive_message_sync env (word_of_nat (length m)) ?s = Some (Ok True s')"
      "agents_inv env s' None M" "calm s'" "load s' = 0" "blade s' = b"
      "\<exists>rest. rc_recv_msg s' = be_enc (re_blade env) rep @ rest" "objects s' = objects ?s"
      "\<forall>b bs. unowned b bs ?s \<longrightarrow> unowned b bs s'"
    by (rule exchange_ok [OF codec inv' calm' load' msg h'])
  moreover have "be_dec (re_blade env) (rc_recv_msg s') = Some rep"
    using s'(6) codec by (auto simp: blade_codec_documented_def)
  ultimately show ?thesis using that by simp
qed

lemma new_buf_ok:
  assumes inv: "agents_inv env s None M"
  obtains s' where "new_buf bs s = (next_ptr s, s')" "agents_inv env s' None M" "unowned (next_ptr s) bs s'"
    "load s' = load s" "objects s' = objects s" "blade s' = blade s" "calm s' = calm s"
proof -
  let ?s = "s\<lparr>write_bufs := (write_bufs s)(next_ptr s \<mapsto> bs), next_ptr := Suc (next_ptr s)\<rparr>"
  from inv have qi: "queue_inv s" and M: "pend (re_nic env) (write_bufs s) (send_queue s) (remote s) = M"
    and ex: "exch env s None" by (simp_all add: agents_inv_def)
  have fresh: "write_bufs s (next_ptr s) = None" and dat: "\<And>p oi b. ops s p = Some oi \<Longrightarrow> op_data oi = Some b \<Longrightarrow> b < next_ptr s"
    using qi by (simp_all add: queue_inv_def)
  have keep: "write_bufs s b = write_bufs ?s b" if "WrWrite p b n a \<in> set (send_queue s)" for p b n a
  proof -
    have "wr_ok s (WrWrite p b n a)" using qi that by (simp add: queue_inv_def)
    with fresh show ?thesis by (auto simp: wr_ok_def)
  qed
  have wr: "wr_ok ?s w" if "w \<in> set (send_queue s)" for w
  proof -
    have "wr_ok s w" using qi that by (simp add: queue_inv_def)
    with keep that show ?thesis by (cases w) (auto simp: wr_ok_def)
  qed
  have c: "comp_ok ?s = comp_ok s" "load ?s = load s"
    by (rule comp_ok_cong) (simp_all add: load_def)
  have fr: "\<forall>p\<ge>Suc (next_ptr s). ops s p = None \<and> ((write_bufs s)(next_ptr s \<mapsto> bs)) p = None"
    and dt: "\<forall>p oi b. ops s p = Some oi \<longrightarrow> op_data oi = Some b \<longrightarrow> b < Suc (next_ptr s)"
    using qi dat by (simp_all add: queue_inv_def less_Suc_eq)
  have "queue_inv ?s"
    using qi fr dt unfolding queue_inv_def c
    by (elim conjE, intro conjI) (simp_all add: wr)
  moreover have "pend (re_nic env) (write_bufs ?s) (send_queue s) (remote s) = M"
    unfolding M [symmetric] by (rule pend_cong) (rule keep [symmetric])
  moreover have "exch env ?s None" using ex by (simp add: exch_def no_recv_def)
  ultimately have "agents_inv env ?s None M" by (simp add: agents_inv_def)
  moreover have "unowned (next_ptr s) bs ?s" using dat by (auto simp: unowned_def)
  ultimately show ?thesis using that [of ?s] c(2) by (simp add: new_buf_def calm_def)
qed

lemma prepare_ok:
  assumes "\<not> registered mem" "True \<notin> set (reg_errors s)"
  shows "prepare mem s = Some (Ok (mem\<lparr>registered := True\<rparr>) (s\<lparr>reg_errors := tl (reg_errors s), live_regs := live_regs s + 1\<rparr>))"
  using assms by (auto simp: prepare_def split: list.split bool.split)

text \<open>
  A synchronous write returns once it is posted: the remote memory it leaves is the one in
  which the work requests still in the queue have been executed.
\<close>

lemma writeRemote_ok:
  assumes codec: "blade_codec_documented (re_blade env)" and inv: "agents_inv env s None M" and calm: "calm s"
    and load: "load s < 500" and buf: "unowned b bs s"
    and n: "unat (loc_size loc) \<le> length bs" "unat (loc_size loc) \<le> SEND_MSG_SIZE"
  obtains s' where "writeRemote env b loc s = Some (Ok True s')"
    "agents_inv env s' None (nic_write (re_nic env) (remote_addr (allocRec loc)) (take (unat (loc_size loc)) bs) M)"
    "calm s'" "load s' \<le> Suc (load s)" "objects s' = objects s" "blade s' = blade s"
proof -
  let ?n = "loc_size loc" and ?a = "remote_addr (allocRec loc)"
  let ?M = "nic_write (re_nic env) ?a (take (unat ?n) bs) M"
  let ?s0 = "s\<lparr>reg_errors := tl (reg_errors s), live_regs := live_regs s + 1\<rparr>"
  let ?oi = "\<lparr>op_fd = Some (length (fds s)), op_data = Some b, op_clear = None\<rparr>"
  let ?p = "posted (WrWrite (next_ptr s) b ?n ?a) ?oi FutureData_new ?s0"
  let ?s1 = "?p\<lparr>post_errors := tl (post_errors s)\<rparr>"
  have inv0: "agents_inv env ?s0 None M" and l0: "load ?s0 = load s"
    using inv agents_inv_cong [of ?s0 s None] by simp_all
  from inv0 have qi0: "queue_inv ?s0" and M: "pend (re_nic env) (write_bufs s) (send_queue s) (remote s) = M"
    and ex: "exch env ?s0 None" by (simp_all add: agents_inv_def)
  have qp: "queue_inv ?p" "load ?p = Suc (load ?s0)"
    by (rule queue_inv_posted [OF qi0];
        use load l0 buf n(1) in \<open>auto simp: wr_ok_def posted_def unowned_def\<close>)+
  have "exch env ?p None" using ex by (simp add: exch_def posted_def no_recv_def no_send_def)
  moreover have "pend (re_nic env) (write_bufs ?p) (send_queue ?p) (remote ?p) = ?M"
    using M buf by (simp add: posted_def unowned_def)
  ultimately have "agents_inv env ?p None ?M" using qp(1) by (simp add: agents_inv_def)
  then have inv1: "agents_inv env ?s1 None ?M" and l1: "load ?s1 = Suc (load s)"
    using agents_inv_cong [of ?s1 ?p None] qp(2) l0 by simp_all
  have calm1: "calm ?s1"
    using calm by (cases "post_errors s"; cases "reg_errors s") (simp_all add: calm_def posted_def)
  have fs: "fds ?s1 = fds s @ [FutureData_new]" "ops ?s1 (next_ptr s) \<noteq> None" by (simp_all add: posted_def)
  then have f: "length (fds s) < length (fds ?s1)" "\<not> sem (fds ?s1 ! length (fds s))"
    by (simp_all add: FutureData_new_def SpinLock_new_def)
  obtain s2 where 2: "bindW (race env ?s1) (\<lambda>_. op_wait env (next_ptr s) (length (fds s))) = Some (Ok () s2)"
      "agents_inv env s2 None ?M" "calm s2" "same_caller (?s1\<lparr>sched := sched s2\<rparr>) s2" "recv_sem s2 = recv_sem ?s1"
      "(None :: (blade_message \<times> 'a blade_server) option) = None \<longrightarrow> blade s2 = blade ?s1"
    by (rule race_wait_ok [OF codec inv1 calm1 f fs(2)])
  show ?thesis
  proof (rule that)
    have "write_rdma_async (next_ptr s) ?n ?a b
        (?s0\<lparr>ops := (ops s)(next_ptr s \<mapsto> \<lparr>op_fd = Some (length (fds s)), op_data = None, op_clear = None\<rparr>),
             next_ptr := next_ptr s + 1, fds := fds s @ [FutureData_new]\<rparr>) = Some (Ok () ?s1)"
      unfolding write_rdma_async_def
      by (subst post_send_ok [OF qi0]) (use load l0 calm in \<open>simp_all add: calm_def posted_def\<close>)
    then have "write_rdma_sync env ?n ?a b ?s0 = Some (Ok True s2)"
      using 2(1) by (simp add: write_rdma_sync_def new_op_def bindW_assoc [symmetric])
    then show "writeRemote env b loc s = Some (Ok True s2)"
      using n(2) calm prepare_ok [of "(RDMAMem_new (InBuf b) ?n)\<lparr>mem_addr := InBuf b\<rparr>" s]
      by (simp add: writeRemote_def rdma_write_sync_def RDMAMem_new_def calm_def)
    show "agents_inv env s2 None ?M" "calm s2" by fact+
    show "load s2 \<le> Suc (load s)" "objects s2 = objects s" "blade s2 = blade s"
      using 2(4,6) l1 by (simp_all add: same_caller_def load_def posted_def)
  qed
qed

text \<open>Waiting for a promised read returns it.\<close>

lemma promised_sem:
  assumes "promised env f v s" "\<not> result_available (fds s ! f)"
  shows "promised env f v (s\<lparr>fds := (fds s)[f := (fds s ! f)\<lparr>sem := l\<rparr>]\<rparr>)"
proof -
  have "reading f (s\<lparr>fds := x\<rparr>) = reading f s" for x by (simp add: reading_def)
  with assms show ?thesis by (auto simp: promised_def)
qed

lemma promised_done:
  assumes "promised env f v s" "send_queue s = []" "comp_queue s = []"
  shows "result_available (fds s ! f)" "\<not> sem (fds s ! f)" "fut_data (fds s ! f) = Some v"
    "fut_error (fds s ! f) = kOk" "data_size (fds s ! f) = 0"
  using assms by (auto simp: promised_def reading_def split: if_splits)

lemma getDataPair_ok:
  assumes codec: "blade_codec_documented (re_blade env)" and inv: "agents_inv env s None M" and calm: "calm s"
    and pr: "promised env f v s" and new: "\<not> result_available (fds s ! f)" "\<not> sem (fds s ! f)"
  obtains s' where "rdma_getDataPair env f s = Some (Ok (v, 0) s')" "agents_inv env s' None M" "calm s'" "load s' = 0"
    "objects s' = objects s" "blade s' = blade s"
proof -
  let ?s1 = "s\<lparr>fds := (fds s)[f := (fds s ! f)\<lparr>sem := True\<rparr>]\<rparr>"
  from fd_acquire_ok [OF inv new(2)] have 1: "fd_acquire f s = Some (Ok () ?s1)" "agents_inv env ?s1 None M"
      "same_caller s ?s1" by metis+
  have f: "f < length (fds s)" using pr by (simp add: promised_def)
  have pr1: "promised env f v ?s1" using promised_sem [OF pr new(1)] .
  from settle_ok [OF codec 1(2)] pr1 obtain s2 where
    2: "settle env ?s1 = Some (Ok () s2)" "agents_inv env s2 None M" "same_caller ?s1 s2" "promised env f v s2"
      "send_queue s2 = []" "comp_queue s2 = []" "blade s2 = blade ?s1" by metis
  note d = promised_done [OF 2(4-6)]
  from fd_acquire_ok [OF 2(2) d(2)] obtain s3 where 3: "fd_acquire f s2 = Some (Ok () s3)" "agents_inv env s3 None M"
      "same_caller s2 s3" "s3 = s2\<lparr>fds := (fds s2)[f := (fds s2 ! f)\<lparr>sem := True\<rparr>]\<rparr>" .
  have f2: "f < length (fds s2)" using f 2(3) by (simp add: same_caller_def)
  have "rdma_wait env f s3 = Some (Ok () s3)"
    using d f2 3(4) by (subst rdma_wait.simps) simp
  moreover have "rdma_wait env f ?s1 = rdma_wait env f s3"
    using f new 2(1) 3(1) by (subst rdma_wait.simps) (simp add: fd_wait_def)
  moreover have "rdma_wait env f s = rdma_wait env f ?s1"
    using new 1(1) by (subst rdma_wait.simps) (simp add: fd_wait_def)
  ultimately have w: "rdma_wait env f s = Some (Ok () s3)" by simp
  show ?thesis
  proof (rule that)
    show "rdma_getDataPair env f s = Some (Ok (v, 0) s3)"
      using w d f2 3(4) by (simp add: rdma_getDataPair_def future_getDataPair_def future_get_def)
    show "agents_inv env s3 None M" by fact
    show "calm s3" "objects s3 = objects s" "blade s3 = blade s" "load s3 = 0"
      using calm 2(3,5-7) 3(4) by (simp_all add: calm_def same_caller_def load_def)
  qed
qed

lemma read_sync_ok:
  assumes codec: "blade_codec_documented (re_blade env)" and inv: "agents_inv env s None M" and calm: "calm s"
    and load: "load s < 500" and n: "unat (loc_size loc) \<le> RECV_MSG_SIZE"
  obtains s' where "bindW (readToLocalAsync env loc s) (rdma_getDataPair env) =
      Some (Ok (nic_read (re_nic env) (remote_addr (allocRec loc)) (unat (loc_size loc)) M, 0) s')"
    "agents_inv env s' None M" "calm s'" "load s' = 0" "objects s' = objects s" "blade s' = blade s"
proof -
  let ?n = "loc_size loc" and ?a = "remote_addr (allocRec loc)" and ?f = "length (fds s)"
  let ?v = "nic_read (re_nic env) ?a (unat ?n) M"
  let ?s0 = "s\<lparr>reg_errors := tl (reg_errors s), live_regs := live_regs s + 1\<rparr>"
  let ?mem = "(RDMAMem_new (InFuture ?f) ?n)\<lparr>registered := True\<rparr>"
  let ?oi = "\<lparr>op_fd = Some ?f, op_data = None, op_clear = Some ?mem\<rparr>"
  let ?fd = "FutureData_new\<lparr>fut_data := Some (uninit_buffer (re_uninit env) (unat ?n))\<rparr>"
  let ?p = "posted (WrRead (next_ptr s) (InFuture ?f) ?n ?a) ?oi ?fd ?s0"
  let ?s1 = "?p\<lparr>post_errors := tl (post_errors s)\<rparr>"
  have inv0: "agents_inv env ?s0 None M" and l0: "load ?s0 = load s"
    using inv agents_inv_cong [of ?s0 s None] by simp_all
  from inv0 have qi0: "queue_inv ?s0" and M: "pend (re_nic env) (write_bufs s) (send_queue s) (remote s) = M"
    and ex: "exch env ?s0 None" by (simp_all add: agents_inv_def)
  have qp: "queue_inv ?p" "load ?p = Suc (load ?s0)"
    by (rule queue_inv_posted [OF qi0]; use load l0 in \<open>simp add: wr_ok_def posted_def\<close>)+
  have "exch env ?p None" using ex by (simp add: exch_def posted_def no_recv_def no_send_def)
  moreover have "pend (re_nic env) (write_bufs ?p) (send_queue ?p) (remote ?p) = M" using M by (simp add: posted_def)
  ultimately have "agents_inv env ?p None M" using qp(1) by (simp add: agents_inv_def)
  then have inv1: "agents_inv env ?s1 None M" using agents_inv_cong(1) [of ?s1 ?p None] by simp
  have calm1: "calm ?s1"
    using calm by (cases "post_errors s"; cases "reg_errors s") (simp_all add: calm_def posted_def)
  have none: "\<forall>p n a. WrRead p (InFuture ?f) n a \<notin> set (send_queue s)"
  proof (intro allI notI)
    fix p n a assume "WrRead p (InFuture ?f) n a \<in> set (send_queue s)"
    then have "wr_ok ?s0 (WrRead p (InFuture ?f) n a)" using qi0 by (simp add: queue_inv_def)
    then show False by (simp add: wr_ok_def)
  qed
  have fd: "fds ?s1 ! ?f = ?fd" by (simp add: posted_def)
  have pr: "promised env ?f ?v ?s1"
    using due_last [OF none, of "re_nic env" "write_bufs s" ?v "next_ptr s" ?n ?a "remote s"] M
    by (simp add: promised_def posted_def FutureData_new_def)
  have new: "\<not> result_available (fds ?s1 ! ?f)" "\<not> sem (fds ?s1 ! ?f)"
    unfolding fd by (simp_all add: FutureData_new_def SpinLock_new_def)
  from getDataPair_ok [OF codec inv1 calm1 pr new] obtain s2 where
    2: "rdma_getDataPair env ?f ?s1 = Some (Ok (?v, 0) s2)" "agents_inv env s2 None M" "calm s2" "load s2 = 0"
      "objects s2 = objects ?s1" "blade s2 = blade ?s1" .
  have "read_rdma_async (next_ptr s) ?n ?a (InFuture ?f)
      (?s0\<lparr>next_ptr := Suc (next_ptr s), ops := (ops s)(next_ptr s \<mapsto> ?oi), fds := fds s @ [?fd]\<rparr>) = Some (Ok () ?s1)"
    unfolding read_rdma_async_def
    by (subst post_send_ok [OF qi0]) (use load l0 calm in \<open>simp_all add: calm_def posted_def\<close>)
  then have "readToLocalAsync env loc s = Some (Ok ?f ?s1)"
    using n calm prepare_ok [of "RDMAMem_new (InFuture ?f) ?n" s]
    by (simp add: readToLocalAsync_def rdma_read_async_def RDMAMem_new_def calm_def new_op_def)
  with that 2 show ?thesis by (simp add: posted_def)
qed

section \<open>The store the caller sees\<close>

text \<open>
  What is documented of the remote memory: a read gives as many bytes as it asks for, a
  write is read back, and it changes nothing outside the bytes it covers.
\<close>

definition verbs_documented :: "'m rnic \<Rightarrow> bool" where
  "verbs_documented nic \<longleftrightarrow>
     (\<forall>a n m. length (nic_read nic a n m) = n) \<and>
     (\<forall>a bs m. nic_read nic a (length bs) (nic_write nic a bs m) = bs) \<and>
     (\<forall>a bs b n m. span a (length bs) \<inter> span b n = {} \<longrightarrow> nic_read nic b n (nic_write nic a bs m) = nic_read nic b n m)"

text \<open>
  The objects of the client against the remote memory \<open>M\<close> and the live allocations \<open>B\<close>:
  each has a block of its own, of its size.
\<close>

definition stored :: "('al, 'm) rdma_env \<Rightarrow> 'm \<Rightarrow> BladeLocation \<Rightarrow> byte list" where
  "stored env M loc = nic_read (re_nic env) (remote_addr (allocRec loc)) (unat (loc_size loc)) M"

definition objects_ok ::
  "('al, 'm) rdma_env \<Rightarrow> (ObjectID \<times> BladeLocation) list \<Rightarrow> 'm \<Rightarrow> (u64 \<rightharpoonup> nat) \<Rightarrow> (ObjectID \<rightharpoonup> byte list) \<Rightarrow> bool" where
  "objects_ok env obs M B L \<longleftrightarrow>
     L = map_option (stored env M) \<circ> map_of obs
     \<and> (\<forall>oid loc. map_of obs oid = Some loc \<longrightarrow>
          B (remote_addr (allocRec loc)) = Some (unat (loc_size loc)) \<and> unat (loc_size loc) \<le> SEND_MSG_SIZE)
     \<and> (\<forall>oid oid' loc loc'. map_of obs oid = Some loc \<longrightarrow> map_of obs oid' = Some loc' \<longrightarrow>
          remote_addr (allocRec loc) = remote_addr (allocRec loc') \<longrightarrow> oid = oid')"

definition store_inv ::
  "('al, 'm) rdma_env \<Rightarrow> ('al \<Rightarrow> (u64 \<rightharpoonup> nat)) \<Rightarrow> ('al \<Rightarrow> nat set) \<Rightarrow> u64 \<Rightarrow> ('al, 'm) rdma_client
    \<Rightarrow> (ObjectID \<rightharpoonup> byte list) \<Rightarrow> bool" where
  "store_inv env blocks pool sz s L \<longleftrightarrow>
     (\<exists>M B. agents_inv env s None M \<and> calm s \<and> blade_inv (re_blade env) blocks pool sz (blade s) B
        \<and> objects_ok env (objects s) M B L)"

lemma blade_inv_apart: "blade_inv env blocks pool sz b B \<Longrightarrow> \<exists>A. apart B A"
  by (auto simp: blade_inv_def apart_def split: option.splits)

text \<open>A write into the block of one object, or into a block no object has.\<close>

lemma objects_ok_write:
  assumes verbs: "verbs_documented (re_nic env)" and ok: "objects_ok env obs M B L" and apart: "apart B A"
    and loc: "B (remote_addr (allocRec loc)) = Some (length bs)" "length bs = unat (loc_size loc)" "length bs \<le> SEND_MSG_SIZE"
    and own: "\<And>oid' loc'. map_of obs oid' = Some loc' \<Longrightarrow>
      remote_addr (allocRec loc') = remote_addr (allocRec loc) \<Longrightarrow> oid' = oid"
    and obs': "map_of obs' = (map_of obs)(oid \<mapsto> loc)"
  shows "objects_ok env obs' (nic_write (re_nic env) (remote_addr (allocRec loc)) bs M) B (L(oid \<mapsto> bs))"
proof -
  let ?M = "nic_write (re_nic env) (remote_addr (allocRec loc)) bs M"
  have new: "stored env ?M loc = bs"
    using verbs loc(2) by (simp add: stored_def verbs_documented_def) (metis)
  have old: "stored env ?M loc' = stored env M loc'" if "map_of obs oid' = Some loc'" "oid' \<noteq> oid" for oid' loc'
  proof -
    have "B (remote_addr (allocRec loc')) = Some (unat (loc_size loc'))" using ok that by (simp add: objects_ok_def)
    moreover have "remote_addr (allocRec loc') \<noteq> remote_addr (allocRec loc)" using own that by blast
    ultimately have "span (remote_addr (allocRec loc)) (length bs)
        \<inter> span (remote_addr (allocRec loc')) (unat (loc_size loc')) = {}"
      using apart loc(1) unfolding apart_def by metis
    with verbs show ?thesis by (simp add: stored_def verbs_documented_def)
  qed
  have L: "L = map_option (stored env M) \<circ> map_of obs" using ok by (simp add: objects_ok_def)
  have "L(oid \<mapsto> bs) = map_option (stored env ?M) \<circ> map_of obs'"
  proof
    fix x
    show "(L(oid \<mapsto> bs)) x = (map_option (stored env ?M) \<circ> map_of obs') x"
      using new old [of x] by (cases "map_of obs x") (auto simp: L obs')
  qed
  with ok loc own show ?thesis unfolding objects_ok_def obs' by (auto split: if_splits)
qed

lemma objects_ok_delete:
  assumes "objects_ok env obs M B L" "map_of obs oid = Some loc"
  shows "objects_ok env (AList.delete oid obs) M (B(remote_addr (allocRec loc) := None)) (L(oid := None))"
proof -
  have "remote_addr (allocRec loc') \<noteq> remote_addr (allocRec loc)" if "map_of obs oid' = Some loc'" "oid' \<noteq> oid" for oid' loc'
    using assms that unfolding objects_ok_def by metis
  with assms show ?thesis
    unfolding objects_ok_def delete_conv' by (auto simp: fun_eq_iff split: if_splits)
qed

subsection \<open>Calls\<close>

datatype rdma_call = RPut ObjectID write_unit | RGet ObjectID | RRemove ObjectID

definition rdma_do ::
  "('al, 'm) rdma_env \<Rightarrow> rdma_call \<Rightarrow> ('al, 'm) rdma_client \<Rightarrow> (byte list option, ('al, 'm) rdma_client) call" where
  "rdma_do env c s =
     (case c of
        RPut oid w \<Rightarrow> bindW (rdma_write_sync_obj env oid w s) (\<lambda>_ s1. Some (Ok None s1))
      | RGet oid \<Rightarrow> bindW (rdma_read_sync_obj env oid s) (\<lambda>p s1. Some (Ok (Some (fst p)) s1))
      | RRemove oid \<Rightarrow> bindW (rdma_remove env oid s) (\<lambda>_ s1. Some (Ok None s1)))"

fun rdma_run ::
  "('al, 'm) rdma_env \<Rightarrow> rdma_call list \<Rightarrow> ('al, 'm) rdma_client
    \<Rightarrow> (byte list option list, ('al, 'm) rdma_client) call" where
  "rdma_run env [] s = Some (Ok [] s)"
| "rdma_run env (c # cs) s =
     bindW (rdma_do env c s) (\<lambda>r s1. bindW (rdma_run env cs s1) (\<lambda>rs s2. Some (Ok (r # rs) s2)))"

text \<open>The same calls on a map from ids to the bytes of the objects.\<close>

fun map_answer :: "rdma_call \<Rightarrow> (ObjectID \<rightharpoonup> byte list) \<Rightarrow> byte list option" where
  "map_answer (RPut oid w) L = None"
| "map_answer (RGet oid) L = L oid"
| "map_answer (RRemove oid) L = None"

fun map_after :: "(nat \<Rightarrow> byte) \<Rightarrow> rdma_call \<Rightarrow> (ObjectID \<rightharpoonup> byte list) \<Rightarrow> (ObjectID \<rightharpoonup> byte list)" where
  "map_after u (RPut oid w) L = L(oid := serialized u w)"
| "map_after u (RGet oid) L = L"
| "map_after u (RRemove oid) L = L(oid := None)"

fun map_answers :: "(nat \<Rightarrow> byte) \<Rightarrow> rdma_call list \<Rightarrow> (ObjectID \<rightharpoonup> byte list) \<Rightarrow> byte list option list" where
  "map_answers u [] L = []"
| "map_answers u (c # cs) L = map_answer c L # map_answers u cs (map_after u c L)"

text \<open>
  A proper call: a put serializes to the size it announces, at most that of a message, and
  an object is only overwritten by one of its size; a get and a remove name an object there is.
\<close>

fun rdma_proper :: "(nat \<Rightarrow> byte) \<Rightarrow> rdma_call \<Rightarrow> (ObjectID \<rightharpoonup> byte list) \<Rightarrow> bool" where
  "rdma_proper u (RPut oid w) L =
     (case serialized u w of
        None \<Rightarrow> False
      | Some bs \<Rightarrow> length bs = unat (wu_size w) \<and> length bs \<le> SEND_MSG_SIZE
          \<and> (case L oid of None \<Rightarrow> True | Some old \<Rightarrow> length old = length bs))"
| "rdma_proper u (RGet oid) L = (L oid \<noteq> None)"
| "rdma_proper u (RRemove oid) L = (L oid \<noteq> None)"

fun rdma_proper_run :: "(nat \<Rightarrow> byte) \<Rightarrow> rdma_call list \<Rightarrow> (ObjectID \<rightharpoonup> byte list) \<Rightarrow> bool" where
  "rdma_proper_run u [] L = True"
| "rdma_proper_run u (c # cs) L = (rdma_proper u c L \<and> rdma_proper_run u cs (map_after u c L))"

text \<open>What the parameters have to satisfy.\<close>

definition rdma_documented ::
  "('al, 'm) rdma_env \<Rightarrow> ('al \<Rightarrow> (u64 \<rightharpoonup> nat)) \<Rightarrow> ('al \<Rightarrow> nat set) \<Rightarrow> bool" where
  "rdma_documented env blocks pool \<longleftrightarrow> blade_codec_documented (re_blade env)
     \<and> allocator_documented (be_alloc (re_blade env)) blocks pool \<and> be_pool (re_blade env) \<noteq> None
     \<and> verbs_documented (re_nic env)"

text \<open>
  The call answers as the map does and keeps the invariant, or it is a put and the allocator
  of the server refuses its size.
\<close>

definition refused :: "('al, 'm) rdma_env \<Rightarrow> u64 \<Rightarrow> ('al, 'm) rdma_client \<Rightarrow> bool" where
  "refused env n s \<longleftrightarrow> (\<exists>a. allocator (blade s) = Some a \<and> al_allocate (be_alloc (re_blade env)) n a = None)"

definition rdma_answers ::
  "('al, 'm) rdma_env \<Rightarrow> ('al \<Rightarrow> (u64 \<rightharpoonup> nat)) \<Rightarrow> ('al \<Rightarrow> nat set) \<Rightarrow> u64 \<Rightarrow> rdma_call
    \<Rightarrow> ('al, 'm) rdma_client \<Rightarrow> (ObjectID \<rightharpoonup> byte list) \<Rightarrow> bool" where
  "rdma_answers env blocks pool sz c s L \<longleftrightarrow>
     (\<exists>s'. rdma_do env c s = Some (Ok (map_answer c L) s')
        \<and> store_inv env blocks pool sz s' (map_after (re_uninit env) c L) \<and> load s' \<le> Suc (load s))
     \<or> (\<exists>oid w e s'. c = RPut oid w \<and> rdma_do env c s = Some (Throw (ServerMemoryErrorException e) s')
        \<and> refused env (wu_size w) s')"

lemma rdma_allocate_ok:
  assumes doc: "rdma_documented env blocks pool" and inv: "agents_inv env s None M" and calm: "calm s"
    and load: "load s < 500" and B: "blade_inv (re_blade env) blocks pool sz (blade s) B"
  obtains (memory) e s' where "rdma_allocate env n s = Some (Throw (ServerMemoryErrorException e) s')" "refused env n s'"
    | (block) ar s' where "rdma_allocate env n s = Some (Ok ar s')" "agents_inv env s' None M" "calm s'" "load s' = 0"
      "blade_inv (re_blade env) blocks pool sz (blade s') (B(remote_addr ar \<mapsto> unat n))" "B (remote_addr ar) = None"
      "objects s' = objects s" "\<forall>b bs. unowned b bs s \<longrightarrow> unowned b bs s'"
proof -
  from doc have codec: "blade_codec_documented (re_blade env)"
    and al: "allocator_documented (be_alloc (re_blade env)) blocks pool" and pool: "be_pool (re_blade env) \<noteq> None"
    by (simp_all add: rdma_documented_def)
  obtain i p k b where h: "blade_handle (re_blade env) (Alloc n) (blade s) = Ok (AllocAck i p k) b" "p \<noteq> 0 \<Longrightarrow> B p = None"
      "p = 0 \<Longrightarrow> \<exists>a. allocator b = Some a \<and> al_allocate (be_alloc (re_blade env)) n a = None"
    using blade_alloc_answers [OF al B pool] by metis
  from exchange_of [OF codec inv calm load h(1)] obtain s' where
    s': "send_receive_message_sync env (word_of_nat (length (be_enc (re_blade env) (Alloc n))))
        (s\<lparr>rc_send_msg := be_enc (re_blade env) (Alloc n) @ drop (length (be_enc (re_blade env) (Alloc n))) (rc_send_msg s)\<rparr>)
        = Some (Ok True s')"
      "agents_inv env s' None M" "calm s'" "load s' = 0" "blade s' = b"
      "be_dec (re_blade env) (rc_recv_msg s') = Some (AllocAck i p k)" "objects s' = objects s"
      "\<forall>b bs. unowned b bs s \<longrightarrow> unowned b bs s'" by metis
  have b: "blade_inv (re_blade env) blocks pool sz b (live_step (Alloc n, AllocAck i p k) B)"
    using blade_handle_inv [OF al B h(1)] .
  show ?thesis
  proof (cases "p = 0")
    case True
    with s'(1,5,6) h(3) memory show ?thesis by (simp add: rdma_allocate_def Let_def refused_def)
  next
    case False
    let ?ar = "\<lparr>alloc_id = ucast i, remote_addr = p, peer_rkey = k\<rparr>"
    show ?thesis
    proof (rule block [of ?ar s'])
      show "rdma_allocate env n s = Some (Ok ?ar s')" using False s'(1,6) by (simp add: rdma_allocate_def Let_def)
    qed (use False s' b h(2) in simp_all)
  qed
qed

text \<open>
  Overwriting an object: the client keeps the size of the first write, and a longer object
  is cut to it.
\<close>

lemma longer_put_answers:
  assumes doc: "rdma_documented env blocks pool" and inv: "store_inv env blocks pool sz s L" and load: "load s < 500"
    and old: "L oid = Some old" and w: "serialized (re_uninit env) w = Some bs" "length old \<le> length bs"
  obtains s' where "rdma_do env (RPut oid w) s = Some (Ok None s')"
    "store_inv env blocks pool sz s' (L(oid \<mapsto> take (length old) bs))" "load s' \<le> Suc (load s)"
proof -
  from doc have codec: "blade_codec_documented (re_blade env)" and verbs: "verbs_documented (re_nic env)"
    by (simp_all add: rdma_documented_def)
  from inv obtain M B where i: "agents_inv env s None M" "calm s" "blade_inv (re_blade env) blocks pool sz (blade s) B"
      "objects_ok env (objects s) M B L" by (auto simp: store_inv_def)
  let ?b = "next_ptr s"
  from new_buf_ok [OF i(1), of bs] obtain s1 where 1: "new_buf bs s = (?b, s1)" "agents_inv env s1 None M"
      "unowned ?b bs s1" "load s1 = load s" "objects s1 = objects s" "blade s1 = blade s" "calm s1 = calm s" .
  have load1: "load s1 < 500" and calm1: "calm s1" and B1: "blade_inv (re_blade env) blocks pool sz (blade s1) B"
    using load i(2,3) 1 by simp_all
  from i(4) old obtain loc where loc: "map_of (objects s) oid = Some loc" "old = stored env M loc"
      "B (remote_addr (allocRec loc)) = Some (unat (loc_size loc))" "unat (loc_size loc) \<le> SEND_MSG_SIZE"
    by (auto simp: objects_ok_def)
  have n: "length old = unat (loc_size loc)" using loc(2) verbs by (simp add: stored_def verbs_documented_def)
  let ?bs = "take (length old) bs"
  have l: "length ?bs = unat (loc_size loc)" using w(2) n by simp
  obtain s2 where 2: "writeRemote env ?b loc s1 = Some (Ok True s2)"
      "agents_inv env s2 None (nic_write (re_nic env) (remote_addr (allocRec loc)) (take (unat (loc_size loc)) bs) M)"
      "calm s2" "load s2 \<le> Suc (load s1)" "objects s2 = objects s1" "blade s2 = blade s1"
    by (rule writeRemote_ok [OF codec 1(2) calm1 load1 1(3), of loc]) (use n w(2) loc(4) in auto)
  from blade_inv_apart [OF i(3)] obtain A where A: "apart B A" by blast
  have "objects_ok env (objects s2) (nic_write (re_nic env) (remote_addr (allocRec loc)) ?bs M) B (L(oid \<mapsto> ?bs))"
    by (rule objects_ok_write [OF verbs i(4) A])
      (use loc l i(4) 1(5) 2(5) in \<open>auto simp: objects_ok_def fun_upd_idem\<close>)
  with 2 B1 n have "store_inv env blocks pool sz s2 (L(oid \<mapsto> ?bs))" by (auto simp: store_inv_def)
  with that 1 2(1,4) w(1) loc(1) show ?thesis by (auto simp: rdma_do_def rdma_write_sync_obj_def)
qed

lemma put_answers:
  assumes doc: "rdma_documented env blocks pool" and inv: "store_inv env blocks pool sz s L" and load: "load s < 500"
    and proper: "rdma_proper (re_uninit env) (RPut oid w) L"
  shows "rdma_answers env blocks pool sz (RPut oid w) s L"
proof -
  from doc have codec: "blade_codec_documented (re_blade env)" and verbs: "verbs_documented (re_nic env)"
    by (simp_all add: rdma_documented_def)
  from inv obtain M B where i: "agents_inv env s None M" "calm s" "blade_inv (re_blade env) blocks pool sz (blade s) B"
      "objects_ok env (objects s) M B L" by (auto simp: store_inv_def)
  from proper obtain bs where bs: "serialized (re_uninit env) w = Some bs" "length bs = unat (wu_size w)"
      "length bs \<le> SEND_MSG_SIZE" "\<And>old. L oid = Some old \<Longrightarrow> length old = length bs"
    by (auto split: option.splits)
  let ?b = "next_ptr s"
  from new_buf_ok [OF i(1), of bs] obtain s1 where 1: "new_buf bs s = (?b, s1)" "agents_inv env s1 None M"
      "unowned ?b bs s1" "load s1 = load s" "objects s1 = objects s" "blade s1 = blade s" "calm s1 = calm s" .
  have load1: "load s1 < 500" and calm1: "calm s1" and B1: "blade_inv (re_blade env) blocks pool sz (blade s1) B"
    using load i(2,3) 1 by simp_all
  show ?thesis
  proof (cases "map_of (objects s) oid")
    case (Some loc)
    then obtain old where old: "L oid = Some old" using i(4) by (auto simp: objects_ok_def)
    have le: "length old \<le> length bs" and len: "take (length old) bs = bs" using bs(4) [OF old] by simp_all
    obtain s' where "rdma_do env (RPut oid w) s = Some (Ok None s')"
        "store_inv env blocks pool sz s' (L(oid \<mapsto> take (length old) bs))" "load s' \<le> Suc (load s)"
      by (rule longer_put_answers [OF doc inv load old bs(1) le])
    then show ?thesis using len bs(1) by (auto simp: rdma_answers_def)
  next
    case None
    show ?thesis
    proof (cases rule: rdma_allocate_ok [OF doc 1(2) calm1 load1 B1, of "wu_size w", case_names memory block])
      case (memory e s')
      with 1(1,5) bs(1) None show ?thesis by (auto simp: rdma_answers_def rdma_do_def rdma_write_sync_obj_def)
    next
      case (block ar s2)
      let ?loc = "\<lparr>loc_size = wu_size w, allocRec = ar\<rparr>"
      let ?s2 = "insertObjectLocation oid (wu_size w) ar s2"
      have s2: "agents_inv env ?s2 None M" "load ?s2 = 0" "calm ?s2" "unowned ?b bs ?s2" "blade ?s2 = blade s2"
          "objects ?s2 = AList.update oid ?loc (objects s)"
        using block(2-4,7,8) 1(3,5) agents_inv_cong [of ?s2 s2 None]
        by (simp_all add: insertObjectLocation_def calm_def)
      have l2: "load ?s2 < 500" using s2(2) by simp
      obtain s3 where 3: "writeRemote env ?b ?loc ?s2 = Some (Ok True s3)"
          "agents_inv env s3 None (nic_write (re_nic env) (remote_addr (allocRec ?loc)) (take (unat (loc_size ?loc)) bs) M)"
          "calm s3" "load s3 \<le> Suc (load ?s2)" "objects s3 = objects ?s2" "blade s3 = blade ?s2"
        by (rule writeRemote_ok [OF codec s2(1,3) l2 s2(4), of ?loc]) (use bs(2,3) in auto)
      let ?B = "B(remote_addr ar \<mapsto> unat (wu_size w))"
      from blade_inv_apart [OF block(5)] obtain A where A: "apart ?B A" by blast
      have other: "remote_addr (allocRec loc') \<noteq> remote_addr ar" if "map_of (objects s) oid' = Some loc'" for oid' loc'
        using i(4) block(6) that unfolding objects_ok_def by (metis option.distinct(1))
      have ok: "objects_ok env (objects s) M ?B L"
        using i(4) other by (simp add: objects_ok_def)
      have "objects_ok env (objects s3) (nic_write (re_nic env) (remote_addr (allocRec ?loc)) bs M) ?B (L(oid \<mapsto> bs))"
        by (rule objects_ok_write [OF verbs ok A])
          (use bs(2,3) other 3(5) s2(6) in \<open>auto simp: update_conv'\<close>)
      with 3 s2(5) block(5) bs(2) have "store_inv env blocks pool sz s3 (L(oid \<mapsto> bs))" by (auto simp: store_inv_def)
      with 1 3(1,4) s2(2) bs(1) None block(1) show ?thesis
        by (auto simp: rdma_answers_def rdma_do_def rdma_write_sync_obj_def)
    qed
  qed
qed

lemma get_answers:
  assumes doc: "rdma_documented env blocks pool" and inv: "store_inv env blocks pool sz s L" and load: "load s < 500"
    and proper: "rdma_proper (re_uninit env) (RGet oid) L"
  shows "rdma_answers env blocks pool sz (RGet oid) s L"
proof -
  from doc have codec: "blade_codec_documented (re_blade env)" by (simp add: rdma_documented_def)
  from inv obtain M B where i: "agents_inv env s None M" "calm s" "blade_inv (re_blade env) blocks pool sz (blade s) B"
      "objects_ok env (objects s) M B L" by (auto simp: store_inv_def)
  from proper i(4) obtain loc where loc: "map_of (objects s) oid = Some loc" "L oid = Some (stored env M loc)"
      "unat (loc_size loc) \<le> RECV_MSG_SIZE"
    by (auto simp: objects_ok_def SEND_MSG_SIZE_def RECV_MSG_SIZE_def)
  from read_sync_ok [OF codec i(1,2) load loc(3)] obtain s' where
    "bindW (readToLocalAsync env loc s) (rdma_getDataPair env) = Some (Ok (stored env M loc, 0) s')"
    "agents_inv env s' None M" "calm s'" "load s' = 0" "objects s' = objects s" "blade s' = blade s"
    unfolding stored_def by metis
  with i loc show ?thesis by (auto simp: rdma_answers_def rdma_do_def rdma_read_sync_obj_def store_inv_def)
qed

lemma remove_answers:
  assumes doc: "rdma_documented env blocks pool" and inv: "store_inv env blocks pool sz s L" and load: "load s < 500"
    and proper: "rdma_proper (re_uninit env) (RRemove oid) L"
  shows "rdma_answers env blocks pool sz (RRemove oid) s L"
proof -
  from doc have codec: "blade_codec_documented (re_blade env)"
    and al: "allocator_documented (be_alloc (re_blade env)) blocks pool"
    by (simp_all add: rdma_documented_def)
  from inv obtain M B where i: "agents_inv env s None M" "calm s" "blade_inv (re_blade env) blocks pool sz (blade s) B"
      "objects_ok env (objects s) M B L" by (auto simp: store_inv_def)
  from proper i(4) obtain loc where loc: "map_of (objects s) oid = Some loc" "B (remote_addr (allocRec loc)) \<noteq> None"
    by (auto simp: objects_ok_def)
  let ?a = "remote_addr (allocRec loc)" and ?s = "s\<lparr>objects := AList.delete oid (objects s)\<rparr>"
  let ?m = "be_enc (re_blade env) (Dealloc ?a)"
  have s: "agents_inv env ?s None M" "load ?s < 500" "calm ?s"
    using i(1,2) load agents_inv_cong [of ?s s None] by (simp_all add: calm_def)
  obtain b where h: "blade_handle (re_blade env) (Dealloc ?a) (blade s) = Ok (DeallocAck 1) b"
    using blade_dealloc_answers [OF al i(3) loc(2)] .
  then have h': "blade_handle (re_blade env) (Dealloc ?a) (blade ?s) = Ok (DeallocAck 1) b" by simp
  have b: "blade_inv (re_blade env) blocks pool sz b (B(?a := None))" using blade_handle_inv [OF al i(3) h] by simp
  from exchange_of [OF codec s(1,3,2) h'] obtain s' where
    s': "send_receive_message_sync env (word_of_nat (length ?m)) (?s\<lparr>rc_send_msg := ?m @ drop (length ?m) (rc_send_msg ?s)\<rparr>)
        = Some (Ok True s')"
      "agents_inv env s' None M" "calm s'" "load s' = 0" "blade s' = b"
      "be_dec (re_blade env) (rc_recv_msg s') = Some (DeallocAck 1)" "objects s' = objects ?s" by metis
  have "store_inv env blocks pool sz s' (L(oid := None))"
    using s'(2,3,5,7) b objects_ok_delete [OF i(4) loc(1)] by (auto simp: store_inv_def)
  moreover have "rdma_remove env oid s = Some (Ok True s')"
    using loc(1) s'(1,6) by (simp add: rdma_remove_def rdma_deallocate_def Let_def)
  ultimately show ?thesis using s'(4) by (auto simp: rdma_answers_def rdma_do_def)
qed

lemma new_client_inv:
  assumes "\<forall>mvs\<in>set sc. Poll \<notin> set mvs"
  shows "store_inv env blocks pool sz (RDMAClient_new 0 (BladeAllocServer sz) m sc) Map.empty"
    "load (RDMAClient_new 0 (BladeAllocServer sz) m sc) = 0"
proof -
  let ?s = "RDMAClient_new 0 (BladeAllocServer sz) m sc"
  have "agents_inv env ?s None m"
    by (simp add: RDMAClient_new_def agents_inv_def queue_inv_def exch_def no_send_def no_recv_def load_def ops_apart_def)
  moreover have "blade_inv (re_blade env) blocks pool sz (blade ?s) Map.empty"
    by (simp add: RDMAClient_new_def BladeAllocServer_def blade_inv_def)
  moreover have "objects_ok env (objects ?s) m Map.empty Map.empty"
    by (simp add: RDMAClient_new_def objects_ok_def fun_eq_iff)
  moreover have "calm ?s" using assms by (simp add: RDMAClient_new_def calm_def)
  ultimately show "store_inv env blocks pool sz ?s Map.empty" unfolding store_inv_def by blast
  show "load ?s = 0" by (simp add: RDMAClient_new_def load_def)
qed

lemma rdma_run_answers:
  assumes doc: "rdma_documented env blocks pool"
  shows "store_inv env blocks pool sz s L \<Longrightarrow> load s + length cs \<le> 500 \<Longrightarrow> rdma_proper_run (re_uninit env) cs L \<Longrightarrow>
    (\<exists>s'. rdma_run env cs s = Some (Ok (map_answers (re_uninit env) cs L) s'))
    \<or> (\<exists>oid w e s'. RPut oid w \<in> set cs \<and> rdma_run env cs s = Some (Throw (ServerMemoryErrorException e) s')
       \<and> refused env (wu_size w) s')"
proof (induction cs arbitrary: s L)
  case (Cons c cs)
  have "rdma_answers env blocks pool sz c s L"
    using Cons.prems put_answers [OF doc] get_answers [OF doc] remove_answers [OF doc] by (cases c) simp_all
  then show ?case unfolding rdma_answers_def
  proof (elim disjE exE conjE)
    fix s'
    assume s': "rdma_do env c s = Some (Ok (map_answer c L) s')"
      "store_inv env blocks pool sz s' (map_after (re_uninit env) c L)" "load s' \<le> Suc (load s)"
    from Cons.IH [OF s'(2)] Cons.prems(2,3) s'(1,3) show ?thesis by fastforce
  qed auto
qed simp


subsection \<open>A remote memory\<close>

text \<open>A concrete memory for the examples, a function from addresses to bytes.\<close>

definition mem_nic :: "(nat \<Rightarrow> byte) rnic" where
  "mem_nic =
     \<lparr>nic_write = (\<lambda>a bs m i. if unat a \<le> i \<and> i < unat a + length bs then bs ! (i - unat a) else m i),
      nic_read = (\<lambda>a n m. map m [unat a..<unat a + n])\<rparr>"

lemma mem_nic_documented: "verbs_documented mem_nic"
proof -
  have "map (\<lambda>i. if x \<le> i \<and> i < x + length bs then bs ! (i - x) else m i) [x..<x + length bs] = bs"
    for x and bs :: "byte list" and m
    by (rule nth_equalityI) simp_all
  moreover have "map (\<lambda>i. if x \<le> i \<and> i < x + length bs then bs ! (i - x) else m i) [y..<y + n] = map m [y..<y + n]"
    if "{x..<x + length bs} \<inter> {y..<y + n} = {}" for x y n and bs :: "byte list" and m
    using that by (auto simp: disjoint_iff)
  ultimately show ?thesis by (simp add: verbs_documented_def mem_nic_def span_def)
qed

definition demo_rdma :: "(bump_alloc, nat \<Rightarrow> byte) rdma_env" where
  "demo_rdma = \<lparr>re_blade = demo_blade, re_nic = mem_nic, re_uninit = (\<lambda>_. 0)\<rparr>"

lemma demo_rdma_documented:
  "rdma_documented demo_rdma (\<lambda>a. map_of (bump_live a)) (\<lambda>a. span (fst (bump_pool a)) (unat (snd (bump_pool a))))"
  using demo_blade_documented mem_nic_documented by (simp add: rdma_documented_def demo_rdma_def demo_blade_def)

text \<open>Write units of one and of two bytes.\<close>

definition pair_unit :: "byte \<Rightarrow> byte \<Rightarrow> write_unit" where
  "pair_unit x y = \<lparr>wu_size = 2, wu_serialize = (\<lambda>buf. if length buf < 2 then None else Some ([x, y] @ drop 2 buf))\<rparr>"

lemma serialized_pair_unit [simp]: "serialized u (pair_unit x y) = Some [x, y]" "wu_size (pair_unit x y) = 2"
  by (simp_all add: serialized_def pair_unit_def uninit_buffer_def upt_rec)

definition byte_unit :: "byte \<Rightarrow> write_unit" where
  "byte_unit x = \<lparr>wu_size = 1, wu_serialize = (\<lambda>buf. if length buf < 1 then None else Some (x # drop 1 buf))\<rparr>"

lemma serialized_byte_unit [simp]: "serialized u (byte_unit x) = Some [x]" "wu_size (byte_unit x) = 1"
  by (simp_all add: serialized_def byte_unit_def uninit_buffer_def upt_rec)

definition demo_calls :: "rdma_call list" where
  "demo_calls = [RPut 1 (pair_unit 5 6), RPut 2 (pair_unit 7 8), RGet 1, RPut 1 (pair_unit 9 0), RGet 1, RRemove 1, RGet 2]"


section \<open>Where the client fails\<close>

text \<open>
  C27. An object written over a shorter one is cut to the size of the first: after a put of
  the bytes \<open>bs\<close> and a put of \<open>bs'\<close>, not shorter, under the same id, a get returns only as
  many bytes of \<open>bs'\<close> as \<open>bs\<close> has.
\<close>

theorem overwrite_truncates:
  fixes env :: "('al, 'm) rdma_env"
  assumes doc: "rdma_documented env blocks pool" and sc: "\<forall>mvs\<in>set sc. Poll \<notin> set mvs"
    and w: "serialized (re_uninit env) w = Some bs" "length bs = unat (wu_size w)" "length bs \<le> SEND_MSG_SIZE"
    and w': "serialized (re_uninit env) w' = Some bs'" "length bs \<le> length bs'"
  shows "(\<exists>s. rdma_run env [RPut oid w, RPut oid w', RGet oid] (RDMAClient_new 0 (BladeAllocServer sz) m sc)
        = Some (Ok [None, None, Some (take (length bs) bs')] s))
    \<or> (\<exists>e s. refused env (wu_size w) s
        \<and> rdma_run env [RPut oid w, RPut oid w', RGet oid] (RDMAClient_new 0 (BladeAllocServer sz) m sc)
          = Some (Throw (ServerMemoryErrorException e) s))"
proof -
  let ?s = "RDMAClient_new 0 (BladeAllocServer sz) m sc :: ('al, 'm) rdma_client"
  have new: "store_inv env blocks pool sz ?s Map.empty" "load ?s = 0" by (rule new_client_inv [OF sc])+
  have "rdma_answers env blocks pool sz (RPut oid w) ?s Map.empty"
    by (rule put_answers [OF doc new(1)]) (use new(2) w in simp_all)
  then show ?thesis unfolding rdma_answers_def
  proof (elim disjE exE conjE)
    fix s1
    assume 1: "rdma_do env (RPut oid w) ?s = Some (Ok (map_answer (RPut oid w) Map.empty) s1)"
      "store_inv env blocks pool sz s1 (map_after (re_uninit env) (RPut oid w) Map.empty)" "load s1 \<le> Suc (load ?s)"
    then have i1: "store_inv env blocks pool sz s1 [oid \<mapsto> bs]" and l1: "load s1 < 500" using w new(2) by simp_all
    have o: "[oid \<mapsto> bs] oid = Some bs" by simp
    obtain s2 where 2: "rdma_do env (RPut oid w') s1 = Some (Ok None s2)"
        "store_inv env blocks pool sz s2 [oid \<mapsto> take (length bs) bs']" "load s2 \<le> Suc (load s1)"
      by (rule longer_put_answers [OF doc i1 l1 o w', unfolded fun_upd_upd])
    have "rdma_answers env blocks pool sz (RGet oid) s2 [oid \<mapsto> take (length bs) bs']"
      by (rule get_answers [OF doc 2(2)]) (use 1(3) 2(3) new(2) in simp_all)
    then obtain s3 where "rdma_do env (RGet oid) s2 = Some (Ok (Some (take (length bs) bs')) s3)"
      by (auto simp: rdma_answers_def)
    with 1(1) 2(1) show ?thesis by simp
  qed auto
qed

theorem overwrite_truncates_witness:
  "(\<exists>s. rdma_run demo_rdma [RPut 1 (byte_unit 5), RPut 1 (pair_unit 7 8), RGet 1]
        (RDMAClient_new 0 (BladeAllocServer 100) (\<lambda>_. 0) [])
      = Some (Ok [None, None, Some [7]] s))
   \<or> (\<exists>e s. refused demo_rdma 1 s
      \<and> rdma_run demo_rdma [RPut 1 (byte_unit 5), RPut 1 (pair_unit 7 8), RGet 1]
          (RDMAClient_new 0 (BladeAllocServer 100) (\<lambda>_. 0) [])
        = Some (Throw (ServerMemoryErrorException e) s))"
  using overwrite_truncates [OF demo_rdma_documented, of "[]" "byte_unit 5" "[5]" "pair_unit 7 8" "[7, 8]" 1 100 "\<lambda>_. 0"]
  by (simp add: SEND_MSG_SIZE_def)

text \<open>A client with nothing in flight and no failing call ahead.\<close>

definition idle :: "('al, 'm) rdma_client \<Rightarrow> bool" where
  "idle s \<longleftrightarrow> send_queue s = [] \<and> comp_queue s = [] \<and> outstanding_send_wr s = 0 \<and> post_errors s = [] \<and> reg_errors s = []"

text \<open>
  C28. A put can use freed memory: when the card executes the write and the polling thread
  handles its completion before the caller waits, the caller waits on an \<^verbatim>\<open>RDMAOpInfo\<close> that has
  been deleted.
\<close>

theorem sync_put_uses_freed_memory:
  assumes "idle s" "map_of (objects s) oid = Some loc" "serialized (re_uninit env) w = Some bs"
    and "unat (loc_size loc) \<le> length bs" "unat (loc_size loc) \<le> SEND_MSG_SIZE" "sched s = [Card, Poll] # rest"
  shows "rdma_write_sync_obj env oid w s = Some Undef"
  using assms
  by (simp add: idle_def rdma_write_sync_obj_def new_buf_def writeRemote_def rdma_write_sync_def prepare_def RDMAMem_new_def
      write_rdma_sync_def new_op_def write_rdma_async_def post_send_def MAX_SEND_WR_def race_def card_step_def poll_step_def
      client_on_completion_def op_apply_def retire_def op_signal_def op_free_def op_wait_def)

theorem sync_put_uses_freed_memory_witness:
  "rdma_write_sync_obj demo_rdma 1 (pair_unit 5 6)
     ((RDMAClient_new 0 (BladeAllocServer 100) (\<lambda>_. 0) [[Card, Poll]])
        \<lparr>objects := [(1, \<lparr>loc_size = 2, allocRec = \<lparr>alloc_id = 0, remote_addr = 4096, peer_rkey = 7\<rparr>\<rparr>)]\<rparr>)
   = Some Undef"
  by (rule sync_put_uses_freed_memory [where bs = "[5, 6]" and rest = "[]"
        and loc = "\<lparr>loc_size = 2, allocRec = \<lparr>alloc_id = 0, remote_addr = 4096, peer_rkey = 7\<rparr>\<rparr>"])
    (simp_all add: idle_def RDMAClient_new_def SEND_MSG_SIZE_def)

text \<open>A shorter object over a longer one: the card reads past the end of the buffer.\<close>

lemma shorter_overwrite_overreads:
  assumes "idle s" "map_of (objects s) oid = Some loc" "serialized (re_uninit env) w = Some bs"
    and "length bs < unat (loc_size loc)" "unat (loc_size loc) \<le> SEND_MSG_SIZE" "sched s = [Card] # rest"
  shows "rdma_write_sync_obj env oid w s = Some Undef"
  using assms
  by (simp add: idle_def rdma_write_sync_obj_def new_buf_def writeRemote_def rdma_write_sync_def prepare_def RDMAMem_new_def
      write_rdma_sync_def new_op_def write_rdma_async_def post_send_def MAX_SEND_WR_def race_def card_step_def)

text \<open>
  C29. With the limit of 500 work requests in flight a put of a new object takes the answer to
  the last allocation for its own: it fails, and leaves the new id at the address of the last
  allocated object, whose bytes a later get returns.
\<close>

theorem full_queue_aliases:
  assumes "outstanding_send_wr s = MAX_SEND_WR" "be_dec (re_blade env) (rc_recv_msg s) = Some (AllocAck i addr k)" "addr \<noteq> 0"
    and "map_of (objects s) oid = None" "serialized (re_uninit env) w = Some bs" "unat (wu_size w) \<le> SEND_MSG_SIZE"
    and "reg_errors s = []"
  shows "\<exists>s'. rdma_write_sync_obj env oid w s = Some (Throw (runtime_error ''write_rdma_async: error post_send'') s')
    \<and> map_of (objects s') oid =
        Some \<lparr>loc_size = wu_size w, allocRec = \<lparr>alloc_id = ucast i, remote_addr = addr, peer_rkey = k\<rparr>\<rparr>
    \<and> blade s' = blade s"
  using assms
  by (simp add: rdma_write_sync_obj_def new_buf_def rdma_allocate_def Let_def send_receive_message_sync_def
      client_send_message_def post_receive_def new_op_def post_send_def insertObjectLocation_def writeRemote_def
      rdma_write_sync_def prepare_def RDMAMem_new_def write_rdma_sync_def write_rdma_async_def update_conv')

theorem full_queue_aliases_witness:
  "\<exists>s'. rdma_write_sync_obj demo_rdma 2 (pair_unit 5 6)
      ((RDMAClient_new 500 (BladeAllocServer 100) (\<lambda>_. 0) []) \<lparr>rc_recv_msg := blade_encode (AllocAck 0 4096 7)\<rparr>)
      = Some (Throw (runtime_error ''write_rdma_async: error post_send'') s')
    \<and> map_of (objects s') 2 =
        Some \<lparr>loc_size = 2, allocRec = \<lparr>alloc_id = 0, remote_addr = 4096, peer_rkey = 7\<rparr>\<rparr>"
proof -
  let ?s = "(RDMAClient_new 500 (BladeAllocServer 100) (\<lambda>_. 0) []) \<lparr>rc_recv_msg := blade_encode (AllocAck 0 4096 7)\<rparr>
    :: (bump_alloc, nat \<Rightarrow> byte) rdma_client"
  have "be_dec (re_blade demo_rdma) (rc_recv_msg ?s) = Some (AllocAck 0 4096 7)"
    using demo_blade_documented(1) [unfolded blade_codec_documented_def, THEN conjunct1, rule_format, of "AllocAck 0 4096 7" "[]"]
    by (simp add: demo_rdma_def demo_blade_def)
  from full_queue_aliases [OF _ this, of 2 "pair_unit 5 6" "[5, 6]"] show ?thesis
    by (simp add: RDMAClient_new_def MAX_SEND_WR_def SEND_MSG_SIZE_def) blast
qed

text \<open>
  The bytes of a read come back with the size 0, and the call for an unknown id throws without
  a request.
\<close>

lemma rdma_read_reports_no_size:
  assumes "rdma_read_async env ar off len s = Some (Ok f s')"
  shows "data_size (fds s' ! f) = 0"
  using assms
  by (auto simp: rdma_read_async_def new_op_def read_rdma_async_def post_send_def prepare_def bindW_eq_Ok FutureData_new_def
      Let_def split: if_splits list.splits bool.splits prod.splits)

end
